(* ===== verification/Prelude.thy ===== *)
theory Prelude
  imports Main "HOL-Library.Word" "HOL-Library.Code_Target_Numeral"
begin

text \<open>
  Shared vocabulary of the development: the names of the machine types, the collections of
  facts the component proofs use, the arithmetic reading of the bit operations that the
  sources write with shifts and masks, lemmas on lists and options, and the two interfaces
  (\<open>printer\<close> and \<open>loop\<close>) that several components implement.

  A byte (\<^verbatim>\<open>u8\<close>, \<^verbatim>\<open>char\<close>) is a HOL \<^typ>\<open>char\<close>, which has exactly 8 bits, so
  a \<^verbatim>\<open>StringView\<close>, \<^verbatim>\<open>ByteString\<close> or \<^verbatim>\<open>String\<close> is a \<^typ>\<open>string\<close> of bytes.
  A code point (\<^verbatim>\<open>u32\<close>) is a \<^typ>\<open>nat\<close>.  \<^verbatim>\<open>u16\<close> and \<^verbatim>\<open>u32\<close> values whose width
  matters are words.
\<close>

unbundle bit_operations_syntax

type_synonym bytes = string
type_synonym code_point = nat
type_synonym u16 = "16 word"
type_synonym u32 = "32 word"

abbreviation ord_of :: "char \<Rightarrow> nat" where
  "ord_of c \<equiv> of_char c"

named_theorems class_defs \<open>definitions of character classes\<close>
named_theorems utf8_facts \<open>arithmetic reading of the UTF-8 code\<close>
named_theorems state_defs \<open>definitions of the handlers of the URL parser's states\<close>

subsection \<open>Bit operations as arithmetic\<close>

lemma and_low_mask: "(x::nat) AND (2 ^ n - 1) = x mod 2 ^ n"
  by (metis mask_eq_exp_minus_1 take_bit_eq_mask take_bit_eq_mod)

lemma or_disjoint_add:
  assumes "x < 2 ^ n"
  shows "(x::nat) OR (2 ^ n * y) = x + 2 ^ n * y"
proof -
  have "x = take_bit n x" using assms by (simp add: take_bit_nat_eq_self)
  moreover have "2 ^ n * y = push_bit n y" by (simp add: push_bit_eq_mult)
  moreover have "take_bit n x AND push_bit n y = 0"
    by (rule bit_eqI) (auto simp: bit_simps)
  ultimately show ?thesis using disjunctive_add_eq_or by metis
qed

lemma and_high_mask:
  assumes "b < 2 ^ k" and "n \<le> k"
  shows "(b::nat) AND push_bit n (mask (k - n)) = 2 ^ n * (b div 2 ^ n)"
proof -
  have b: "b = take_bit k b" using assms by (simp add: take_bit_nat_eq_self)
  have "b AND push_bit n (mask (k - n)) = push_bit n (drop_bit n b)"
    by (subst (1 2) b, rule bit_eqI) (use assms in \<open>auto simp: bit_simps\<close>)
  then show ?thesis by (simp add: push_bit_eq_mult drop_bit_eq_div)
qed

text \<open>The masks and marker bits that the UTF-8 code uses.\<close>

lemma low_masks [utf8_facts]:
  fixes x :: nat
  shows "x AND 7 = x mod 8" "x AND 15 = x mod 16" "x AND 31 = x mod 32" "x AND 63 = x mod 64"
    "x AND 127 = x mod 128" "x AND 255 = x mod 256"
  using and_low_mask [of x 3] and_low_mask [of x 4] and_low_mask [of x 5] and_low_mask [of x 6]
    and_low_mask [of x 7] and_low_mask [of x 8]
  by simp_all

lemma high_masks [utf8_facts]:
  fixes b :: nat
  assumes "b < 256"
  shows "b AND 128 = 128 * (b div 128)" "b AND 224 = 32 * (b div 32)"
    "b AND 240 = 16 * (b div 16)" "b AND 248 = 8 * (b div 8)"
  using and_high_mask [of b 8 7] and_high_mask [of b 8 5] and_high_mask [of b 8 4]
    and_high_mask [of b 8 3] assms
  by (simp_all add: mask_nat_def push_bit_eq_mult)

lemma or_markers [utf8_facts]:
  fixes x :: nat
  shows "x < 64 \<Longrightarrow> x OR 128 = x + 128" "x < 32 \<Longrightarrow> x OR 192 = x + 192"
    "x < 16 \<Longrightarrow> x OR 224 = x + 224" "x < 8 \<Longrightarrow> x OR 240 = x + 240"
  using or_disjoint_add [of x 6 2] or_disjoint_add [of x 5 6] or_disjoint_add [of x 4 14]
    or_disjoint_add [of x 3 30]
  by simp_all

lemma push_or [utf8_facts]:
  fixes x y :: nat
  shows "y < 64 \<Longrightarrow> push_bit 6 x OR y = 64 * x + y"
  using or_disjoint_add [of y 6 x] by (simp add: push_bit_eq_mult or.commute algebra_simps)

subsection \<open>Bytes\<close>

lemma char_eq_iff_ord: "c = d \<longleftrightarrow> ord_of c = ord_of d"
  by simp

lemma char_of_inject_small [simp]:
  "m < 256 \<Longrightarrow> n < 256 \<Longrightarrow> (char_of (m::nat) = char_of n) = (m = n)"
  by (metis mod_less of_char_of)

lemma ord_char_of_small [simp]: "n < 256 \<Longrightarrow> ord_of (char_of (n::nat)) = n"
  by simp

lemma ord_less_256 [simp, intro]: "ord_of c < 256"
  by (rule nat_of_char_less_256)

text \<open>Evaluation of \<^const>\<open>char_of\<close> on numerals.\<close>

lemmas char_of_eval = char_of_def bit_0

subsection \<open>Options and lists\<close>

lemma takeWhile_dropWhile_split:
  "xs = takeWhile P xs @ dropWhile P xs"
  by simp

lemma list_all_takeWhile [simp]: "list_all P (takeWhile P xs)"
  by (auto simp: list_all_iff dest: set_takeWhileD)

lemma list_all_imp_takeWhile [simp]: "list_all P xs \<Longrightarrow> takeWhile P xs = xs"
  by (auto simp: list_all_iff)

text \<open>The numbers of the ASCII characters, as numerals.\<close>

lemma ord_ascii [simp]:
  "ord_of CHR 0x00 = 0" "ord_of CHR 0x01 = 1" "ord_of CHR 0x02 = 2" "ord_of CHR 0x03 = 3"
  "ord_of CHR 0x04 = 4" "ord_of CHR 0x05 = 5" "ord_of CHR 0x06 = 6" "ord_of CHR 0x07 = 7"
  "ord_of CHR 0x08 = 8" "ord_of CHR 0x09 = 9" "ord_of CHR 0x0A = 10" "ord_of CHR 0x0B = 11"
  "ord_of CHR 0x0C = 12" "ord_of CHR 0x0D = 13" "ord_of CHR 0x0E = 14" "ord_of CHR 0x0F = 15"
  "ord_of CHR 0x10 = 16" "ord_of CHR 0x11 = 17" "ord_of CHR 0x12 = 18" "ord_of CHR 0x13 = 19"
  "ord_of CHR 0x14 = 20" "ord_of CHR 0x15 = 21" "ord_of CHR 0x16 = 22" "ord_of CHR 0x17 = 23"
  "ord_of CHR 0x18 = 24" "ord_of CHR 0x19 = 25" "ord_of CHR 0x1A = 26" "ord_of CHR 0x1B = 27"
  "ord_of CHR 0x1C = 28" "ord_of CHR 0x1D = 29" "ord_of CHR 0x1E = 30" "ord_of CHR 0x1F = 31"
  "ord_of CHR 0x20 = 32" "ord_of CHR 0x21 = 33" "ord_of CHR 0x22 = 34" "ord_of CHR 0x23 = 35"
  "ord_of CHR 0x24 = 36" "ord_of CHR 0x25 = 37" "ord_of CHR 0x26 = 38" "ord_of CHR 0x27 = 39"
  "ord_of CHR 0x28 = 40" "ord_of CHR 0x29 = 41" "ord_of CHR 0x2A = 42" "ord_of CHR 0x2B = 43"
  "ord_of CHR 0x2C = 44" "ord_of CHR 0x2D = 45" "ord_of CHR 0x2E = 46" "ord_of CHR 0x2F = 47"
  "ord_of CHR 0x30 = 48" "ord_of CHR 0x31 = 49" "ord_of CHR 0x32 = 50" "ord_of CHR 0x33 = 51"
  "ord_of CHR 0x34 = 52" "ord_of CHR 0x35 = 53" "ord_of CHR 0x36 = 54" "ord_of CHR 0x37 = 55"
  "ord_of CHR 0x38 = 56" "ord_of CHR 0x39 = 57" "ord_of CHR 0x3A = 58" "ord_of CHR 0x3B = 59"
  "ord_of CHR 0x3C = 60" "ord_of CHR 0x3D = 61" "ord_of CHR 0x3E = 62" "ord_of CHR 0x3F = 63"
  "ord_of CHR 0x40 = 64" "ord_of CHR 0x41 = 65" "ord_of CHR 0x42 = 66" "ord_of CHR 0x43 = 67"
  "ord_of CHR 0x44 = 68" "ord_of CHR 0x45 = 69" "ord_of CHR 0x46 = 70" "ord_of CHR 0x47 = 71"
  "ord_of CHR 0x48 = 72" "ord_of CHR 0x49 = 73" "ord_of CHR 0x4A = 74" "ord_of CHR 0x4B = 75"
  "ord_of CHR 0x4C = 76" "ord_of CHR 0x4D = 77" "ord_of CHR 0x4E = 78" "ord_of CHR 0x4F = 79"
  "ord_of CHR 0x50 = 80" "ord_of CHR 0x51 = 81" "ord_of CHR 0x52 = 82" "ord_of CHR 0x53 = 83"
  "ord_of CHR 0x54 = 84" "ord_of CHR 0x55 = 85" "ord_of CHR 0x56 = 86" "ord_of CHR 0x57 = 87"
  "ord_of CHR 0x58 = 88" "ord_of CHR 0x59 = 89" "ord_of CHR 0x5A = 90" "ord_of CHR 0x5B = 91"
  "ord_of CHR 0x5C = 92" "ord_of CHR 0x5D = 93" "ord_of CHR 0x5E = 94" "ord_of CHR 0x5F = 95"
  "ord_of CHR 0x60 = 96" "ord_of CHR 0x61 = 97" "ord_of CHR 0x62 = 98" "ord_of CHR 0x63 = 99"
  "ord_of CHR 0x64 = 100" "ord_of CHR 0x65 = 101" "ord_of CHR 0x66 = 102" "ord_of CHR 0x67 = 103"
  "ord_of CHR 0x68 = 104" "ord_of CHR 0x69 = 105" "ord_of CHR 0x6A = 106" "ord_of CHR 0x6B = 107"
  "ord_of CHR 0x6C = 108" "ord_of CHR 0x6D = 109" "ord_of CHR 0x6E = 110" "ord_of CHR 0x6F = 111"
  "ord_of CHR 0x70 = 112" "ord_of CHR 0x71 = 113" "ord_of CHR 0x72 = 114" "ord_of CHR 0x73 = 115"
  "ord_of CHR 0x74 = 116" "ord_of CHR 0x75 = 117" "ord_of CHR 0x76 = 118" "ord_of CHR 0x77 = 119"
  "ord_of CHR 0x78 = 120" "ord_of CHR 0x79 = 121" "ord_of CHR 0x7A = 122" "ord_of CHR 0x7B = 123"
  "ord_of CHR 0x7C = 124" "ord_of CHR 0x7D = 125" "ord_of CHR 0x7E = 126" "ord_of CHR 0x7F = 127"
  by simp_all

subsection \<open>Outcomes\<close>

text \<open>
  The result of a C++ function that may report a failure: a value, the failure (an empty
  \<^verbatim>\<open>Optional\<close> or an \<^verbatim>\<open>Error\<close>), or a failing assertion (\<^verbatim>\<open>VERIFY\<close>), which ends the program.
\<close>

datatype 'a outcome = Crash | Failure | Success 'a

fun outcome_bind :: "'a outcome \<Rightarrow> ('a \<Rightarrow> 'b outcome) \<Rightarrow> 'b outcome" where
  "outcome_bind Crash f = Crash"
| "outcome_bind Failure f = Failure"
| "outcome_bind (Success x) f = f x"

fun outcome_option :: "'a outcome \<Rightarrow> 'a option" where
  "outcome_option (Success x) = Some x"
| "outcome_option Failure = None"
| "outcome_option Crash = None"

lemma outcome_bind_Success:
  "outcome_bind x f = Success y \<longleftrightarrow> (\<exists>z. x = Success z \<and> f z = Success y)"
  by (cases x) auto

lemma outcome_bind_Crash:
  "outcome_bind x f = Crash \<longleftrightarrow> x = Crash \<or> (\<exists>z. x = Success z \<and> f z = Crash)"
  by (cases x) auto

subsection \<open>Digits and separators\<close>

text \<open>The value of a list of digits, most significant first.\<close>

definition radix_value :: "nat \<Rightarrow> nat list \<Rightarrow> nat" where
  "radix_value base ds = foldl (\<lambda>v d. v * base + d) 0 ds"

lemma radix_value_snoc [simp]: "radix_value base (ds @ [d]) = radix_value base ds * base + d"
  by (simp add: radix_value_def)

lemma radix_value_Nil [simp]: "radix_value base [] = 0"
  by (simp add: radix_value_def)

fun join_with :: "bytes \<Rightarrow> bytes list \<Rightarrow> bytes" where
  "join_with sep [] = []"
| "join_with sep [x] = x"
| "join_with sep (x # y # zs) = x @ sep @ join_with sep (y # zs)"

lemma join_with_Cons: "xs \<noteq> [] \<Longrightarrow> join_with sep (x # xs) = x @ sep @ join_with sep xs"
  by (cases xs) auto

subsection \<open>Interface: printers with a parser that reads them back\<close>

text \<open>
  A serializer and the parser of the same syntax.  The law is that parsing what was printed
  gives the value back; a client may conclude that the printed form identifies the value.
\<close>

locale printer =
  fixes print :: "'a \<Rightarrow> 'b"
    and parse :: "'b \<Rightarrow> 'a option"
    and ok :: "'a \<Rightarrow> bool"
  assumes parse_print: "ok x \<Longrightarrow> parse (print x) = Some x"
begin

lemma print_inject: "ok x \<Longrightarrow> ok y \<Longrightarrow> print x = print y \<longleftrightarrow> x = y"
  by (metis option.inject parse_print)

lemma inj_on_print: "inj_on print {x. ok x}"
  by (auto intro!: inj_onI simp: print_inject)

lemma parse_print_canonical:
  "parse s = Some x \<Longrightarrow> ok x \<Longrightarrow> parse (print x) = parse s"
  by (simp add: parse_print)

end

subsection \<open>Interface: loops\<close>

text \<open>
  A loop that runs a step until it returns.  \<open>run\<close> satisfies the loop's equation and every
  step that goes on makes a well-founded measure smaller.  Clients get an induction rule over
  the iterations, and from it the rule for invariants: what holds at the start, is kept by
  every iteration and implies the postcondition at the exit, gives the postcondition of the
  result.
\<close>

locale loop =
  fixes step :: "'s \<Rightarrow> 's + 'r"
    and run :: "'s \<Rightarrow> 'r"
    and rel :: "('s \<times> 's) set"
  assumes run_unfold: "run s = (case step s of Inl t \<Rightarrow> run t | Inr r \<Rightarrow> r)"
    and wf_rel: "wf rel"
    and step_rel: "step s = Inl t \<Longrightarrow> (t, s) \<in> rel"
begin

lemma run_induct:
  assumes "\<And>s. (\<And>t. step s = Inl t \<Longrightarrow> P t) \<Longrightarrow> P s"
  shows "P s"
  using wf_rel
proof (induction s rule: wf_induct_rule)
  case (less s)
  then show ?case using assms step_rel by blast
qed

lemma run_invariant:
  assumes "invar s"
    and keeps: "\<And>s t. invar s \<Longrightarrow> step s = Inl t \<Longrightarrow> invar t"
    and exits: "\<And>s r. invar s \<Longrightarrow> step s = Inr r \<Longrightarrow> post r"
  shows "post (run s)"
  using \<open>invar s\<close>
proof (induction s rule: run_induct)
  case (1 s)
  show ?case
  proof (cases "step s")
    case (Inl t)
    then show ?thesis using 1 keeps by (simp add: run_unfold [of s])
  next
    case (Inr r)
    then show ?thesis using 1 exits by (simp add: run_unfold [of s])
  qed
qed

end

end
