(* ===== verification/CharacterTypes.thy ===== *)
theory CharacterTypes
  imports Prelude
begin

text \<open>
  The code point predicates and conversions of \<^verbatim>\<open>AK/CharacterTypes.h\<close>, one definition per
  function.  A conversion that ends in \<^verbatim>\<open>VERIFY_NOT_REACHED()\<close> returns \<^const>\<open>None\<close> there.

  The sources also call these predicates on a (signed) \<^verbatim>\<open>char\<close>, which is then sign-extended
  to \<^verbatim>\<open>u32\<close>; a byte of 128 or more becomes a value above \<^verbatim>\<open>0xFFFFFF7F\<close>.  No predicate that
  is called this way holds for a value of 128 or more, so its value on the byte's unsigned
  reading \<^const>\<open>of_char\<close> is the same.
\<close>

definition is_ascii :: "code_point \<Rightarrow> bool" where
  [class_defs]: "is_ascii code_point \<longleftrightarrow> code_point < 0x80"

definition is_ascii_digit :: "code_point \<Rightarrow> bool" where
  [class_defs]: "is_ascii_digit code_point \<longleftrightarrow>
     ord_of CHR ''0'' \<le> code_point \<and> code_point \<le> ord_of CHR ''9''"

definition is_ascii_upper_alpha :: "code_point \<Rightarrow> bool" where
  [class_defs]: "is_ascii_upper_alpha code_point \<longleftrightarrow>
     ord_of CHR ''A'' \<le> code_point \<and> code_point \<le> ord_of CHR ''Z''"

definition is_ascii_lower_alpha :: "code_point \<Rightarrow> bool" where
  [class_defs]: "is_ascii_lower_alpha code_point \<longleftrightarrow>
     ord_of CHR ''a'' \<le> code_point \<and> code_point \<le> ord_of CHR ''z''"

definition is_ascii_alpha :: "code_point \<Rightarrow> bool" where
  [class_defs]: "is_ascii_alpha code_point \<longleftrightarrow>
     is_ascii_lower_alpha code_point \<or> is_ascii_upper_alpha code_point"

definition is_ascii_alphanumeric :: "code_point \<Rightarrow> bool" where
  [class_defs]: "is_ascii_alphanumeric code_point \<longleftrightarrow>
     is_ascii_alpha code_point \<or> is_ascii_digit code_point"

definition is_ascii_base36_digit :: "code_point \<Rightarrow> bool" where
  [class_defs]: "is_ascii_base36_digit code_point \<longleftrightarrow> is_ascii_digit code_point
     \<or> (ord_of CHR ''A'' \<le> code_point \<and> code_point \<le> ord_of CHR ''Z'')
     \<or> (ord_of CHR ''a'' \<le> code_point \<and> code_point \<le> ord_of CHR ''z'')"

definition is_ascii_binary_digit :: "code_point \<Rightarrow> bool" where
  [class_defs]: "is_ascii_binary_digit code_point \<longleftrightarrow>
     code_point = ord_of CHR ''0'' \<or> code_point = ord_of CHR ''1''"

definition is_ascii_octal_digit :: "code_point \<Rightarrow> bool" where
  [class_defs]: "is_ascii_octal_digit code_point \<longleftrightarrow>
     ord_of CHR ''0'' \<le> code_point \<and> code_point \<le> ord_of CHR ''7''"

definition is_ascii_uppercase_hex_digit :: "code_point \<Rightarrow> bool" where
  [class_defs]: "is_ascii_uppercase_hex_digit code_point \<longleftrightarrow> is_ascii_digit code_point
     \<or> (ord_of CHR ''A'' \<le> code_point \<and> code_point \<le> ord_of CHR ''F'')"

definition is_ascii_hex_digit :: "code_point \<Rightarrow> bool" where
  [class_defs]: "is_ascii_hex_digit code_point \<longleftrightarrow> is_ascii_uppercase_hex_digit code_point
     \<or> (ord_of CHR ''a'' \<le> code_point \<and> code_point \<le> ord_of CHR ''f'')"

definition is_ascii_blank :: "code_point \<Rightarrow> bool" where
  [class_defs]: "is_ascii_blank code_point \<longleftrightarrow> code_point = 0x09 \<or> code_point = ord_of CHR '' ''"

definition is_ascii_space :: "code_point \<Rightarrow> bool" where
  [class_defs]: "is_ascii_space code_point \<longleftrightarrow> code_point = ord_of CHR '' '' \<or> code_point = 0x09
     \<or> code_point = 0x0A \<or> code_point = 0x0B \<or> code_point = 0x0C \<or> code_point = 0x0D"

definition is_ascii_punctuation :: "code_point \<Rightarrow> bool" where
  [class_defs]: "is_ascii_punctuation code_point \<longleftrightarrow>
     (code_point \<ge> 0x21 \<and> code_point \<le> 0x2F) \<or> (code_point \<ge> 0x3A \<and> code_point \<le> 0x40)
     \<or> (code_point \<ge> 0x5B \<and> code_point \<le> 0x60) \<or> (code_point \<ge> 0x7B \<and> code_point \<le> 0x7E)"

definition is_ascii_graphical :: "code_point \<Rightarrow> bool" where
  [class_defs]: "is_ascii_graphical code_point \<longleftrightarrow> code_point \<ge> 0x21 \<and> code_point \<le> 0x7E"

definition is_ascii_printable :: "code_point \<Rightarrow> bool" where
  [class_defs]: "is_ascii_printable code_point \<longleftrightarrow> code_point \<ge> 0x20 \<and> code_point \<le> 0x7E"

definition is_ascii_c0_control :: "code_point \<Rightarrow> bool" where
  [class_defs]: "is_ascii_c0_control code_point \<longleftrightarrow> code_point < 0x20"

definition is_ascii_c0_control_or_space :: "code_point \<Rightarrow> bool" where
  [class_defs]: "is_ascii_c0_control_or_space code_point \<longleftrightarrow> code_point \<le> 0x20"

definition is_ascii_control :: "code_point \<Rightarrow> bool" where
  [class_defs]: "is_ascii_control code_point \<longleftrightarrow> is_ascii_c0_control code_point \<or> code_point = 0x7F"

definition is_unicode :: "code_point \<Rightarrow> bool" where
  [class_defs]: "is_unicode code_point \<longleftrightarrow> code_point \<le> 0x10FFFF"

definition is_unicode_control :: "code_point \<Rightarrow> bool" where
  [class_defs]: "is_unicode_control code_point \<longleftrightarrow> is_ascii_c0_control code_point
     \<or> (code_point \<ge> 0x7E \<and> code_point \<le> 0x9F)"

definition is_unicode_surrogate :: "code_point \<Rightarrow> bool" where
  [class_defs]: "is_unicode_surrogate code_point \<longleftrightarrow> code_point \<ge> 0xD800 \<and> code_point \<le> 0xDFFF"

definition is_unicode_scalar_value :: "code_point \<Rightarrow> bool" where
  [class_defs]: "is_unicode_scalar_value code_point \<longleftrightarrow>
     is_unicode code_point \<and> \<not> is_unicode_surrogate code_point"

definition is_unicode_noncharacter :: "code_point \<Rightarrow> bool" where
  [class_defs]: "is_unicode_noncharacter code_point \<longleftrightarrow> is_unicode code_point \<and>
     ((code_point \<ge> 0xFDD0 \<and> code_point \<le> 0xFDEF) \<or> (code_point AND 0xFFFE) = 0xFFFE
      \<or> (code_point AND 0xFFFF) = 0xFFFF)"

definition to_ascii_lowercase :: "code_point \<Rightarrow> code_point" where
  "to_ascii_lowercase code_point =
     (if is_ascii_upper_alpha code_point then code_point + 0x20 else code_point)"

definition to_ascii_uppercase :: "code_point \<Rightarrow> code_point" where
  "to_ascii_uppercase code_point =
     (if is_ascii_lower_alpha code_point then code_point - 0x20 else code_point)"

definition parse_ascii_digit :: "code_point \<Rightarrow> nat option" where
  "parse_ascii_digit code_point =
     (if is_ascii_digit code_point then Some (code_point - ord_of CHR ''0'') else None)"

definition parse_ascii_hex_digit :: "code_point \<Rightarrow> nat option" where
  "parse_ascii_hex_digit code_point =
     (if is_ascii_digit code_point then parse_ascii_digit code_point
      else if ord_of CHR ''A'' \<le> code_point \<and> code_point \<le> ord_of CHR ''F''
        then Some (code_point - ord_of CHR ''A'' + 10)
      else if ord_of CHR ''a'' \<le> code_point \<and> code_point \<le> ord_of CHR ''f''
        then Some (code_point - ord_of CHR ''a'' + 10)
      else None)"

definition parse_ascii_base36_digit :: "code_point \<Rightarrow> nat option" where
  "parse_ascii_base36_digit code_point =
     (if is_ascii_digit code_point then parse_ascii_digit code_point
      else if ord_of CHR ''A'' \<le> code_point \<and> code_point \<le> ord_of CHR ''Z''
        then Some (code_point - ord_of CHR ''A'' + 10)
      else if ord_of CHR ''a'' \<le> code_point \<and> code_point \<le> ord_of CHR ''z''
        then Some (code_point - ord_of CHR ''a'' + 10)
      else None)"

definition base36_map :: string where
  "base36_map = ''0123456789abcdefghijklmnopqrstuvwxyz''"

definition to_ascii_base36_digit :: "nat \<Rightarrow> code_point option" where
  "to_ascii_base36_digit digit =
     (if digit < length base36_map then Some (ord_of (base36_map ! digit)) else None)"

text \<open>The conversions applied to a byte of a string.\<close>

definition byte_to_lowercase :: "char \<Rightarrow> char" where
  "byte_to_lowercase c = char_of (to_ascii_lowercase (ord_of c))"

definition byte_to_uppercase :: "char \<Rightarrow> char" where
  "byte_to_uppercase c = char_of (to_ascii_uppercase (ord_of c))"

subsection \<open>Facts\<close>

lemma parse_ascii_digit_Some:
  "is_ascii_digit c \<Longrightarrow> parse_ascii_digit c = Some (c - 48)"
  by (simp add: parse_ascii_digit_def)

lemma parse_ascii_hex_digit_defined:
  "is_ascii_hex_digit c \<longleftrightarrow> parse_ascii_hex_digit c \<noteq> None"
  by (auto simp: parse_ascii_hex_digit_def parse_ascii_digit_def class_defs)

lemma parse_ascii_hex_digit_less:
  "parse_ascii_hex_digit c = Some d \<Longrightarrow> d < 16"
  by (auto simp: parse_ascii_hex_digit_def parse_ascii_digit_def class_defs split: if_splits)

lemma to_ascii_lowercase_less: "c < 256 \<Longrightarrow> to_ascii_lowercase c < 256"
  by (simp add: to_ascii_lowercase_def class_defs)

lemma to_ascii_uppercase_less: "c < 256 \<Longrightarrow> to_ascii_uppercase c < 256"
  by (auto simp: to_ascii_uppercase_def class_defs)

lemma ord_byte_to_lowercase [simp]:
  "ord_of (byte_to_lowercase c) = to_ascii_lowercase (ord_of c)"
  by (simp add: byte_to_lowercase_def to_ascii_lowercase_less)

lemma to_ascii_lowercase_idem [simp]:
  "to_ascii_lowercase (to_ascii_lowercase c) = to_ascii_lowercase c"
  by (simp add: to_ascii_lowercase_def class_defs)

lemma byte_to_lowercase_idem [simp]: "byte_to_lowercase (byte_to_lowercase c) = byte_to_lowercase c"
  by (simp add: char_eq_iff_ord del: of_char_eq_iff)

lemma to_ascii_lowercase_not_upper [simp]: "\<not> is_ascii_upper_alpha (to_ascii_lowercase c)"
  by (simp add: to_ascii_lowercase_def class_defs)

lemma byte_to_lowercase_id: "\<not> is_ascii_upper_alpha (ord_of c) \<Longrightarrow> byte_to_lowercase c = c"
  by (simp add: byte_to_lowercase_def to_ascii_lowercase_def)

lemma base36_digit_roundtrip:
  "d < 36 \<Longrightarrow> \<exists>c. to_ascii_base36_digit d = Some c \<and> parse_ascii_base36_digit c = Some d"
proof -
  assume "d < 36"
  then have "d \<in> set [0..<36]" by simp
  moreover have "\<forall>d\<in>set [0..<36]. \<exists>c. to_ascii_base36_digit d = Some c \<and> parse_ascii_base36_digit c = Some d"
    by (simp add: to_ascii_base36_digit_def base36_map_def parse_ascii_base36_digit_def
        parse_ascii_digit_def class_defs upt_rec)
  ultimately show ?thesis by blast
qed

end
