(* ===== verification/MemMem.thy ===== *)
theory MemMem
  imports Prelude "HOL-Library.Sublist"
begin

text \<open>
  The substring search of \<^verbatim>\<open>AK/MemMem.h\<close>: the bit-parallel search that is used for needles
  of less than 32 bytes, the Knuth-Morris-Pratt search that is used for longer ones, and
  \<^verbatim>\<open>memmem_optional\<close>, which chooses between them.

  The KMP loops follow a table of indices whose entries they trust to get smaller, so they are
  partial functions into \<^typ>\<open>'a option\<close> here, where \<^const>\<open>None\<close> is a loop that does not end
  (or an index below zero that would be read); the theorem about \<open>memmem_optional\<close> shows that
  they do end.
\<close>

subsection \<open>Reference: the first occurrence\<close>

fun first_occurrence :: "bytes \<Rightarrow> bytes \<Rightarrow> nat option" where
  "first_occurrence needle [] = (if needle = [] then Some 0 else None)"
| "first_occurrence needle (c # cs) =
     (if prefix needle (c # cs) then Some 0 else map_option Suc (first_occurrence needle cs))"

subsection \<open>The bit-parallel search\<close>

fun needle_masks :: "nat \<Rightarrow> bytes \<Rightarrow> (char \<Rightarrow> u32) \<Rightarrow> (char \<Rightarrow> u32)" where
  "needle_masks i [] needle_mask = needle_mask"
| "needle_masks i (c # cs) needle_mask =
     needle_masks (Suc i) cs (needle_mask(c := needle_mask c AND NOT (push_bit i 1)))"

fun bitap_loop :: "(char \<Rightarrow> u32) \<Rightarrow> nat \<Rightarrow> nat \<Rightarrow> bytes \<Rightarrow> u32 \<Rightarrow> nat option" where
  "bitap_loop needle_mask needle_length i [] lookup = None"
| "bitap_loop needle_mask needle_length i (c # cs) lookup =
     (let lookup = push_bit 1 (lookup OR needle_mask c) in
      if lookup AND push_bit needle_length 1 = 0 then Some (i + 1 - needle_length)
      else bitap_loop needle_mask needle_length (Suc i) cs lookup)"

definition bitap_bitwise :: "bytes \<Rightarrow> bytes \<Rightarrow> nat option option" where
  "bitap_bitwise haystack needle =
     (if length needle < 32
      then Some (bitap_loop (needle_masks 0 needle (\<lambda>_. 0xffffffff)) (length needle) 0 haystack 0xfffffffe)
      else None)"

subsection \<open>Knuth-Morris-Pratt\<close>

partial_function (option) kmp_back :: "bytes \<Rightarrow> int list \<Rightarrow> nat \<Rightarrow> int \<Rightarrow> int option" where
  "kmp_back needle table position candidate =
     (if candidate < 0 then None
      else let candidate = table ! nat candidate in
        if candidate \<ge> 0 \<and> needle ! nat candidate \<noteq> needle ! position
        then kmp_back needle table position candidate
        else Some candidate)"

partial_function (option) kmp_fill :: "bytes \<Rightarrow> int list \<Rightarrow> nat \<Rightarrow> int \<Rightarrow> int list option" where
  "kmp_fill needle table position candidate =
     (if position < length needle then
        if candidate < 0 then None
        else if needle ! position = needle ! nat candidate
        then kmp_fill needle (table[position := table ! nat candidate]) (position + 1) (candidate + 1)
        else Option.bind (kmp_back needle (table[position := candidate]) position candidate)
               (\<lambda>candidate'. kmp_fill needle (table[position := candidate]) (position + 1) (candidate' + 1))
      else Some table)"

definition prepare_kmp_partial_table :: "bytes \<Rightarrow> int list option" where
  "prepare_kmp_partial_table needle =
     kmp_fill needle ((replicate (length needle) 0)[0 := -1]) 1 0"

partial_function (option) kmp_search :: "bytes \<Rightarrow> int list \<Rightarrow> bytes \<Rightarrow> nat \<Rightarrow> int \<Rightarrow> nat option option" where
  "kmp_search needle table haystack total_haystack_index needle_index =
     (case haystack of
        [] \<Rightarrow> Some None
      | c # cs \<Rightarrow>
          if needle_index < 0 then None
          else if needle ! nat needle_index = c then
            if nat (needle_index + 1) = length needle
            then Some (Some (total_haystack_index + 1 - nat (needle_index + 1)))
            else kmp_search needle table cs (total_haystack_index + 1) (needle_index + 1)
          else
            let needle_index = table ! nat needle_index in
            if needle_index < 0
            then kmp_search needle table cs (total_haystack_index + 1) (needle_index + 1)
            else kmp_search needle table haystack total_haystack_index needle_index)"

definition memmem_kmp :: "bytes \<Rightarrow> bytes \<Rightarrow> nat option option" where
  "memmem_kmp haystack needle =
     Option.bind (prepare_kmp_partial_table needle) (\<lambda>table. kmp_search needle table haystack 0 0)"

declare kmp_back.simps [code] kmp_fill.simps [code] kmp_search.simps [code]

definition memmem_optional :: "bytes \<Rightarrow> bytes \<Rightarrow> nat option option" where
  "memmem_optional haystack needle =
     (if length needle = 0 then Some (Some 0)
      else if length haystack < length needle then Some None
      else if length haystack = length needle then Some (if haystack = needle then Some 0 else None)
      else if length needle < 32 then bitap_bitwise haystack needle
      else memmem_kmp haystack needle)"

subsection \<open>First occurrences by their end\<close>

lemma first_occurrence_Some:
  "first_occurrence needle h = Some i \<longleftrightarrow>
     i \<le> length h \<and> prefix needle (drop i h) \<and> (\<forall>j<i. \<not> prefix needle (drop j h))"
proof (induction h arbitrary: i)
  case Nil
  then show ?case by auto
next
  case (Cons c cs)
  show ?case
  proof (cases i)
    case 0
    then show ?thesis by auto
  next
    case (Suc k)
    then show ?thesis
      by (auto simp: Cons.IH All_less_Suc2 split: if_splits)
  qed
qed

lemma first_occurrence_None:
  "first_occurrence needle h = None \<longleftrightarrow> (\<forall>i\<le>length h. \<not> prefix needle (drop i h))"
proof (induction h)
  case Nil
  then show ?case by simp
next
  case (Cons c cs)
  then show ?case by (auto simp: All_less_Suc2 simp flip: less_Suc_eq_le)
qed

lemma suffix_take_iff_prefix_drop:
  assumes "e \<le> length h"
  shows "suffix n (take e h) \<longleftrightarrow> length n \<le> e \<and> prefix n (drop (e - length n) h)"
proof
  assume "suffix n (take e h)"
  then obtain p where p: "take e h = p @ n" by (auto simp: suffix_def)
  then have e: "e = length p + length n" using assms by (metis length_append length_take min_absorb2)
  have "h = p @ n @ drop e h" using p by (metis append.assoc append_take_drop_id)
  then have "drop (length p) h = n @ drop e h" by (metis append_eq_conv_conj)
  then show "length n \<le> e \<and> prefix n (drop (e - length n) h)"
    using e by (auto simp: prefix_def)
next
  assume a: "length n \<le> e \<and> prefix n (drop (e - length n) h)"
  then obtain q where "drop (e - length n) h = n @ q" by (auto simp: prefix_def)
  then have "take e h = take (e - length n) h @ n"
    using a by (metis append_eq_conv_conj le_add_diff_inverse2 take_add)
  then show "suffix n (take e h)" by (auto simp: suffix_def)
qed

lemma first_occurrence_by_end:
  assumes "e \<le> length h" "suffix n (take e h)" "\<And>e'. e' < e \<Longrightarrow> \<not> suffix n (take e' h)"
  shows "first_occurrence n h = Some (e - length n)"
proof -
  have n: "length n \<le> e" "prefix n (drop (e - length n) h)"
    using assms by (auto simp: suffix_take_iff_prefix_drop)
  have "\<not> prefix n (drop j h)" if "j < e - length n" for j
  proof
    assume "prefix n (drop j h)"
    then have "suffix n (take (j + length n) h)"
      using that assms(1) by (subst suffix_take_iff_prefix_drop) auto
    then show False using assms(3) [of "j + length n"] that by simp
  qed
  then show ?thesis using n assms(1) by (simp add: first_occurrence_Some)
qed

lemma first_occurrence_no_end:
  assumes "\<And>e. e \<le> length h \<Longrightarrow> \<not> suffix n (take e h)"
  shows "first_occurrence n h = None"
proof -
  have "\<not> prefix n (drop i h)" if "i \<le> length h" for i
  proof
    assume p: "prefix n (drop i h)"
    then have "length n \<le> length h - i" using prefix_length_le by fastforce
    then have "suffix n (take (i + length n) h)"
      using p that by (subst suffix_take_iff_prefix_drop) auto
    then show False using assms [of "i + length n"] \<open>length n \<le> length h - i\<close> that by simp
  qed
  then show ?thesis by (simp add: first_occurrence_None)
qed

subsection \<open>The bit-parallel search finds the first occurrence\<close>

text \<open>
  Bit \<open>j\<close> of the lookup word is clear exactly when the first \<open>j\<close> bytes of the needle are the
  last bytes read.
\<close>

lemma bit_needle_masks:
  assumes "i + length cs < 32"
  shows "bit (needle_masks i cs m c) j \<longleftrightarrow>
    bit (m c) j \<and> \<not> (i \<le> j \<and> j < i + length cs \<and> cs ! (j - i) = c)"
  using assms
proof (induction i cs m rule: needle_masks.induct)
  case (1 i m)
  then show ?case by simp
next
  case (2 i d cs m)
  note IH = "2.IH" [unfolded fun_upd_apply]
  have bit: "bit (m d AND NOT (push_bit i 1)) j \<longleftrightarrow> bit (m d) j \<and> j \<noteq> i"
    using "2.prems" by (auto simp: bit_simps dest: bit_imp_le_length)
  have len: "Suc i + length cs < 32" using "2.prems" by simp
  show ?case
    by (subst needle_masks.simps, subst "2.IH" [OF len])
      (auto simp: bit nth_Cons' Suc_le_eq simp del: push_bit_of_1)
qed

lemma bit_shift_left_1: "bit (push_bit 1 (w::u32)) j \<longleftrightarrow> 0 < j \<and> j < 32 \<and> bit w (j - 1)"
  by (auto simp only: bit_push_bit_iff possible_bit_word) auto

lemma bit_all_ones: "bit (0xffffffff::u32) j \<longleftrightarrow> j < 32"
proof -
  have "(0xffffffff::u32) = - 1" by simp
  then show ?thesis by (simp only: bit_minus_1_iff possible_bit_word) simp
qed

lemma bit_initial_lookup: "bit (0xfffffffe::u32) j \<longleftrightarrow> 0 < j \<and> j < 32"
proof -
  have "(0xfffffffe::u32) = NOT 1" by simp
  then show ?thesis by (simp only: bit_not_iff possible_bit_word bit_1_iff) auto
qed

definition bitap_inv :: "bytes \<Rightarrow> bytes \<Rightarrow> u32 \<Rightarrow> bool" where
  "bitap_inv needle p lookup \<longleftrightarrow>
     (\<forall>j\<le>length needle. \<not> bit lookup j \<longleftrightarrow> suffix (take j needle) p)"

lemma bitap_inv_start: "length needle < 32 \<Longrightarrow> bitap_inv needle [] 0xfffffffe"
  by (auto simp only: bitap_inv_def bit_initial_lookup) auto

lemma suffix_snoc_take:
  "j < length n \<Longrightarrow> suffix (take (Suc j) n) (p @ [c]) \<longleftrightarrow> n ! j = c \<and> suffix (take j n) p"
  by (subst take_Suc_conv_app_nth) auto

lemma bitap_inv_step:
  assumes len: "length needle < 32" and inv: "bitap_inv needle p lookup"
    and m: "m = needle_masks 0 needle (\<lambda>_. 0xffffffff)"
  shows "bitap_inv needle (p @ [c]) (push_bit 1 (lookup OR m c))"
  supply suffix_snoc [simp del]
  unfolding bitap_inv_def
proof (intro allI impI)
  fix j assume j: "j \<le> length needle"
  show "\<not> bit (push_bit 1 (lookup OR m c)) j \<longleftrightarrow> suffix (take j needle) (p @ [c])"
  proof (cases j)
    case 0
    then show ?thesis by (simp only: bit_shift_left_1) simp
  next
    case (Suc k)
    have "bit (0xffffffff::u32) k" using Suc j len by (simp only: bit_all_ones)
    then have "bit (m c) k \<longleftrightarrow> needle ! k \<noteq> c"
      using Suc len j unfolding m by (subst bit_needle_masks) simp_all
    moreover have "\<not> bit lookup k \<longleftrightarrow> suffix (take k needle) p"
      using inv Suc j by (simp add: bitap_inv_def)
    moreover have "suffix (take (Suc k) needle) (p @ [c])
        \<longleftrightarrow> needle ! k = c \<and> suffix (take k needle) p"
      using Suc j by (intro suffix_snoc_take) simp
    ultimately show ?thesis using Suc j len
      by (simp only: bit_shift_left_1 bit_or_iff diff_Suc_1) auto
  qed
qed

lemma test_bit_zero: "n < 32 \<Longrightarrow> (w::u32) AND push_bit n 1 = 0 \<longleftrightarrow> \<not> bit w n"
  by (simp only: bit_iff_and_push_bit_not_eq_0) simp

lemma bitap_loop_correct:
  assumes "bitap_inv needle p lookup" and len: "length needle < 32" and ne: "needle \<noteq> []"
    and m: "m = needle_masks 0 needle (\<lambda>_. 0xffffffff)"
    and "\<And>e. e \<le> length p \<Longrightarrow> \<not> suffix needle (take e (p @ h))"
  shows "bitap_loop m (length needle) (length p) h lookup = first_occurrence needle (p @ h)"
  using assms(1,5)
proof (induction h arbitrary: p lookup)
  case Nil
  then show ?case by (simp add: first_occurrence_no_end)
next
  case (Cons c cs)
  let ?l = "push_bit 1 (lookup OR m c)"
  have inv: "bitap_inv needle (p @ [c]) ?l" using bitap_inv_step [OF len Cons.prems(1) m] .
  then have found: "?l AND push_bit (length needle) 1 = 0 \<longleftrightarrow> suffix needle (p @ [c])"
    by (simp only: test_bit_zero [OF len]) (simp add: bitap_inv_def)
  show ?case
  proof (cases "suffix needle (p @ [c])")
    case True
    then have "first_occurrence needle (p @ c # cs) = Some (Suc (length p) - length needle)"
      using Cons.prems(2) by (intro first_occurrence_by_end) (auto simp: less_Suc_eq_le)
    then show ?thesis using True found by (simp only: bitap_loop.simps Let_def) simp
  next
    case False
    have "\<not> suffix needle (take e (p @ c # cs))" if "e \<le> Suc (length p)" for e
      using Cons.prems(2) [of e] False that by (cases "e = Suc (length p)") auto
    then have "bitap_loop m (length needle) (length (p @ [c])) cs ?l
       = first_occurrence needle ((p @ [c]) @ cs)"
      using Cons.IH [OF inv] by simp
    then show ?thesis using False found by (simp only: bitap_loop.simps Let_def) simp
  qed
qed

lemma bitap_bitwise_correct:
  assumes "length needle < 32" "needle \<noteq> []"
  shows "bitap_bitwise haystack needle = Some (first_occurrence needle haystack)"
  using bitap_loop_correct [OF bitap_inv_start assms refl, of haystack] assms
  by (simp add: bitap_bitwise_def)

subsection \<open>The KMP search finds the first occurrence\<close>

text \<open>
  A table entry is the longest border after which the needle continues differently, or -1.
\<close>

definition border :: "bytes \<Rightarrow> nat \<Rightarrow> nat \<Rightarrow> bool" where
  "border n k j \<longleftrightarrow> k < j \<and> j \<le> length n \<and> suffix (take k n) (take j n)"

definition strong_border :: "bytes \<Rightarrow> nat \<Rightarrow> nat \<Rightarrow> bool" where
  "strong_border n k j \<longleftrightarrow> border n k j \<and> n ! k \<noteq> n ! j"

definition greatest_or_minus1 :: "(nat \<Rightarrow> bool) \<Rightarrow> int \<Rightarrow> bool" where
  "greatest_or_minus1 P r \<longleftrightarrow> (r = -1 \<and> (\<forall>k. \<not> P k)) \<or>
     (\<exists>k. r = int k \<and> P k \<and> (\<forall>l. P l \<longrightarrow> l \<le> k))"

abbreviation table_entry :: "bytes \<Rightarrow> nat \<Rightarrow> int \<Rightarrow> bool" where
  "table_entry n j t \<equiv> greatest_or_minus1 (\<lambda>k. strong_border n k j) t"

abbreviation longest_border :: "bytes \<Rightarrow> nat \<Rightarrow> nat \<Rightarrow> bool" where
  "longest_border n j c \<equiv> border n c j \<and> (\<forall>l. border n l j \<longrightarrow> l \<le> c)"

lemma border_trans: "border n k j \<Longrightarrow> border n l k \<Longrightarrow> border n l j"
  by (auto simp: border_def intro: suffix_order.trans)

lemma border_chain: "border n k j \<Longrightarrow> border n l j \<Longrightarrow> l < k \<Longrightarrow> border n l k"
  unfolding border_def by (auto intro: suffix_length_suffix)

lemma border_0: "0 < j \<Longrightarrow> j \<le> length n \<Longrightarrow> border n 0 j"
  by (simp add: border_def)

lemma border_Suc:
  "p < length n \<Longrightarrow> border n (Suc k) (Suc p) \<longleftrightarrow> border n k p \<and> n ! k = n ! p"
  unfolding border_def by (auto simp: take_Suc_conv_app_nth)

lemma greatest_Suc_border:
  assumes p: "p < length n" and r: "greatest_or_minus1 (\<lambda>k. border n k p \<and> n ! k = n ! p) r"
  shows "\<exists>c. r + 1 = int c \<and> longest_border n (Suc p) c"
proof -
  have *: "border n l (Suc p) \<longleftrightarrow> l = 0 \<or> (\<exists>k. l = Suc k \<and> border n k p \<and> n ! k = n ! p)" for l
    using p by (cases l) (auto simp: border_Suc border_0)
  show ?thesis
    using r by (auto simp: greatest_or_minus1_def * intro: exI [of _ 0] exI [of _ "Suc _"])
qed

lemma kmp_back_correct:
  assumes "\<And>j. j \<le> c \<Longrightarrow> table_entry n j (t ! j)"
    and "border n c p" "n ! c \<noteq> n ! p" "\<And>l. border n l p \<Longrightarrow> c < l \<Longrightarrow> n ! l \<noteq> n ! p"
  shows "\<exists>r. kmp_back n t p (int c) = Some r
    \<and> greatest_or_minus1 (\<lambda>k. border n k p \<and> n ! k = n ! p) r"
  using assms
proof (induction c rule: less_induct)
  case (less c)
  have skip: "n ! l \<noteq> n ! p" if "border n l p" "\<not> strong_border n l c" "l < c" for l
    using border_chain [OF less.prems(2) that(1,3)] that(2) less.prems(3)
    by (simp add: strong_border_def)
  from less.prems(1) [of c] consider (none) "t ! c = -1" "\<And>k. \<not> strong_border n k c"
    | (some) k where "t ! c = int k" "strong_border n k c" "\<And>l. strong_border n l c \<Longrightarrow> l \<le> k"
    by (auto simp: greatest_or_minus1_def)
  then show ?case
  proof cases
    case none
    have "n ! l \<noteq> n ! p" if "border n l p" for l
      using skip [OF that none(2)] less.prems(3) less.prems(4) [OF that]
      by (cases l c rule: linorder_cases) auto
    then show ?thesis using none(1)
      by (subst kmp_back.simps) (auto simp: greatest_or_minus1_def)
  next
    case some
    then have kc: "k < c" "border n k p"
      using border_trans [OF less.prems(2)] by (auto simp: strong_border_def border_def)
    have above: "n ! l \<noteq> n ! p" if "border n l p" "k < l" for l
      using skip [OF that(1)] some(3) [of l] less.prems(3) less.prems(4) [OF that(1)] that(2)
      by (cases l c rule: linorder_cases) auto
    show ?thesis
    proof (cases "n ! k = n ! p")
      case True
      then show ?thesis using some(1) kc above
        by (subst kmp_back.simps) (auto simp: greatest_or_minus1_def not_less intro!: leI)
    next
      case False
      then show ?thesis
        using less.IH [OF kc(1) _ kc(2) False] less.prems(1) above kc(1) some(1)
        by (subst kmp_back.simps) auto
    qed
  qed
qed

lemma table_entry_same:
  assumes "p < length n" "longest_border n p c" "n ! p = n ! c" "table_entry n c t"
  shows "table_entry n p t"
proof -
  have "strong_border n k p \<longleftrightarrow> strong_border n k c" for k
  proof (cases "k < c")
    case True
    then show ?thesis
      using assms(2,3) border_chain [of n c p k] border_trans [of n c p k]
      by (auto simp: strong_border_def)
  next
    case False
    then show ?thesis
      using assms(2,3) by (auto simp: strong_border_def border_def nat_less_le)
  qed
  then show ?thesis using assms(4) by simp
qed

lemma table_entry_other:
  assumes "longest_border n p c" "n ! p \<noteq> n ! c"
  shows "table_entry n p (int c)"
  using assms by (auto simp: greatest_or_minus1_def strong_border_def)

lemma kmp_fill_correct:
  assumes "p \<le> length n" "0 < p" "length t = length n" "longest_border n p c"
    and "\<And>j. j < p \<Longrightarrow> table_entry n j (t ! j)"
  shows "\<exists>t'. kmp_fill n t p (int c) = Some t' \<and> (\<forall>j<length n. table_entry n j (t' ! j))"
  using assms
proof (induction "length n - p" arbitrary: p c t)
  case 0
  then show ?case by (subst kmp_fill.simps) simp
next
  case (Suc x)
  then have p: "p < length n" by simp
  have c: "c < p" using Suc.prems(4) by (simp add: border_def)
  show ?case
  proof (cases "n ! p = n ! c")
    case True
    let ?t = "t[p := t ! c]"
    obtain d where "int c + 1 = int d" "longest_border n (Suc p) d"
      using greatest_Suc_border [OF p, of "int c"] True Suc.prems(4)
      by (auto simp: greatest_or_minus1_def)
    moreover from this(1) have "d = Suc c" by simp
    ultimately have "longest_border n (Suc p) (Suc c)" by simp
    moreover have "table_entry n j (?t ! j)" if "j < Suc p" for j
      using table_entry_same [OF p Suc.prems(4) True Suc.prems(5) [OF c]] Suc.prems(3,5) p that
      by (cases "j = p") auto
    ultimately have "\<exists>t'. kmp_fill n ?t (Suc p) (int (Suc c)) = Some t'
        \<and> (\<forall>j<length n. table_entry n j (t' ! j))"
      using Suc.hyps Suc.prems(3) p by (intro Suc.hyps(1)) auto
    then show ?thesis using True p by (subst kmp_fill.simps) (simp add: add.commute)
  next
    case False
    let ?t = "t[p := int c]"
    have t: "table_entry n j (?t ! j)" if "j < Suc p" for j
      using table_entry_other [OF Suc.prems(4) False] Suc.prems(3,5) p that
      by (cases "j = p") auto
    have "\<exists>r. kmp_back n ?t p (int c) = Some r
        \<and> greatest_or_minus1 (\<lambda>k. border n k p \<and> n ! k = n ! p) r"
      using t c False Suc.prems(4,5) by (intro kmp_back_correct) (auto dest: leD)
    then obtain r where r: "kmp_back n ?t p (int c) = Some r"
      "greatest_or_minus1 (\<lambda>k. border n k p \<and> n ! k = n ! p) r"
      by blast
    then obtain d where d: "r + 1 = int d" "longest_border n (Suc p) d"
      using greatest_Suc_border [OF p] by blast
    then have "\<exists>t'. kmp_fill n ?t (Suc p) (int d) = Some t'
        \<and> (\<forall>j<length n. table_entry n j (t' ! j))"
      using Suc.hyps Suc.prems(3) p t by (intro Suc.hyps(1)) auto
    then show ?thesis using False p r(1) d(1) by (subst kmp_fill.simps) simp
  qed
qed

lemma prepare_kmp_partial_table_correct:
  assumes "needle \<noteq> []"
  shows "\<exists>t. prepare_kmp_partial_table needle = Some t
    \<and> (\<forall>j<length needle. table_entry needle j (t ! j))"
proof -
  have "\<exists>t'. kmp_fill needle ((replicate (length needle) 0)[0 := -1]) 1 (int 0) = Some t'
     \<and> (\<forall>j<length needle. table_entry needle j (t' ! j))"
    using assms
    by (intro kmp_fill_correct)
      (auto simp: Suc_le_eq border_def greatest_or_minus1_def strong_border_def)
  then show ?thesis by (simp add: prepare_kmp_partial_table_def)
qed

definition kmp_inv :: "bytes \<Rightarrow> bytes \<Rightarrow> bytes \<Rightarrow> nat \<Rightarrow> bool" where
  "kmp_inv n p rest j \<longleftrightarrow> j < length n \<and> suffix (take j n) p
     \<and> (\<forall>k. j < k \<and> k \<le> length n \<and> suffix (take k n) p \<longrightarrow>
          k < length n \<and> (\<forall>c cs. rest = c # cs \<longrightarrow> n ! k \<noteq> c))
     \<and> (\<forall>e\<le>length p. \<not> suffix n (take e (p @ rest)))"

lemma kmp_inv_longer:
  assumes "kmp_inv n p (c # cs) j" "k \<le> length n" "suffix (take k n) (p @ [c])" "0 < k"
  shows "k \<le> Suc j"
proof (rule ccontr)
  assume k: "\<not> k \<le> Suc j"
  then obtain l where l: "k = Suc l" "j < l" by (cases k) auto
  then have "n ! l = c" "suffix (take l n) p"
    using assms(2,3) suffix_snoc_take [of l n p c] by auto
  then show False using assms(1,2) l by (auto simp: kmp_inv_def)
qed

lemma kmp_search_correct:
  assumes t: "\<And>j. j < length n \<Longrightarrow> table_entry n j (t ! j)"
    and "kmp_inv n p h j"
  shows "kmp_search n t h (length p) (int j) = Some (first_occurrence n (p @ h))"
  using assms(2)
proof (induction "2 * length h + j" arbitrary: p h j rule: less_induct)
  case less
  show ?case
  proof (cases h)
    case Nil
    then show ?thesis using less.prems
      by (subst kmp_search.simps) (simp add: kmp_inv_def first_occurrence_no_end)
  next
    case (Cons c cs)
    have inv: "kmp_inv n p (c # cs) j" and j: "j < length n" "suffix (take j n) p"
      using less.prems Cons by (auto simp: kmp_inv_def)
    have ends: "\<not> suffix n (take e (p @ c # cs))" if "e \<le> length p" for e
      using inv that by (auto simp: kmp_inv_def)
    have next_inv: "kmp_inv n (p @ [c]) cs i"
      if "i < length n" "suffix (take i n) (p @ [c])"
        "\<And>k. i < k \<Longrightarrow> k \<le> length n \<Longrightarrow> suffix (take k n) (p @ [c]) \<Longrightarrow> False" for i
    proof -
      have "\<not> suffix n (take e ((p @ [c]) @ cs))" if "e \<le> Suc (length p)" for e
        using ends [of e] that(1) \<open>i < length n\<close>
          \<open>\<And>k. i < k \<Longrightarrow> k \<le> length n \<Longrightarrow> suffix (take k n) (p @ [c]) \<Longrightarrow> False\<close> [of "length n"]
        by (cases "e = Suc (length p)") auto
      then show ?thesis using that by (auto simp: kmp_inv_def)
    qed
    show ?thesis
    proof (cases "n ! j = c")
      case True
      then have suf: "suffix (take (Suc j) n) (p @ [c])"
        using suffix_snoc_take [OF j(1)] j(2) by simp
      show ?thesis
      proof (cases "Suc j = length n")
        case end_reached: True
        have "first_occurrence n (p @ c # cs) = Some (Suc (length p) - length n)"
          using ends suf end_reached by (intro first_occurrence_by_end) (auto simp: less_Suc_eq_le)
        then show ?thesis using Cons True end_reached
          by (subst kmp_search.simps) (simp add: nat_add_distrib)
      next
        case False
        have "kmp_inv n (p @ [c]) cs (Suc j)"
          using False j(1) suf kmp_inv_longer [OF inv] by (intro next_inv) fastforce+
        then have "kmp_search n t cs (length (p @ [c])) (int (Suc j))
            = Some (first_occurrence n ((p @ [c]) @ cs))"
          using Cons by (intro less.hyps) auto
        then show ?thesis using Cons True False
          by (subst kmp_search.simps) (simp add: nat_add_distrib add.commute)
      qed
    next
      case False
      have strong: "strong_border n l j" if "suffix (take l n) p" "n ! l = c" "l < j" for l
        using that j False suffix_length_suffix [OF that(1) j(2)]
        by (simp add: strong_border_def border_def)
      from t [OF j(1)] consider (none) "t ! j = -1" "\<And>k. \<not> strong_border n k j"
        | (some) i where "t ! j = int i" "strong_border n i j" "\<And>l. strong_border n l j \<Longrightarrow> l \<le> i"
        by (auto simp: greatest_or_minus1_def)
      then show ?thesis
      proof cases
        case none
        have no_longer: False if k: "0 < k" "k \<le> length n" "suffix (take k n) (p @ [c])" for k
        proof -
          obtain l where l: "k = Suc l" using k(1) by (cases k) auto
          then have "n ! l = c" "suffix (take l n) p" "l \<le> j"
            using k suffix_snoc_take [of l n p c] kmp_inv_longer [OF inv k(2,3,1)] by auto
          then show False using strong [of l] none(2) False by (cases "l = j") auto
        qed
        have "kmp_inv n (p @ [c]) cs 0"
          using j(1) no_longer by (intro next_inv) auto
        then have "kmp_search n t cs (length (p @ [c])) (int 0)
            = Some (first_occurrence n ((p @ [c]) @ cs))"
          using Cons by (intro less.hyps) auto
        then show ?thesis using Cons False none(1) by (subst kmp_search.simps) simp
      next
        case some
        have ij: "i < j" using some(2) by (simp add: strong_border_def border_def)
        have "suffix (take i n) p"
          using some(2) j(2) by (auto simp: strong_border_def border_def intro: suffix_order.trans)
        moreover have "k < length n \<and> n ! k \<noteq> c" if "i < k" "k \<le> length n" "suffix (take k n) p" for k
          using that inv j(1) False strong [OF that(3)] some(3) [of k]
          by (cases k j rule: linorder_cases) (auto simp: kmp_inv_def)
        ultimately have "kmp_inv n p h i"
          using ij j(1) ends Cons by (auto simp: kmp_inv_def)
        then have "kmp_search n t h (length p) (int i) = Some (first_occurrence n (p @ h))"
          using ij by (intro less.hyps) auto
        then show ?thesis using Cons False some(1) by (subst kmp_search.simps) simp
      qed
    qed
  qed
qed

lemma memmem_kmp_correct:
  assumes "needle \<noteq> []"
  shows "memmem_kmp haystack needle = Some (first_occurrence needle haystack)"
proof -
  obtain t where "prepare_kmp_partial_table needle = Some t"
    "\<forall>j<length needle. table_entry needle j (t ! j)"
    using prepare_kmp_partial_table_correct [OF assms] by blast
  moreover have "kmp_inv needle [] haystack 0" using assms by (auto simp: kmp_inv_def)
  ultimately show ?thesis
    using kmp_search_correct [of needle t "[]" haystack 0] by (simp add: memmem_kmp_def)
qed

lemma first_occurrence_same_length:
  assumes "length haystack = length needle" "needle \<noteq> []"
  shows "first_occurrence needle haystack = (if haystack = needle then Some 0 else None)"
proof -
  have "prefix needle (drop i haystack) \<longleftrightarrow> i = 0 \<and> haystack = needle" if "i \<le> length haystack" for i
    using assms that by (cases i) (auto simp: prefix_def dest!: arg_cong [of _ _ length])
  then show ?thesis by (auto simp: first_occurrence_Some first_occurrence_None)
qed

subsection \<open>The choice between them\<close>

lemma memmem_optional_correct:
  "memmem_optional haystack needle = Some (first_occurrence needle haystack)"
proof -
  have "first_occurrence needle haystack = None" if "length haystack < length needle"
    using that prefix_length_le by (fastforce simp: first_occurrence_None)
  moreover have "first_occurrence needle haystack = (if haystack = needle then Some 0 else None)"
    if "length haystack = length needle" "needle \<noteq> []"
    using first_occurrence_same_length that by blast
  moreover have "first_occurrence [] haystack = Some 0" by (cases haystack) auto
  ultimately show ?thesis
    by (auto simp: memmem_optional_def bitap_bitwise_correct memmem_kmp_correct)
qed

text \<open>
  C1. \<^verbatim>\<open>memmem_optional\<close> ends on every haystack and needle, never fails its assertion, and
  returns the index of the first occurrence of the needle, or nothing when there is none;
  whichever of the bit-parallel search, the KMP search and the comparison it chooses.
\<close>

theorem memmem_optional_first_occurrence:
  "memmem_optional haystack needle = Some (first_occurrence needle haystack)
   \<and> (\<forall>i. first_occurrence needle haystack = Some i \<longleftrightarrow>
        i \<le> length haystack \<and> prefix needle (drop i haystack)
        \<and> \<not> (\<exists>j<i. prefix needle (drop j haystack)))"
  by (auto simp: memmem_optional_correct first_occurrence_Some)

end
