(* ===== verification/StringUtils.thy ===== *)
theory StringUtils
  imports CharacterTypes MemMem
begin

text \<open>
  The byte string functions of \<^verbatim>\<open>AK/StringUtils.cpp\<close> and the splitting functions of
  \<^verbatim>\<open>AK/StringView.h\<close> and \<^verbatim>\<open>AK/StringView.cpp\<close>.  A null view is read as an empty one.

  The integer conversions take the largest value of the C++ type they are instantiated with.
  A loop whose end depends on its argument is a partial function, and a failing \<^verbatim>\<open>VERIFY\<close> is
  \<^const>\<open>None\<close>; the lemmas say when neither happens.
\<close>

datatype case_sensitivity = CaseInsensitive | CaseSensitive
datatype replace_mode = ReplaceAll | FirstOnly
datatype trim_mode = TrimLeft | TrimRight | TrimBoth
datatype search_direction = Forward | Backward

record split_behavior =
  keep_empty :: bool
  keep_trailing_separator :: bool

definition Split_Nothing :: split_behavior where
  "Split_Nothing = \<lparr>keep_empty = False, keep_trailing_separator = False\<rparr>"

definition Split_KeepEmpty :: split_behavior where
  "Split_KeepEmpty = \<lparr>keep_empty = True, keep_trailing_separator = False\<rparr>"

subsection \<open>Comparisons\<close>

definition equals_ignoring_ascii_case :: "bytes \<Rightarrow> bytes \<Rightarrow> bool" where
  "equals_ignoring_ascii_case a b \<longleftrightarrow> length a = length b \<and>
     list_all2 (\<lambda>x y. to_ascii_lowercase (ord_of x) = to_ascii_lowercase (ord_of y)) a b"

definition ends_with :: "bytes \<Rightarrow> bytes \<Rightarrow> case_sensitivity \<Rightarrow> bool" where
  "ends_with str ending case_sensitivity =
     (if ending = [] then True
      else if str = [] then False
      else if length ending > length str then False
      else if case_sensitivity = CaseSensitive
        then drop (length str - length ending) str = ending
      else list_all2 (\<lambda>x y. to_ascii_lowercase (ord_of x) = to_ascii_lowercase (ord_of y))
             (drop (length str - length ending) str) ending)"

definition starts_with :: "bytes \<Rightarrow> bytes \<Rightarrow> case_sensitivity \<Rightarrow> bool" where
  "starts_with str start case_sensitivity =
     (if start = [] then True
      else if str = [] then False
      else if length start > length str then False
      else if case_sensitivity = CaseSensitive then take (length start) str = start
      else list_all2 (\<lambda>x y. to_ascii_lowercase (ord_of x) = to_ascii_lowercase (ord_of y))
             (take (length start) str) start)"

subsection \<open>Substrings\<close>

datatype ci_result = Found | Mismatch nat | Exhausted

function ci_match :: "bytes \<Rightarrow> bytes \<Rightarrow> nat \<Rightarrow> nat \<Rightarrow> ci_result" where
  "ci_match str needle si ni =
     (if si + ni < length str then
        if to_ascii_lowercase (ord_of (str ! (si + ni))) \<noteq> to_ascii_lowercase (ord_of (needle ! ni))
        then Mismatch (if ni > 0 then si + (ni - 1) else si)
        else if ni + 1 = length needle then Found
        else ci_match str needle si (ni + 1)
      else Exhausted)"
  by pat_completeness auto
termination
  by (relation "measure (\<lambda>(str, needle, si, ni). length str - (si + ni))") auto

declare ci_match.simps [simp del]

lemma ci_match_Mismatch_ge: "ci_match str needle si ni = Mismatch s \<Longrightarrow> si \<le> s"
  by (induction str needle si ni rule: ci_match.induct)
    (subst (asm) (2) ci_match.simps, auto split: if_splits)

function contains_ci :: "bytes \<Rightarrow> bytes \<Rightarrow> nat \<Rightarrow> bool" where
  "contains_ci str needle si =
     (if si < length str then
        if to_ascii_lowercase (ord_of (str ! si)) \<noteq> to_ascii_lowercase (ord_of (needle ! 0))
        then contains_ci str needle (si + 1)
        else (case ci_match str needle si 0 of
                Found \<Rightarrow> True
              | Mismatch si' \<Rightarrow> contains_ci str needle (si' + 1)
              | Exhausted \<Rightarrow> contains_ci str needle (si + 1))
      else False)"
  by pat_completeness auto
termination
  by (relation "measure (\<lambda>(str, needle, si). length str - si)")
    (auto dest: ci_match_Mismatch_ge)

declare contains_ci.simps [simp del]

definition contains :: "bytes \<Rightarrow> bytes \<Rightarrow> case_sensitivity \<Rightarrow> bool" where
  "contains str needle case_sensitivity =
     (if str = [] \<or> length needle > length str then False
      else if needle = [] then True
      else if case_sensitivity = CaseSensitive
        then (case memmem_optional str needle of Some (Some _) \<Rightarrow> True | _ \<Rightarrow> False)
      else contains_ci str needle 0)"

definition is_whitespace :: "bytes \<Rightarrow> bool" where
  "is_whitespace str \<longleftrightarrow> list_all (\<lambda>c. is_ascii_space (ord_of c)) str"

subsection \<open>Trimming\<close>

fun trim_left_loop :: "bytes \<Rightarrow> bytes \<Rightarrow> nat \<Rightarrow> nat \<Rightarrow> (nat \<times> nat) option" where
  "trim_left_loop characters [] substring_start substring_length = Some (substring_start, substring_length)"
| "trim_left_loop characters (c # cs) substring_start substring_length =
     (if substring_length = 0 then None
      else if c \<notin> set characters then Some (substring_start, substring_length)
      else trim_left_loop characters cs (substring_start + 1) (substring_length - 1))"

fun trim_right_loop :: "bytes \<Rightarrow> bytes \<Rightarrow> nat \<Rightarrow> nat option" where
  "trim_right_loop characters [] substring_length = Some substring_length"
| "trim_right_loop characters (c # cs) substring_length =
     (if substring_length = 0 then None
      else if c \<notin> set characters then Some substring_length
      else trim_right_loop characters cs (substring_length - 1))"

definition trim :: "bytes \<Rightarrow> bytes \<Rightarrow> trim_mode \<Rightarrow> bytes" where
  "trim str characters mode =
     (case (if mode = TrimLeft \<or> mode = TrimBoth then trim_left_loop characters str 0 (length str)
            else Some (0, length str)) of
        None \<Rightarrow> []
      | Some (substring_start, substring_length) \<Rightarrow>
          (case (if mode = TrimRight \<or> mode = TrimBoth
                 then trim_right_loop characters (rev str) substring_length
                 else Some substring_length) of
             None \<Rightarrow> []
           | Some substring_length \<Rightarrow> take substring_length (drop substring_start str)))"

definition trim_whitespace :: "bytes \<Rightarrow> trim_mode \<Rightarrow> bytes" where
  "trim_whitespace str mode =
     trim str [CHR '' '', CHR 0x0A, CHR 0x09, CHR 0x0B, CHR 0x0C, CHR 0x0D] mode"

subsection \<open>Integers\<close>

fun uint_loop :: "nat \<Rightarrow> bytes \<Rightarrow> nat \<Rightarrow> nat option" where
  "uint_loop limit [] value = Some value"
| "uint_loop limit (c # cs) value =
     (if ord_of c < ord_of CHR ''0'' \<or> ord_of c > ord_of CHR ''9'' then None
      else if value * 10 > limit then None
      else if value * 10 + (ord_of c - ord_of CHR ''0'') > limit then None
      else uint_loop limit cs (value * 10 + (ord_of c - ord_of CHR ''0'')))"

definition convert_to_uint :: "nat \<Rightarrow> bytes \<Rightarrow> bool \<Rightarrow> nat option" where
  "convert_to_uint limit str trim_ws =
     (let string = (if trim_ws then trim_whitespace str TrimBoth else str) in
      if string = [] then None else uint_loop limit string 0)"

fun int_loop :: "int \<Rightarrow> int \<Rightarrow> int \<Rightarrow> bytes \<Rightarrow> int \<Rightarrow> int option" where
  "int_loop lo hi sign [] value = Some value"
| "int_loop lo hi sign (c # cs) value =
     (if ord_of c < ord_of CHR ''0'' \<or> ord_of c > ord_of CHR ''9'' then None
      else if value * 10 < lo \<or> value * 10 > hi then None
      else let value' = value * 10 + sign * (int (ord_of c) - int (ord_of CHR ''0'')) in
        if value' < lo \<or> value' > hi then None
        else int_loop lo hi sign cs value')"

definition convert_to_int :: "int \<Rightarrow> int \<Rightarrow> bytes \<Rightarrow> bool \<Rightarrow> int option" where
  "convert_to_int lo hi str trim_ws =
     (let string = (if trim_ws then trim_whitespace str TrimBoth else str) in
      case string of
        [] \<Rightarrow> None
      | c # cs \<Rightarrow>
          if c = CHR ''-'' \<or> c = CHR ''+'' then
            if length string = 1 then None
            else int_loop lo hi (if c = CHR ''-'' then - 1 else 1) cs 0
          else int_loop lo hi 1 string 0)"

fun hex_loop :: "nat \<Rightarrow> bytes \<Rightarrow> nat \<Rightarrow> nat option" where
  "hex_loop limit [] value = Some value"
| "hex_loop limit (c # cs) value =
     (let digit = ord_of c in
      if value > drop_bit 4 limit then None
      else if ord_of CHR ''0'' \<le> digit \<and> digit \<le> ord_of CHR ''9''
        then hex_loop limit cs (push_bit 4 value + (digit - ord_of CHR ''0''))
      else if ord_of CHR ''a'' \<le> digit \<and> digit \<le> ord_of CHR ''f''
        then hex_loop limit cs (push_bit 4 value + (10 + (digit - ord_of CHR ''a'')))
      else if ord_of CHR ''A'' \<le> digit \<and> digit \<le> ord_of CHR ''F''
        then hex_loop limit cs (push_bit 4 value + (10 + (digit - ord_of CHR ''A'')))
      else None)"

definition convert_to_uint_from_hex :: "nat \<Rightarrow> bytes \<Rightarrow> bool \<Rightarrow> nat option" where
  "convert_to_uint_from_hex limit str trim_ws =
     (let string = (if trim_ws then trim_whitespace str TrimBoth else str) in
      if string = [] then None else hex_loop limit string 0)"

fun octal_loop :: "nat \<Rightarrow> bytes \<Rightarrow> nat \<Rightarrow> nat option" where
  "octal_loop limit [] value = Some value"
| "octal_loop limit (c # cs) value =
     (let digit = ord_of c in
      if value > drop_bit 3 limit then None
      else if ord_of CHR ''0'' \<le> digit \<and> digit \<le> ord_of CHR ''7''
        then octal_loop limit cs (push_bit 3 value + (digit - ord_of CHR ''0''))
      else None)"

definition convert_to_uint_from_octal :: "nat \<Rightarrow> bytes \<Rightarrow> bool \<Rightarrow> nat option" where
  "convert_to_uint_from_octal limit str trim_ws =
     (let string = (if trim_ws then trim_whitespace str TrimBoth else str) in
      if string = [] then None else octal_loop limit string 0)"

subsection \<open>Searching\<close>

fun find_first_loop :: "(char \<Rightarrow> bool) \<Rightarrow> bytes \<Rightarrow> nat \<Rightarrow> nat option" where
  "find_first_loop P [] i = None"
| "find_first_loop P (c # cs) i = (if P c then Some i else find_first_loop P cs (i + 1))"

definition find_char :: "bytes \<Rightarrow> char \<Rightarrow> nat \<Rightarrow> nat option" where
  "find_char haystack needle start =
     (if start \<ge> length haystack then None else find_first_loop (\<lambda>c. c = needle) (drop start haystack) start)"

definition find_string :: "bytes \<Rightarrow> bytes \<Rightarrow> nat \<Rightarrow> nat option" where
  "find_string haystack needle start =
     (if start > length haystack then None
      else (case memmem_optional (drop start haystack) needle of
              Some (Some index) \<Rightarrow> Some (index + start)
            | _ \<Rightarrow> None))"

fun find_last_loop :: "(char \<Rightarrow> bool) \<Rightarrow> bytes \<Rightarrow> nat \<Rightarrow> nat option" where
  "find_last_loop P haystack 0 = None"
| "find_last_loop P haystack (Suc i) = (if P (haystack ! i) then Some i else find_last_loop P haystack i)"

definition find_last_char :: "bytes \<Rightarrow> char \<Rightarrow> nat option" where
  "find_last_char haystack needle = find_last_loop (\<lambda>c. c = needle) haystack (length haystack)"

definition find_last_not :: "bytes \<Rightarrow> char \<Rightarrow> nat option" where
  "find_last_not haystack needle = find_last_loop (\<lambda>c. c \<noteq> needle) haystack (length haystack)"

fun find_last_string_loop :: "bytes \<Rightarrow> bytes \<Rightarrow> nat \<Rightarrow> nat option" where
  "find_last_string_loop haystack needle i =
     (if take (length needle) (drop i haystack) = needle then Some i
      else case i of 0 \<Rightarrow> None | Suc j \<Rightarrow> find_last_string_loop haystack needle j)"

definition find_last_string :: "bytes \<Rightarrow> bytes \<Rightarrow> nat option" where
  "find_last_string haystack needle =
     (if length needle > length haystack then None
      else find_last_string_loop haystack needle (length haystack - length needle))"

definition find_any_of :: "bytes \<Rightarrow> bytes \<Rightarrow> search_direction \<Rightarrow> nat option" where
  "find_any_of haystack needles direction =
     (if haystack = [] \<or> needles = [] then None
      else case direction of
        Forward \<Rightarrow> find_first_loop (\<lambda>c. c \<in> set needles) haystack 0
      | Backward \<Rightarrow> find_last_loop (\<lambda>c. c \<in> set needles) haystack (length haystack))"

lemma find_string_first_occurrence:
  "find_string haystack needle start =
     (if start > length haystack then None
      else map_option (\<lambda>i. i + start) (first_occurrence needle (drop start haystack)))"
  by (simp add: find_string_def memmem_optional_correct split: option.split)

lemma find_string_bound:
  assumes "find_string haystack needle 0 = Some i"
  shows "i + length needle \<le> length haystack"
proof -
  have "prefix needle (drop i haystack)" "i \<le> length haystack"
    using assms by (auto simp: find_string_first_occurrence first_occurrence_Some)
  then show ?thesis using prefix_length_le by fastforce
qed

lemma find_string_shrinks:
  "find_string view separator 0 = Some i \<Longrightarrow> separator \<noteq> [] \<Longrightarrow>
     length view - (i + length separator) < length view"
  using find_string_bound [of view separator i] by (cases separator) auto

function find_all_loop :: "bytes \<Rightarrow> bytes \<Rightarrow> nat \<Rightarrow> nat list" where
  "find_all_loop haystack needle current_position =
     (if current_position \<le> length haystack then
        (case memmem_optional (drop current_position haystack) needle of
           Some (Some position) \<Rightarrow>
             (current_position + position) # find_all_loop haystack needle (current_position + (position + 1))
         | _ \<Rightarrow> [])
      else [])"
  by pat_completeness auto
termination
  by (relation "measure (\<lambda>(haystack, needle, p). Suc (length haystack) - p)") auto

definition find_all :: "bytes \<Rightarrow> bytes \<Rightarrow> nat list" where
  "find_all haystack needle = find_all_loop haystack needle 0"

subsection \<open>Replacing and counting\<close>

partial_function (option) replace_loop :: "bytes \<Rightarrow> bytes \<Rightarrow> bytes \<Rightarrow> bytes \<Rightarrow> bytes option" where
  "replace_loop needle replacement remaining replaced_string =
     (if remaining \<noteq> [] then
        (case find_string remaining needle 0 of
           None \<Rightarrow> Some (replaced_string @ remaining)
         | Some pos \<Rightarrow> replace_loop needle replacement (drop (pos + length needle) remaining)
                         (replaced_string @ take pos remaining @ replacement))
      else Some (replaced_string @ remaining))"

declare replace_loop.simps [code]

definition replace_into_builder :: "bytes \<Rightarrow> bytes \<Rightarrow> bytes \<Rightarrow> replace_mode \<Rightarrow> nat \<Rightarrow> bytes option" where
  "replace_into_builder str needle replacement replace_mode first_replacement_position =
     (let replaced_string = take first_replacement_position str @ replacement;
          remaining = drop (first_replacement_position + length needle) str
      in case replace_mode of
           ReplaceAll \<Rightarrow> replace_loop needle replacement remaining replaced_string
         | FirstOnly \<Rightarrow> Some (replaced_string @ remaining))"

definition replace :: "bytes \<Rightarrow> bytes \<Rightarrow> bytes \<Rightarrow> replace_mode \<Rightarrow> bytes option" where
  "replace str needle replacement replace_mode =
     (if str = [] then Some str
      else (case find_string str needle 0 of
              None \<Rightarrow> Some str
            | Some first \<Rightarrow> replace_into_builder str needle replacement replace_mode first))"

text \<open>
  The bound of the counting loop is computed in \<^verbatim>\<open>size_t\<close> and wraps around; \<^const>\<open>None\<close> is the
  failing assertion of \<^verbatim>\<open>substring_view\<close>.
\<close>

function count_loop :: "bytes \<Rightarrow> bytes \<Rightarrow> nat \<Rightarrow> nat \<Rightarrow> nat \<Rightarrow> nat option" where
  "count_loop str needle limit i count =
     (if i < limit then
        if i > length str then None
        else count_loop str needle limit (i + 1)
               (if starts_with (drop i str) needle CaseSensitive then count + 1 else count)
      else Some count)"
  by pat_completeness auto
termination
  by (relation "measure (\<lambda>(str, needle, limit, i, count). limit - i)") auto

declare count_loop.simps [simp del]

definition count_string :: "bytes \<Rightarrow> bytes \<Rightarrow> nat option" where
  "count_string str needle =
     (if needle = [] then Some (length str)
      else count_loop str needle
             (nat ((int (length str) - int (length needle) + 1) mod 2 ^ 64)) 0 0)"

definition count_char :: "bytes \<Rightarrow> char \<Rightarrow> nat" where
  "count_char str needle = length (filter (\<lambda>c. c = needle) str)"

subsection \<open>Case conversion\<close>

definition to_lowercase_string :: "bytes \<Rightarrow> bytes" where
  "to_lowercase_string str = map byte_to_lowercase str"

definition to_uppercase_string :: "bytes \<Rightarrow> bytes" where
  "to_uppercase_string str = map byte_to_uppercase str"

fun titlecase_loop :: "bool \<Rightarrow> bytes \<Rightarrow> bytes" where
  "titlecase_loop next_is_upper [] = []"
| "titlecase_loop next_is_upper (ch # cs) =
     (if next_is_upper then byte_to_uppercase ch else byte_to_lowercase ch)
       # titlecase_loop (ch = CHR '' '') cs"

definition to_titlecase :: "bytes \<Rightarrow> bytes" where
  "to_titlecase str = titlecase_loop True str"

definition invert_case :: "bytes \<Rightarrow> bytes" where
  "invert_case str = map (\<lambda>ch. if is_ascii_lower_alpha (ord_of ch) then byte_to_uppercase ch
                               else byte_to_lowercase ch) str"

definition should_insert_underscore :: "bytes \<Rightarrow> nat \<Rightarrow> char \<Rightarrow> bool" where
  "should_insert_underscore str i current_char =
     (if i = 0 then False
      else if is_ascii_lower_alpha (ord_of (str ! (i - 1))) \<and> is_ascii_upper_alpha (ord_of current_char)
        then True
      else if i \<ge> length str - 1 then False
      else is_ascii_upper_alpha (ord_of current_char) \<and> is_ascii_lower_alpha (ord_of (str ! (i + 1))))"

definition to_snakecase :: "bytes \<Rightarrow> bytes" where
  "to_snakecase str =
     concat (map (\<lambda>i. (if should_insert_underscore str i (str ! i) then ''_'' else [])
                       @ [byte_to_lowercase (str ! i)]) [0..<length str])"

subsection \<open>Splitting\<close>

function split_loop :: "bytes \<Rightarrow> split_behavior \<Rightarrow> bytes \<Rightarrow> bytes list" where
  "split_loop separator split_behavior view =
     (if separator = [] then []
      else (case find_string view separator 0 of
              Some separator_index \<Rightarrow>
                (if keep_empty split_behavior \<or> separator_index > 0
                 then [if keep_trailing_separator split_behavior
                       then take (separator_index + length separator) view
                       else take separator_index view]
                 else [])
                @ split_loop separator split_behavior (drop (separator_index + length separator) view)
            | None \<Rightarrow> if keep_empty split_behavior \<or> view \<noteq> [] then [view] else []))"
  by pat_completeness auto
termination
  by (relation "measure (\<lambda>(separator, b, view). length view)") (auto simp: find_string_shrinks)

declare split_loop.simps [simp del]

definition split_view :: "bytes \<Rightarrow> bytes \<Rightarrow> split_behavior \<Rightarrow> bytes list option" where
  "split_view str separator split_behavior =
     (if separator = [] then None
      else if str = [] then Some []
      else Some (split_loop separator split_behavior str))"

fun split_if_loop :: "(char \<Rightarrow> bool) \<Rightarrow> split_behavior \<Rightarrow> bytes \<Rightarrow> bytes \<Rightarrow> bytes list" where
  "split_if_loop predicate split_behavior part [] =
     (if part \<noteq> [] \<or> keep_empty split_behavior then [part] else [])"
| "split_if_loop predicate split_behavior part (ch # cs) =
     (if predicate ch then
        (if part \<noteq> [] \<or> keep_empty split_behavior
         then [if keep_trailing_separator split_behavior then part @ [ch] else part] else [])
        @ split_if_loop predicate split_behavior [] cs
      else split_if_loop predicate split_behavior (part @ [ch]) cs)"

definition split_view_if :: "bytes \<Rightarrow> (char \<Rightarrow> bool) \<Rightarrow> split_behavior \<Rightarrow> bytes list" where
  "split_view_if str predicate split_behavior =
     (if str = [] then [] else split_if_loop predicate split_behavior [] str)"

subsection \<open>Correctness\<close>

definition same_ignoring_case :: "bytes \<Rightarrow> bytes \<Rightarrow> bool" where
  "same_ignoring_case a b \<longleftrightarrow>
     list_all2 (\<lambda>x y. to_ascii_lowercase (ord_of x) = to_ascii_lowercase (ord_of y)) a b"

lemma ci_match_Found:
  assumes "ci_match str needle si ni = Found"
    and "\<forall>j<ni. to_ascii_lowercase (ord_of (str ! (si + j))) = to_ascii_lowercase (ord_of (needle ! j))"
    and "ni < length needle"
  shows "si + length needle \<le> length str \<and> same_ignoring_case (take (length needle) (drop si str)) needle"
  using assms
proof (induction str needle si ni rule: ci_match.induct)
  case (1 str needle si ni)
  from 1(2) have c: "si + ni < length str"
    "to_ascii_lowercase (ord_of (str ! (si + ni))) = to_ascii_lowercase (ord_of (needle ! ni))"
    "ni + 1 = length needle \<or> ci_match str needle si (ni + 1) = Found"
    by (simp_all add: ci_match.simps [of str needle si ni] split: if_splits)
  have upto: "\<forall>j<ni + 1. to_ascii_lowercase (ord_of (str ! (si + j))) = to_ascii_lowercase (ord_of (needle ! j))"
    using 1(3) c(2) less_Suc_eq by auto
  show ?case
  proof (cases "ni + 1 = length needle")
    case True
    with upto c(1) show ?thesis
      by (auto simp: same_ignoring_case_def list_all2_conv_all_nth)
  next
    case False
    with c 1(4) upto show ?thesis by (intro 1(1)) auto
  qed
qed

lemma contains_ci_sound:
  "needle \<noteq> [] \<Longrightarrow> contains_ci str needle si \<Longrightarrow>
     \<exists>i. i + length needle \<le> length str \<and> same_ignoring_case (take (length needle) (drop i str)) needle"
proof (induction str needle si rule: contains_ci.induct)
  case (1 str needle si)
  from 1(5) have "si < length str" by (subst (asm) contains_ci.simps) (simp split: if_splits)
  with 1(5) consider "contains_ci str needle (si + 1)"
      "to_ascii_lowercase (ord_of (str ! si)) \<noteq> to_ascii_lowercase (ord_of (needle ! 0))"
    | "ci_match str needle si 0 = Found"
    | s where "ci_match str needle si 0 = Mismatch s" "contains_ci str needle (s + 1)"
      "to_ascii_lowercase (ord_of (str ! si)) = to_ascii_lowercase (ord_of (needle ! 0))"
    | "ci_match str needle si 0 = Exhausted" "contains_ci str needle (si + 1)"
      "to_ascii_lowercase (ord_of (str ! si)) = to_ascii_lowercase (ord_of (needle ! 0))"
    by (subst (asm) contains_ci.simps) (auto split: if_splits ci_result.splits)
  then show ?case
  proof cases
    case 2
    with ci_match_Found [OF this] 1(4) show ?thesis by auto
  qed (use 1 \<open>si < length str\<close> in auto)
qed

lemma sublist_drop_iff: "sublist xs ys \<longleftrightarrow> (\<exists>i\<le>length ys. prefix xs (drop i ys))"
proof
  assume "sublist xs ys"
  then obtain ps ss where "ys = ps @ xs @ ss" by (auto simp: sublist_def)
  then have "length ps \<le> length ys \<and> prefix xs (drop (length ps) ys)" by simp
  then show "\<exists>i\<le>length ys. prefix xs (drop i ys)" by blast
next
  assume "\<exists>i\<le>length ys. prefix xs (drop i ys)"
  then show "sublist xs ys"
    by (metis append_take_drop_id prefix_def sublist_def)
qed

lemma first_occurrence_Some_iff_ex:
  "(\<exists>i. first_occurrence needle str = Some i) \<longleftrightarrow> sublist needle str"
  by (cases "first_occurrence needle str")
    (auto simp: sublist_drop_iff first_occurrence_Some first_occurrence_None)

lemma contains_CaseSensitive_iff:
  "contains str needle CaseSensitive \<longleftrightarrow> str \<noteq> [] \<and> sublist needle str"
proof -
  have "(\<exists>i. first_occurrence needle str = Some i) \<longleftrightarrow> sublist needle str"
    by (rule first_occurrence_Some_iff_ex)
  then show ?thesis
    by (auto simp: contains_def memmem_optional_correct dest: sublist_length_le split: option.splits)
qed

text \<open>The conversions read the digits exactly, up to the largest value of the type.\<close>

lemma list_all_digit_values:
  "foldl (\<lambda>v d. v * b + d) v (map f cs) \<ge> v" if "b \<ge> (1::nat)"
  using that
proof (induction cs arbitrary: v)
  case (Cons c cs)
  have "v \<le> v * b + f c" using Cons.prems by (simp add: trans_le_add1)
  also have "\<dots> \<le> foldl (\<lambda>v d. v * b + d) (v * b + f c) (map f cs)" by (rule Cons.IH) fact
  finally show ?case by simp
qed simp

lemma uint_loop_Some:
  "uint_loop limit cs v = Some w \<longleftrightarrow>
     list_all (\<lambda>c. is_ascii_digit (ord_of c)) cs
     \<and> w = foldl (\<lambda>v d. v * 10 + d) v (map (\<lambda>c. ord_of c - 48) cs) \<and> (cs = [] \<or> w \<le> limit)"
proof (induction cs arbitrary: v)
  case (Cons c cs)
  have mono: "v * 10 + d \<le> foldl (\<lambda>v d. v * 10 + d) (v * 10 + d) xs" for d xs and v :: nat
  proof (induction xs arbitrary: v d)
    case (Cons x xs)
    have "v * 10 + d \<le> (v * 10 + d) * 10 + x" by simp
    also have "\<dots> \<le> foldl (\<lambda>v d. v * 10 + d) ((v * 10 + d) * 10 + x) xs" by (rule Cons.IH)
    finally show ?case by simp
  qed simp
  show ?case
    using mono [of v "ord_of c - 48" "map (\<lambda>c. ord_of c - 48) cs"]
    by (auto simp: Cons.IH class_defs)
qed auto

definition hex_value :: "char \<Rightarrow> nat" where
  "hex_value c = the (parse_ascii_hex_digit (ord_of c))"

lemma hex_loop_step:
  assumes "limit mod 16 = 15"
  shows "hex_loop limit (c # cs) v =
     (if is_ascii_hex_digit (ord_of c) \<and> v * 16 + hex_value c \<le> limit
      then hex_loop limit cs (v * 16 + hex_value c) else None)"
proof -
  have lim: "v > limit div 16 \<longleftrightarrow> v * 16 + d > limit" if "d < 16" for d
  proof -
    obtain q where "limit = 16 * q + 15" using assms by (metis mult_div_mod_eq)
    with that show ?thesis by (simp, arith)
  qed
  have d: "hex_value c < 16" if "is_ascii_hex_digit (ord_of c)"
    using that parse_ascii_hex_digit_defined parse_ascii_hex_digit_less
    by (fastforce simp: hex_value_def)
  show ?thesis
  proof (cases "is_ascii_hex_digit (ord_of c)")
    case True
    with lim [OF d [OF True]] show ?thesis
      by (auto simp: Let_def drop_bit_eq_div push_bit_eq_mult hex_value_def parse_ascii_hex_digit_def
          parse_ascii_digit_def class_defs simp del: div_less_iff_less_mult)
  next
    case False
    then show ?thesis by (auto simp: Let_def class_defs)
  qed
qed

lemma hex_loop_Some:
  assumes "limit mod 16 = 15"
  shows "hex_loop limit cs v = Some w \<longleftrightarrow>
     list_all (\<lambda>c. is_ascii_hex_digit (ord_of c)) cs
     \<and> w = foldl (\<lambda>v d. v * 16 + d) v (map hex_value cs) \<and> (cs = [] \<or> w \<le> limit)"
proof (induction cs arbitrary: v)
  case (Cons c cs)
  show ?case
    unfolding hex_loop_step [OF assms]
    using list_all_digit_values [of 16 "v * 16 + hex_value c" hex_value cs]
    by (auto simp: Cons.IH)
qed auto

lemma octal_loop_step:
  assumes "limit mod 8 = 7"
  shows "octal_loop limit (c # cs) v =
     (if is_ascii_octal_digit (ord_of c) \<and> v * 8 + (ord_of c - 48) \<le> limit
      then octal_loop limit cs (v * 8 + (ord_of c - 48)) else None)"
proof -
  have lim: "v > limit div 8 \<longleftrightarrow> v * 8 + d > limit" if "d < 8" for d
  proof -
    obtain q where "limit = 8 * q + 7" using assms by (metis mult_div_mod_eq)
    with that show ?thesis by (simp, arith)
  qed
  show ?thesis
  proof (cases "is_ascii_octal_digit (ord_of c)")
    case True
    then have "ord_of c - 48 < 8" by (auto simp: class_defs)
    from lim [OF this] True show ?thesis
      by (simp add: Let_def drop_bit_eq_div push_bit_eq_mult class_defs del: div_less_iff_less_mult)
  next
    case False
    then show ?thesis by (auto simp: Let_def class_defs)
  qed
qed

lemma octal_loop_Some:
  assumes "limit mod 8 = 7"
  shows "octal_loop limit cs v = Some w \<longleftrightarrow>
     list_all (\<lambda>c. is_ascii_octal_digit (ord_of c)) cs
     \<and> w = foldl (\<lambda>v d. v * 8 + d) v (map (\<lambda>c. ord_of c - 48) cs) \<and> (cs = [] \<or> w \<le> limit)"
proof (induction cs arbitrary: v)
  case (Cons c cs)
  show ?case
    unfolding octal_loop_step [OF assms]
    using list_all_digit_values [of 8 "v * 8 + (ord_of c - 48)" "\<lambda>c. ord_of c - 48" cs]
    by (auto simp: Cons.IH)
qed auto

text \<open>Trimming drops a prefix and a suffix.\<close>

lemma trim_left_loop_dropWhile:
  "n = length str \<Longrightarrow> trim_left_loop cs str k n =
     Some (k + (length str - length (dropWhile (\<lambda>c. c \<in> set cs) str)), length (dropWhile (\<lambda>c. c \<in> set cs) str))"
proof (induction str arbitrary: k n)
  case (Cons c str)
  then show ?case
    using length_dropWhile_le [of "\<lambda>c. c \<in> set cs" str] by auto
qed simp

lemma trim_right_loop_dropWhile:
  "n \<le> length rstr \<Longrightarrow> (\<exists>c \<in> set (take n rstr). c \<notin> set cs) \<or> n = length rstr \<Longrightarrow>
     trim_right_loop cs rstr n = Some (length (dropWhile (\<lambda>c. c \<in> set cs) (take n rstr)))"
proof (induction rstr arbitrary: n)
  case (Cons c rstr)
  then show ?case by (cases n) auto
qed simp

lemma trim_both:
  "trim str cs TrimBoth =
     rev (dropWhile (\<lambda>c. c \<in> set cs) (rev (dropWhile (\<lambda>c. c \<in> set cs) str)))"
proof -
  let ?P = "\<lambda>c. c \<in> set cs"
  let ?d = "dropWhile ?P str"
  have d: "drop (length str - length ?d) str = ?d"
    by (metis dropWhile_eq_drop length_drop diff_diff_cancel length_takeWhile_le)
  have t: "take (length ?d) (rev str) = rev ?d"
    using d by (metis rev_take rev_rev_ident length_rev drop_rev take_rev)
  show ?thesis
  proof (cases "?d = []")
    case True
    then show ?thesis
      by (cases "rev str") (simp_all only: trim_def trim_left_loop_dropWhile True, simp_all)
  next
    case False
    then have "?P (hd ?d) = False" by (meson hd_dropWhile)
    then have "\<exists>c\<in>set (take (length ?d) (rev str)). c \<notin> set cs"
      using False t by (metis hd_in_set set_rev)
    then have "trim_right_loop cs (rev str) (length ?d) = Some (length (dropWhile ?P (rev ?d)))"
      using trim_right_loop_dropWhile [of "length ?d" "rev str" cs] length_dropWhile_le [of ?P str] t
      by simp
    moreover have "take (length (dropWhile ?P (rev ?d))) ?d = rev (dropWhile ?P (rev ?d))"
      by (metis dropWhile_eq_drop length_drop length_rev rev_drop rev_rev_ident)
    ultimately show ?thesis
      by (simp add: trim_def trim_left_loop_dropWhile d)
  qed
qed

lemma split_loop_parts:
  assumes "separator \<noteq> []"
  shows "split_loop separator Split_KeepEmpty view \<noteq> [] \<and>
    join_with separator (split_loop separator Split_KeepEmpty view) = view \<and>
    (\<forall>p\<in>set (split_loop separator Split_KeepEmpty view). \<not> sublist separator p)"
  using assms
proof (induction separator Split_KeepEmpty view rule: split_loop.induct)
  case (1 separator view)
  show ?case
  proof (cases "find_string view separator 0")
    case None
    then have "split_loop separator Split_KeepEmpty view = [view]"
      using 1(2) by (subst split_loop.simps) (simp add: Split_KeepEmpty_def)
    moreover have "\<not> sublist separator view"
      using None first_occurrence_Some_iff_ex [of separator view]
      by (simp add: find_string_first_occurrence)
    ultimately show ?thesis by simp
  next
    case (Some i)
    let ?rest = "drop (i + length separator) view"
    have split: "split_loop separator Split_KeepEmpty view = take i view # split_loop separator Split_KeepEmpty ?rest"
      using 1(2) Some by (subst split_loop.simps) (simp add: Split_KeepEmpty_def)
    have i: "prefix separator (drop i view)" "\<forall>j<i. \<not> prefix separator (drop j view)"
      using Some by (auto simp: find_string_first_occurrence first_occurrence_Some)
    have view: "view = take i view @ separator @ ?rest"
      using i(1) by (metis append_eq_conv_conj append_take_drop_id drop_drop add.commute prefix_def)
    have "\<not> sublist separator (take i view)"
    proof
      assume "sublist separator (take i view)"
      then obtain ps ss where ps: "take i view = ps @ separator @ ss" by (auto simp: sublist_def)
      then have "length ps < i" using 1(2)
        by (metis add_less_cancel_left length_append length_greater_0_conv length_take less_add_same_cancel1 min.strict_boundedE append_is_Nil_conv)
      moreover have "prefix separator (drop (length ps) view)"
        by (metis ps append_assoc append_eq_conv_conj append_take_drop_id prefixI)
      ultimately show False using i(2) by blast
    qed
    with 1(1) [OF 1(2) Some] 1(2) split view show ?thesis by (simp add: join_with_Cons)
  qed
qed

lemma split_loop_Nothing:
  assumes "separator \<noteq> []"
  shows "split_loop separator Split_Nothing view =
    filter (\<lambda>p. p \<noteq> []) (split_loop separator Split_KeepEmpty view)"
  using assms
proof (induction separator Split_KeepEmpty view rule: split_loop.induct)
  case (1 separator view)
  note defs = Split_KeepEmpty_def Split_Nothing_def
  show ?case
  proof (cases "find_string view separator 0")
    case None
    with 1(2) show ?thesis
      by (simp add: defs split_loop.simps [of separator _ view])
  next
    case (Some i)
    then have "i \<le> length view" using find_string_bound by fastforce
    with 1(1) [OF 1(2) Some 1(2)] Some 1(2) show ?thesis
      by (auto simp: split_loop.simps [of separator _ view] defs)
  qed
qed

lemma replace_loop_split:
  assumes "needle \<noteq> []"
  shows "replace_loop needle replacement remaining acc =
     Some (acc @ join_with replacement (split_loop needle Split_KeepEmpty remaining))"
  using assms
proof (induction needle Split_KeepEmpty remaining arbitrary: acc rule: split_loop.induct)
  case (1 needle remaining)
  note ne = conjunct1 [OF split_loop_parts [OF 1(2)]]
  show ?case
  proof (cases "find_string remaining needle 0")
    case None
    with 1(2) show ?thesis
      by (subst replace_loop.simps, subst split_loop.simps) (simp add: Split_KeepEmpty_def)
  next
    case (Some i)
    then have "remaining \<noteq> []" using 1(2) find_string_bound by fastforce
    have "split_loop needle Split_KeepEmpty remaining =
        take i remaining # split_loop needle Split_KeepEmpty (drop (i + length needle) remaining)"
      using 1(2) Some by (subst split_loop.simps) (simp add: Split_KeepEmpty_def)
    with 1(1) [OF 1(2) Some 1(2)] \<open>remaining \<noteq> []\<close> Some ne show ?thesis
      by (subst replace_loop.simps) (simp add: join_with_Cons)
  qed
qed

lemma find_string_empty [simp]: "find_string haystack [] 0 = Some 0"
  by (cases haystack) (auto simp: find_string_first_occurrence)

lemma replace_loop_diverges:
  assumes "remaining \<noteq> []"
  shows "replace_loop [] replacement remaining acc = None"
proof -
  have "n = [] \<longrightarrow> rem = []" if "replace_loop n r rem acc = Some y" for n r rem acc y
    using that
    by (rule replace_loop.raw_induct [where P = "\<lambda>n r rem acc y. n = [] \<longrightarrow> rem = []", rotated])
      (auto split: if_splits)
  with assms show ?thesis by fastforce
qed

lemma to_lowercase_string_idem [simp]:
  "to_lowercase_string (to_lowercase_string s) = to_lowercase_string s"
  by (simp add: to_lowercase_string_def)

lemma same_ignoring_case_iff: "same_ignoring_case a b \<longleftrightarrow> to_lowercase_string a = to_lowercase_string b"
proof -
  have "to_ascii_lowercase (ord_of x) = to_ascii_lowercase (ord_of y) \<longleftrightarrow>
        byte_to_lowercase x = byte_to_lowercase y" for x y
    by (simp add: char_eq_iff_ord)
  then show ?thesis
    by (simp add: same_ignoring_case_def to_lowercase_string_def list_all2_conv_all_nth
        list_eq_iff_nth_eq)
      auto
qed

lemma equals_ignoring_ascii_case_iff:
  "equals_ignoring_ascii_case a b \<longleftrightarrow> to_lowercase_string a = to_lowercase_string b"
  by (auto simp: equals_ignoring_ascii_case_def same_ignoring_case_iff [symmetric]
      same_ignoring_case_def dest: list_all2_lengthD)

lemma starts_with_prefix: "starts_with str start CaseSensitive \<longleftrightarrow> prefix start str"
proof -
  have "prefix start str \<longleftrightarrow> length start \<le> length str \<and> take (length start) str = start"
    by (metis append_eq_conv_conj prefix_def prefix_length_le take_is_prefix)
  then show ?thesis by (auto simp: starts_with_def)
qed

lemma ends_with_suffix: "ends_with str ending CaseSensitive \<longleftrightarrow> suffix ending str"
proof -
  have "suffix ending str \<longleftrightarrow> length ending \<le> length str \<and> drop (length str - length ending) str = ending"
    by (auto simp: suffix_def intro: exI [of _ "take (length str - length ending) str"])
      (metis append_take_drop_id)
  then show ?thesis by (auto simp: ends_with_def)
qed

lemma count_loop_counts:
  assumes "limit \<le> length str + 1" "i \<le> limit"
  shows "count_loop str needle limit i c =
     Some (c + length (filter (\<lambda>j. starts_with (drop j str) needle CaseSensitive) [i..<limit]))"
  using assms
proof (induction str needle limit i c rule: count_loop.induct)
  case (1 str needle limit i c)
  show ?case
  proof (cases "i < limit")
    case True
    with 1(2) have "\<not> i > length str" by simp
    with True 1 show ?thesis
      by (subst count_loop.simps) (simp add: upt_conv_Cons)
  next
    case False
    then show ?thesis by (simp add: count_loop.simps)
  qed
qed

lemma count_loop_crash:
  assumes "i \<le> length str + 1" "length str + 1 < limit"
  shows "count_loop str needle limit i c = None"
  using assms
proof (induction str needle limit i c rule: count_loop.induct)
  case (1 str needle limit i c)
  then show ?case
    by (subst count_loop.simps) auto
qed

lemma count_string_counts:
  assumes "needle \<noteq> []" "length needle \<le> length str + 1" "length str < 2 ^ 63"
  shows "count_string str needle =
     Some (length (filter (\<lambda>j. prefix needle (drop j str)) [0..<length str + 1 - length needle]))"
proof -
  have "nat ((int (length str) - int (length needle) + 1) mod 2 ^ 64) = length str + 1 - length needle"
    using assms by simp
  then show ?thesis
    using assms by (simp add: count_string_def count_loop_counts starts_with_prefix)
qed

lemma count_string_crash:
  assumes "length str + 2 \<le> length needle" "length needle < 2 ^ 63"
  shows "count_string str needle = None"
proof -
  let ?n = "int (length str) - int (length needle) + 1"
  have "?n mod 2 ^ 64 = ?n + 2 ^ 64"
    using assms by (subst mod_add_self2 [symmetric], subst mod_pos_pos_trivial) auto
  then have "nat (?n mod 2 ^ 64) > length str + 1" using assms by simp
  moreover have "needle \<noteq> []" using assms by auto
  ultimately show ?thesis by (simp add: count_string_def count_loop_crash)
qed

text \<open>
  The case insensitive search misses occurrences: after a partial match it resumes one
  byte before the mismatch and so skips starting positions.  It does not find ``aab'' in
  ``aaab'', which the case sensitive search does.
\<close>

lemma contains_ci_incomplete:
  "\<not> contains ''aaab'' ''aab'' CaseInsensitive \<and> contains ''aaab'' ''aab'' CaseSensitive"
proof -
  have "sublist ''aab'' ''aaab''" by (simp add: sublist_Cons_right)
  moreover have "\<not> contains ''aaab'' ''aab'' CaseInsensitive" by code_simp
  ultimately show ?thesis by (simp add: contains_CaseSensitive_iff)
qed

subsection \<open>Properties\<close>

text \<open>
  C26. \<^verbatim>\<open>StringUtils::contains\<close>.  The case sensitive search of a string that is not empty says
  exactly whether the needle occurs in it, and the case insensitive one only answers yes when
  some part of the string is the needle up to ASCII case.  The converse fails for the case
  insensitive search, which does not find ``aab'' in ``aaab''.
\<close>

theorem contains_correct:
  "(contains str needle CaseSensitive \<longleftrightarrow> str \<noteq> [] \<and> sublist needle str)
   \<and> (contains str needle CaseInsensitive \<longrightarrow>
        (\<exists>i. i + length needle \<le> length str
           \<and> to_lowercase_string (take (length needle) (drop i str)) = to_lowercase_string needle))
   \<and> \<not> contains ''aaab'' ''aab'' CaseInsensitive \<and> contains ''aaab'' ''aab'' CaseSensitive"
  using contains_CaseSensitive_iff [of str needle] contains_ci_sound [of needle str 0] contains_ci_incomplete
  by (auto simp: contains_def same_ignoring_case_iff [symmetric] same_ignoring_case_def
      split: if_splits)

theorem contains_correct_witness:
  "contains ''Set-Cookie'' ''cook'' CaseInsensitive
   \<and> (\<exists>i. i + length ''cook'' \<le> length ''Set-Cookie''
        \<and> to_lowercase_string (take (length ''cook'') (drop i ''Set-Cookie'')) = to_lowercase_string ''cook'')"
proof -
  have "contains ''Set-Cookie'' ''cook'' CaseInsensitive" by code_simp
  with contains_correct [of "''Set-Cookie''" "''cook''"] show ?thesis by blast
qed

text \<open>
  C27. The integer conversions.  \<^verbatim>\<open>convert_to_uint\<close> returns a number exactly when the (trimmed)
  text is a nonempty sequence of digits whose value fits the type, and then returns that value;
  likewise the hexadecimal and octal conversions to an unsigned type of \<^term>\<open>w\<close> bits.
\<close>

theorem convert_to_uint_exact:
  assumes "w \<ge> 4" and "limit = 2 ^ w - 1"
    and "s = (if trim_ws then trim_whitespace str TrimBoth else str)"
  shows "(convert_to_uint limit str trim_ws = Some v \<longleftrightarrow>
            s \<noteq> [] \<and> list_all (\<lambda>c. is_ascii_digit (ord_of c)) s
            \<and> v = radix_value 10 (map (\<lambda>c. ord_of c - 48) s) \<and> v < 2 ^ w)
   \<and> (convert_to_uint_from_hex limit str trim_ws = Some v \<longleftrightarrow>
            s \<noteq> [] \<and> list_all (\<lambda>c. is_ascii_hex_digit (ord_of c)) s
            \<and> v = radix_value 16 (map hex_value s) \<and> v < 2 ^ w)
   \<and> (convert_to_uint_from_octal limit str trim_ws = Some v \<longleftrightarrow>
            s \<noteq> [] \<and> list_all (\<lambda>c. is_ascii_octal_digit (ord_of c)) s
            \<and> v = radix_value 8 (map (\<lambda>c. ord_of c - 48) s) \<and> v < 2 ^ w)"
proof -
  have lim: "v \<le> limit \<longleftrightarrow> v < 2 ^ w" for v using assms(2) by (simp add: Suc_le_eq less_eq_Suc_le [symmetric] le_less_Suc_eq less_Suc_eq_le [symmetric])
  obtain k where w: "w = k + 4" using assms(1) by (metis add.commute le_Suc_ex)
  have "limit + 1 = 16 * 2 ^ k" "limit + 1 = 8 * (2 * 2 ^ k)" by (auto simp: assms(2) w power_add)
  then have m: "limit mod 16 = 15" "limit mod 8 = 7" by presburger+
  show ?thesis
    by (auto simp: convert_to_uint_def convert_to_uint_from_hex_def convert_to_uint_from_octal_def
        uint_loop_Some hex_loop_Some [OF m(1)] octal_loop_Some [OF m(2)] radix_value_def lim
        assms(3) [symmetric] Let_def)
qed

theorem convert_to_uint_exact_witness:
  "convert_to_uint (2 ^ 16 - 1) '' 8080'' True = Some 8080
   \<and> convert_to_uint_from_hex (2 ^ 8 - 1) ''fF'' False = Some 255"
  using convert_to_uint_exact [of 16 "2 ^ 16 - 1" "''8080''" True "'' 8080''" 8080]
    convert_to_uint_exact [of 8 "2 ^ 8 - 1" "''fF''" False "''fF''" 255]
  by (auto simp: trim_whitespace_def trim_both radix_value_def class_defs hex_value_def
      parse_ascii_hex_digit_def)

text \<open>
  \<^verbatim>\<open>StringView::split_view\<close>.  Splitting a nonempty string with empty parts kept loses
  nothing: joining the parts with the separator gives the string back, and no part contains the
  separator.  Without \<^verbatim>\<open>KeepEmpty\<close> exactly the empty parts are missing.
\<close>

lemma split_view_join:
  assumes "separator \<noteq> []" "str \<noteq> []"
  shows "\<exists>parts. split_view str separator Split_KeepEmpty = Some parts
     \<and> join_with separator parts = str
     \<and> list_all (\<lambda>p. \<not> sublist separator p) parts
     \<and> split_view str separator Split_Nothing = Some (filter (\<lambda>p. p \<noteq> []) parts)"
  using split_loop_parts [OF assms(1), of str] split_loop_Nothing [OF assms(1), of str] assms
  by (simp add: split_view_def list_all_iff)

lemma split_view_join_witness:
  "\<exists>parts. split_view ''a..b'' ''.'' Split_KeepEmpty = Some parts \<and> join_with ''.'' parts = ''a..b''"
  using split_view_join [of "''.''" "''a..b''"] by auto

text \<open>
  C28. \<^verbatim>\<open>StringUtils::replace\<close>.  For a nonempty needle, replacing all occurrences ends and puts
  the replacement between the parts that splitting at the needle gives.  For an empty needle and
  a nonempty string the loop never ends.
\<close>

theorem replace_all_correct:
  "replace str needle replacement ReplaceAll =
     (if str = [] then Some []
      else if needle = [] then None
      else Some (join_with replacement (split_loop needle Split_KeepEmpty str)))"
proof (cases "str = [] \<or> needle = []")
  case True
  then show ?thesis
    by (auto simp: replace_def replace_into_builder_def replace_loop_diverges)
next
  case False
  then have ne: "split_loop needle Split_KeepEmpty view \<noteq> []" for view
    using split_loop_parts by blast
  show ?thesis
  proof (cases "find_string str needle 0")
    case None
    with False show ?thesis
      by (simp add: replace_def split_loop.simps [of needle _ str] Split_KeepEmpty_def)
  next
    case (Some i)
    with False have "split_loop needle Split_KeepEmpty str =
        take i str # split_loop needle Split_KeepEmpty (drop (i + length needle) str)"
      by (subst split_loop.simps) (simp add: Split_KeepEmpty_def)
    with False Some ne show ?thesis
      by (simp add: replace_def replace_into_builder_def replace_loop_split join_with_Cons)
  qed
qed

text \<open>
  C31. \<^verbatim>\<open>StringUtils::count\<close> of a nonempty needle at most one byte longer than the string is the
  number of its (overlapping) occurrences; for a longer needle the bound of the loop wraps around
  in \<^verbatim>\<open>size_t\<close> and the loop runs past the end of the string, into the assertion of
  \<^verbatim>\<open>substring_view\<close>.
\<close>

theorem count_correct_or_crash:
  assumes "needle \<noteq> []" "length str < 2 ^ 62" "length needle < 2 ^ 62"
  shows "count_string str needle =
    (if length needle \<le> length str + 1
     then Some (length (filter (\<lambda>j. prefix needle (drop j str)) [0..<length str + 1 - length needle]))
     else None)"
  using assms count_string_counts [of needle str] count_string_crash [of str needle] by simp

theorem count_correct_or_crash_witness:
  "count_string ''aaa'' ''aa'' = Some 2 \<and> count_string ''a'' ''aaa'' = None"
  using count_correct_or_crash [of "''aa''" "''aaa''"] count_correct_or_crash [of "''aaa''" "''a''"]
  by (simp add: upt_rec)

end
