(* ===== verification/Format.thy ===== *)
theory Format
  imports StringUtils
begin

text \<open>
  The number formatting of \<^verbatim>\<open>AK/Format.cpp\<close>: \<^verbatim>\<open>convert_unsigned_to_string\<close>,
  \<^verbatim>\<open>FormatBuilder::put_u64\<close>, \<^verbatim>\<open>put_i64\<close> and \<^verbatim>\<open>put_string\<close>, and the three instances that the
  URL code uses (\<^verbatim>\<open>{}\<close>, \<^verbatim>\<open>{:x}\<close> and \<^verbatim>\<open>{:02X}\<close>).  The facts say that the digits written are the
  digits of the number, which is what the parsers of the other theories read back.
\<close>

datatype align = Align_Default | Align_Left | Align_Center | Align_Right
datatype sign_mode = OnlyIfNeeded | Sign_Always | Sign_Reserved

definition digit_lookup :: "bool \<Rightarrow> string" where
  "digit_lookup upper_case = (if upper_case then ''0123456789ABCDEF'' else ''0123456789abcdef'')"

function unsigned_digits_loop :: "nat \<Rightarrow> bool \<Rightarrow> bool \<Rightarrow> nat \<Rightarrow> nat \<Rightarrow> bytes" where
  "unsigned_digits_loop base upper_case use_separator digit_count value =
     (if value > 0 \<and> base \<ge> 2 then
        digit_lookup upper_case ! (value mod base)
        # (if use_separator \<and> value div base > 0 \<and> (digit_count + 1) mod 3 = 0 then '','' else [])
        @ unsigned_digits_loop base upper_case use_separator (digit_count + 1) (value div base)
      else [])"
  by pat_completeness auto
termination
  by (relation "measure (\<lambda>(base, u, s, c, value). value)") auto

declare unsigned_digits_loop.simps [simp del]

text \<open>The digits are produced from the last to the first and the buffer is reversed in place.\<close>

definition convert_unsigned_to_string :: "nat \<Rightarrow> nat \<Rightarrow> bool \<Rightarrow> bool \<Rightarrow> bytes option" where
  "convert_unsigned_to_string value base upper_case use_separator =
     (if \<not> (base \<ge> 2 \<and> base \<le> 16) then None
      else if value = 0 then Some ''0''
      else Some (rev (unsigned_digits_loop base upper_case use_separator 0 value)))"

definition put_padding :: "char \<Rightarrow> nat \<Rightarrow> bytes" where
  "put_padding fill amount = replicate amount fill"

definition put_string :: "bytes \<Rightarrow> align \<Rightarrow> nat \<Rightarrow> nat \<Rightarrow> char \<Rightarrow> bytes" where
  "put_string value align min_width max_width fill =
     (let used_by_string = min max_width (length value);
          used_by_padding = max min_width used_by_string - used_by_string;
          value = (if used_by_string < length value then take used_by_string value else value)
      in case align of
           Align_Left \<Rightarrow> value @ put_padding fill used_by_padding
         | Align_Default \<Rightarrow> value @ put_padding fill used_by_padding
         | Align_Center \<Rightarrow> put_padding fill (used_by_padding div 2) @ value
                           @ put_padding fill ((used_by_padding + 1) div 2)
         | Align_Right \<Rightarrow> put_padding fill used_by_padding @ value)"

definition put_prefix :: "nat \<Rightarrow> bool \<Rightarrow> bool \<Rightarrow> sign_mode \<Rightarrow> bool \<Rightarrow> bytes" where
  "put_prefix base with_prefix upper_case sign_mode is_negative =
     (if is_negative then ''-''
      else case sign_mode of Sign_Always \<Rightarrow> ''+'' | Sign_Reserved \<Rightarrow> '' '' | OnlyIfNeeded \<Rightarrow> [])
     @ (if with_prefix then
          if base = 2 then (if upper_case then ''0B'' else ''0b'')
          else if base = 8 then ''0''
          else if base = 16 then (if upper_case then ''0X'' else ''0x'')
          else []
        else [])"

definition put_u64 ::
  "nat \<Rightarrow> nat \<Rightarrow> bool \<Rightarrow> bool \<Rightarrow> bool \<Rightarrow> bool \<Rightarrow> align \<Rightarrow> nat \<Rightarrow> char \<Rightarrow> sign_mode \<Rightarrow> bool \<Rightarrow> bytes option"
where
  "put_u64 value base with_prefix upper_case zero_pad use_separator align min_width fill sign_mode is_negative =
     (let align = (if align = Align_Default then Align_Right else align) in
      case convert_unsigned_to_string value base upper_case use_separator of
        None \<Rightarrow> None
      | Some digits \<Rightarrow>
          (let used_by_prefix =
                 (if align = Align_Right \<and> zero_pad then 0
                  else (if is_negative \<or> sign_mode \<noteq> OnlyIfNeeded then 1 else 0)
                     + (if with_prefix then
                          if base = 8 then 1 else if base = 16 then 2 else if base = 2 then 2 else 0
                        else 0));
               used_by_field = used_by_prefix + length digits;
               used_by_padding = max used_by_field min_width - used_by_field;
               pre = put_prefix base with_prefix upper_case sign_mode is_negative
           in Some (case align of
                Align_Left \<Rightarrow> pre @ digits @ put_padding fill used_by_padding
              | Align_Center \<Rightarrow> put_padding fill (used_by_padding div 2) @ pre @ digits
                                @ put_padding fill ((used_by_padding + 1) div 2)
              | Align_Right \<Rightarrow>
                  if zero_pad then pre @ put_padding CHR ''0'' used_by_padding @ digits
                  else put_padding fill used_by_padding @ pre @ digits
              | Align_Default \<Rightarrow> [])))"

definition put_i64 ::
  "int \<Rightarrow> nat \<Rightarrow> bool \<Rightarrow> bool \<Rightarrow> bool \<Rightarrow> bool \<Rightarrow> align \<Rightarrow> nat \<Rightarrow> char \<Rightarrow> sign_mode \<Rightarrow> bytes option"
where
  "put_i64 value base with_prefix upper_case zero_pad use_separator align min_width fill sign_mode =
     put_u64 (if value = - (2 ^ 63) then 2 ^ 63 else nat (if value < 0 then - value else value))
       base with_prefix upper_case zero_pad use_separator align min_width fill sign_mode (value < 0)"

text \<open>The format specifiers \<^verbatim>\<open>{}\<close>, \<^verbatim>\<open>{:x}\<close> and \<^verbatim>\<open>{:02X}\<close> on an unsigned integer.\<close>

definition format_dec :: "nat \<Rightarrow> bytes" where
  "format_dec v = the (put_u64 v 10 False False False False Align_Default 0 CHR '' '' OnlyIfNeeded False)"

definition format_hex :: "nat \<Rightarrow> bytes" where
  "format_hex v = the (put_u64 v 16 False False False False Align_Default 0 CHR '' '' OnlyIfNeeded False)"

definition format_02X :: "nat \<Rightarrow> bytes" where
  "format_02X v = the (put_u64 v 16 False True True False Align_Default 2 CHR '' '' OnlyIfNeeded False)"

subsection \<open>Digits\<close>

fun digits_rev :: "nat \<Rightarrow> nat \<Rightarrow> nat list" where
  "digits_rev base v = (if v > 0 \<and> base \<ge> 2 then (v mod base) # digits_rev base (v div base) else [])"

declare digits_rev.simps [simp del]

definition digits_of :: "nat \<Rightarrow> nat \<Rightarrow> nat list" where
  "digits_of base v = (if v = 0 then [0] else rev (digits_rev base v))"

lemma digits_rev_value: "base \<ge> 2 \<Longrightarrow> radix_value base (rev (digits_rev base v)) = v"
proof (induction base v rule: digits_rev.induct)
  case (1 base v)
  show ?case
    by (subst digits_rev.simps) (use 1 in \<open>auto simp: algebra_simps\<close>)
qed

lemma digits_rev_bound: "d \<in> set (digits_rev base v) \<Longrightarrow> d < base"
proof (induction base v rule: digits_rev.induct)
  case (1 base v)
  from 1(2) show ?case
    by (subst (asm) digits_rev.simps) (use 1(1) in \<open>auto split: if_splits\<close>)
qed

lemma digits_rev_last_pos: "v > 0 \<Longrightarrow> base \<ge> 2 \<Longrightarrow> digits_rev base v \<noteq> [] \<and> last (digits_rev base v) > 0"
proof (induction base v rule: digits_rev.induct)
  case (1 base v)
  show ?case
  proof (cases "v div base = 0")
    case True
    with 1(2,3) show ?thesis
      by (subst (1 2) digits_rev.simps) (simp add: digits_rev.simps div_eq_0_iff)
  next
    case False
    with 1 have "digits_rev base (v div base) \<noteq> [] \<and> last (digits_rev base (v div base)) > 0" by simp
    with 1(2,3) show ?thesis by (subst (1 2) digits_rev.simps) simp
  qed
qed

lemma digits_rev_length: "v < base ^ k \<Longrightarrow> length (digits_rev base v) \<le> k"
proof (induction k arbitrary: v)
  case 0
  then show ?case by (simp add: digits_rev.simps)
next
  case (Suc k)
  from Suc.prems have "v div base < base ^ k" by (simp add: less_mult_imp_div_less mult.commute)
  from Suc.IH [OF this] show ?case by (subst digits_rev.simps) simp
qed

lemma digits_of_value [simp]: "base \<ge> 2 \<Longrightarrow> radix_value base (digits_of base v) = v"
  by (auto simp: digits_of_def digits_rev_value radix_value_def [of base "[0]"])

lemma digits_of_bound: "base \<ge> 2 \<Longrightarrow> d \<in> set (digits_of base v) \<Longrightarrow> d < base"
  by (auto simp: digits_of_def split: if_splits dest: digits_rev_bound)

lemma digits_of_hd: "base \<ge> 2 \<Longrightarrow> v > 0 \<Longrightarrow> hd (digits_of base v) > 0"
  using digits_rev_last_pos [of v base] by (auto simp: digits_of_def hd_rev)

lemma digits_of_length: "v < base ^ k \<Longrightarrow> k > 0 \<Longrightarrow> length (digits_of base v) \<le> k"
  using digits_rev_length [of v base k] by (auto simp: digits_of_def)

lemma digits_of_nonempty [simp]: "base \<ge> 2 \<Longrightarrow> digits_of base v \<noteq> []"
  using digits_rev_last_pos [of v base] by (auto simp: digits_of_def)

lemma unsigned_digits_loop_map:
  "unsigned_digits_loop base u False k v = map (\<lambda>d. digit_lookup u ! d) (digits_rev base v)"
proof (induction base v arbitrary: k rule: digits_rev.induct)
  case (1 base v)
  then show ?case
    by (subst digits_rev.simps, subst unsigned_digits_loop.simps) simp
qed

lemma convert_unsigned_to_string_digits:
  assumes "2 \<le> base" "base \<le> 16"
  shows "convert_unsigned_to_string v base u False = Some (map (\<lambda>d. digit_lookup u ! d) (digits_of base v))"
  using assms by (auto simp: convert_unsigned_to_string_def digits_of_def unsigned_digits_loop_map
      rev_map digit_lookup_def)

lemma format_dec_digits: "format_dec v = map (\<lambda>d. digit_lookup False ! d) (digits_of 10 v)"
  by (simp add: format_dec_def put_u64_def convert_unsigned_to_string_digits put_prefix_def
      put_padding_def)

lemma format_hex_digits: "format_hex v = map (\<lambda>d. digit_lookup False ! d) (digits_of 16 v)"
  by (simp add: format_hex_def put_u64_def convert_unsigned_to_string_digits put_prefix_def
      put_padding_def)

lemma format_02X_digits:
  assumes "v < 256"
  shows "format_02X v = [digit_lookup True ! (v div 16), digit_lookup True ! (v mod 16)]"
proof -
  have "digits_of 16 v = (if v < 16 then [v] else [v div 16, v mod 16])"
    using assms by (auto simp: digits_of_def digits_rev.simps)
  then show ?thesis
    by (simp add: format_02X_def put_u64_def convert_unsigned_to_string_digits put_prefix_def
        put_padding_def digit_lookup_def)
qed

end
