(* ===== verification/Utf8.thy ===== *)
theory Utf8
  imports StringUtils
begin

text \<open>
  UTF-8: \<^verbatim>\<open>AK/Utf8View.h\<close>, \<^verbatim>\<open>AK/Utf8View.cpp\<close>, \<^verbatim>\<open>AK/UnicodeUtils.h\<close> and
  \<^verbatim>\<open>StringBuilder::append_code_point\<close>.  A \<^verbatim>\<open>Utf8CodePointIterator\<close> is the list of the bytes that are
  left; its pointer difference to the start of the view is a difference of lengths.  The
  operations that assert that the iterator is not at its end return \<^const>\<open>None\<close> when it is.
  \<^verbatim>\<open>validate\<close> and the fast path of \<^verbatim>\<open>calculate_length\<close> call simdutf and are parameters.
\<close>

type_synonym utf8_iterator = bytes

subsection \<open>Encoding\<close>

definition bytes_to_store_code_point_in_utf8 :: "code_point \<Rightarrow> nat" where
  "bytes_to_store_code_point_in_utf8 code_point =
     (if code_point \<le> 0x7f then 1
      else if code_point \<le> 0x7ff then 2
      else if code_point \<le> 0xffff then 3
      else if code_point \<le> 0x10ffff then 4
      else 0)"

text \<open>The bytes given to the callback; \<^const>\<open>None\<close> is the result \<open>-1\<close>.\<close>

definition code_point_to_utf8 :: "code_point \<Rightarrow> bytes option" where
  "code_point_to_utf8 code_point =
     (if code_point \<le> 0x7f then Some [char_of code_point]
      else if code_point \<le> 0x07ff then
        Some [char_of ((drop_bit 6 code_point AND 0x1f) OR 0xc0),
              char_of ((drop_bit 0 code_point AND 0x3f) OR 0x80)]
      else if code_point \<le> 0xffff then
        Some [char_of ((drop_bit 12 code_point AND 0x0f) OR 0xe0),
              char_of ((drop_bit 6 code_point AND 0x3f) OR 0x80),
              char_of ((drop_bit 0 code_point AND 0x3f) OR 0x80)]
      else if code_point \<le> 0x10ffff then
        Some [char_of ((drop_bit 18 code_point AND 0x07) OR 0xf0),
              char_of ((drop_bit 12 code_point AND 0x3f) OR 0x80),
              char_of ((drop_bit 6 code_point AND 0x3f) OR 0x80),
              char_of ((drop_bit 0 code_point AND 0x3f) OR 0x80)]
      else None)"

definition append_code_point :: "bytes \<Rightarrow> code_point \<Rightarrow> bytes" where
  "append_code_point buffer code_point =
     (if code_point \<le> 0x7f then buffer @ [char_of code_point]
      else if code_point \<le> 0x07ff then
        buffer @ [char_of ((drop_bit 6 code_point AND 0x1f) OR 0xc0),
                  char_of ((drop_bit 0 code_point AND 0x3f) OR 0x80)]
      else if code_point \<le> 0xffff then
        buffer @ [char_of ((drop_bit 12 code_point AND 0x0f) OR 0xe0),
                  char_of ((drop_bit 6 code_point AND 0x3f) OR 0x80),
                  char_of ((drop_bit 0 code_point AND 0x3f) OR 0x80)]
      else if code_point \<le> 0x10ffff then
        buffer @ [char_of ((drop_bit 18 code_point AND 0x07) OR 0xf0),
                  char_of ((drop_bit 12 code_point AND 0x3f) OR 0x80),
                  char_of ((drop_bit 6 code_point AND 0x3f) OR 0x80),
                  char_of ((drop_bit 0 code_point AND 0x3f) OR 0x80)]
      else buffer @ [CHR 0xEF, CHR 0xBF, CHR 0xBD])"

definition try_append_code_point :: "bytes \<Rightarrow> code_point \<Rightarrow> bytes" where
  "try_append_code_point buffer code_point =
     (case code_point_to_utf8 code_point of
        Some written \<Rightarrow> buffer @ written
      | None \<Rightarrow> buffer @ [CHR 0xEF, CHR 0xBF, CHR 0xBD])"

definition maximum_utf8_length_from_utf16 :: "u16 list \<Rightarrow> nat" where
  "maximum_utf8_length_from_utf16 code_units =
     foldl (\<lambda>maximum_utf8_length code_unit.
        maximum_utf8_length + 1 + (if code_unit > 0x007f then 1 else 0)
          + (if code_unit > 0x07ff then 1 else 0)) 0 code_units"

subsection \<open>Decoding\<close>

record utf8_encoded_byte_data =
  byte_length :: nat
  encoding_bits :: nat
  encoding_mask :: nat
  first_code_point :: nat
  last_code_point :: nat

definition utf8_encoded_byte_data_table :: "utf8_encoded_byte_data list" where
  "utf8_encoded_byte_data_table =
     [\<lparr>byte_length = 1, encoding_bits = 0b00000000, encoding_mask = 0b10000000,
        first_code_point = 0x0000, last_code_point = 0x007F\<rparr>,
      \<lparr>byte_length = 2, encoding_bits = 0b11000000, encoding_mask = 0b11100000,
        first_code_point = 0x0080, last_code_point = 0x07FF\<rparr>,
      \<lparr>byte_length = 3, encoding_bits = 0b11100000, encoding_mask = 0b11110000,
        first_code_point = 0x0800, last_code_point = 0xFFFF\<rparr>,
      \<lparr>byte_length = 4, encoding_bits = 0b11110000, encoding_mask = 0b11111000,
        first_code_point = 0x10000, last_code_point = 0x10FFFF\<rparr>]"

text \<open>The length and the payload bits; \<^const>\<open>None\<close> is a leading byte that is not valid.\<close>

fun decode_leading_byte_loop :: "utf8_encoded_byte_data list \<Rightarrow> nat \<Rightarrow> (nat \<times> nat) option" where
  "decode_leading_byte_loop [] byte = None"
| "decode_leading_byte_loop (data # datas) byte =
     (if byte AND encoding_mask data \<noteq> encoding_bits data then decode_leading_byte_loop datas byte
      else Some (byte_length data, byte AND (255 - encoding_mask data)))"

definition decode_leading_byte :: "nat \<Rightarrow> (nat \<times> nat) option" where
  "decode_leading_byte byte = decode_leading_byte_loop utf8_encoded_byte_data_table byte"

definition underlying_code_point_length_in_bytes :: "utf8_iterator \<Rightarrow> nat option" where
  "underlying_code_point_length_in_bytes it =
     (case it of
        [] \<Rightarrow> None
      | b # rest \<Rightarrow>
          (case decode_leading_byte (ord_of b) of
             None \<Rightarrow> Some 1
           | Some (code_point_length_in_bytes, value) \<Rightarrow>
               if code_point_length_in_bytes > length it then Some 1
               else if \<not> list_all (\<lambda>c. drop_bit 6 (ord_of c) = 2) (take (code_point_length_in_bytes - 1) rest)
                 then Some 1
               else Some code_point_length_in_bytes))"

definition utf8_next :: "utf8_iterator \<Rightarrow> utf8_iterator option" where
  "utf8_next it =
     (case it of
        [] \<Rightarrow> None
      | b # rest \<Rightarrow>
          if ord_of b \<le> 0x7F then Some rest
          else (case underlying_code_point_length_in_bytes it of
                  None \<Rightarrow> None
                | Some code_point_length_in_bytes \<Rightarrow>
                    if code_point_length_in_bytes > length it then Some rest
                    else Some (drop code_point_length_in_bytes it)))"

fun deref_extension_loop :: "bytes \<Rightarrow> nat \<Rightarrow> nat option" where
  "deref_extension_loop [] code_point_value_so_far = Some code_point_value_so_far"
| "deref_extension_loop (c # cs) code_point_value_so_far =
     (if drop_bit 6 (ord_of c) \<noteq> 2 then None
      else deref_extension_loop cs (push_bit 6 code_point_value_so_far OR (ord_of c AND 63)))"

definition utf8_deref :: "utf8_iterator \<Rightarrow> code_point option" where
  "utf8_deref it =
     (case it of
        [] \<Rightarrow> None
      | b # rest \<Rightarrow>
          if ord_of b \<le> 0x7F then Some (ord_of b)
          else (case decode_leading_byte (ord_of b) of
                  None \<Rightarrow> Some 0xFFFD
                | Some (code_point_length_in_bytes, value) \<Rightarrow>
                    if code_point_length_in_bytes > length it then Some 0xFFFD
                    else (case deref_extension_loop (take (code_point_length_in_bytes - 1) rest) value of
                            None \<Rightarrow> Some 0xFFFD
                          | Some code_point \<Rightarrow>
                              if code_point > 0x10FFFF then Some 0xFFFD else Some code_point)))"

lemma decode_leading_byte_cases:
  assumes "b < 256"
  shows "decode_leading_byte b =
    (if b < 128 then Some (1, b) else if b < 192 then None else if b < 224 then Some (2, b - 192)
     else if b < 240 then Some (3, b - 224) else if b < 248 then Some (4, b - 240) else None)"
proof -
  have m: "b mod 128 = b" if "b < 128" using that by simp
  have m2: "b mod 32 = b - 192" if "192 \<le> b" "b < 224" using that by (simp add: mod_if)
  have m3: "b mod 16 = b - 224" if "224 \<le> b" "b < 240" using that by (simp add: mod_if)
  have m4: "b mod 8 = b - 240" if "240 \<le> b" "b < 248" using that by (simp add: mod_if)
  have d: "b div 128 = 0 \<longleftrightarrow> b < 128" "32 * (b div 32) = 192 \<longleftrightarrow> 192 \<le> b \<and> b < 224"
    "16 * (b div 16) = 224 \<longleftrightarrow> 224 \<le> b \<and> b < 240" "8 * (b div 8) = 240 \<longleftrightarrow> 240 \<le> b \<and> b < 248"
    by auto
  show ?thesis
    using assms m m2 m3 m4 d
    by (simp add: decode_leading_byte_def utf8_encoded_byte_data_table_def utf8_facts)
qed

lemma underlying_length_exists:
  "it \<noteq> [] \<Longrightarrow> \<exists>n. underlying_code_point_length_in_bytes it = Some n \<and> 1 \<le> n \<and> n \<le> length it \<and> n \<le> 4"
  by (cases it)
    (auto simp: underlying_code_point_length_in_bytes_def decode_leading_byte_cases Suc_le_eq
      split: option.splits if_splits)

lemma underlying_length_bounds:
  assumes "it \<noteq> []"
  obtains n where "underlying_code_point_length_in_bytes it = Some n" "1 \<le> n" "n \<le> length it"
    "n \<le> 4"
  using underlying_length_exists [OF assms] by blast

lemma utf8_next_drop:
  "it \<noteq> [] \<Longrightarrow> utf8_next it = Some (drop (the (underlying_code_point_length_in_bytes it)) it)"
  by (cases it)
    (auto simp: utf8_next_def underlying_code_point_length_in_bytes_def decode_leading_byte_cases
      split: option.splits if_splits)

lemma utf8_next_shorter: "utf8_next it = Some it' \<Longrightarrow> length it' < length it"
proof -
  assume a: "utf8_next it = Some it'"
  then have "it \<noteq> []" by (auto simp: utf8_next_def)
  with a show ?thesis
    by (metis diff_less le_less_trans length_drop length_greater_0_conv less_one linorder_not_le
        option.sel underlying_length_bounds utf8_next_drop)
qed

lemma utf8_next_None [simp]: "utf8_next it = None \<longleftrightarrow> it = []"
  using utf8_next_drop [of it] by (cases it) (auto simp: utf8_next_def)

lemma utf8_deref_None [simp]: "utf8_deref it = None \<longleftrightarrow> it = []"
  by (auto simp: utf8_deref_def split: list.splits option.splits)

lemma utf8_deref_range: "utf8_deref it = Some c \<Longrightarrow> c \<le> 0x10FFFF"
  by (auto simp: utf8_deref_def split: list.splits option.splits if_splits)

lemma ext_byte: "x < 64 \<Longrightarrow> drop_bit 6 (x + 128 :: nat) = 2"
  by (auto simp: drop_bit_eq_div intro!: div_nat_eqI)

lemma deref_extension_bytes:
  assumes "x < 64"
  shows "deref_extension_loop (char_of (x + 128) # cs) v = deref_extension_loop cs (64 * v + x)"
  using assms ext_byte [OF assms] by (simp add: utf8_facts mod_if)

lemma drop_bit_0_nat [simp]: "drop_bit 0 (x :: nat) = x"
  by (simp add: drop_bit_eq_div)

definition utf8_encode :: "code_point \<Rightarrow> bytes" where
  "utf8_encode c = append_code_point [] c"

lemma append_code_point_encode: "append_code_point buffer c = buffer @ utf8_encode c"
  by (simp add: append_code_point_def utf8_encode_def)

lemma utf8_encode_bytes:
  "c \<le> 0x7F \<Longrightarrow> utf8_encode c = [char_of c]"
  "0x7F < c \<Longrightarrow> c \<le> 0x7FF \<Longrightarrow> utf8_encode c = [char_of (c div 64 + 192), char_of (c mod 64 + 128)]"
  "0x7FF < c \<Longrightarrow> c \<le> 0xFFFF \<Longrightarrow> utf8_encode c =
     [char_of (c div 4096 + 224), char_of (c div 64 mod 64 + 128), char_of (c mod 64 + 128)]"
  "0xFFFF < c \<Longrightarrow> c \<le> 0x10FFFF \<Longrightarrow> utf8_encode c =
     [char_of (c div 262144 + 240), char_of (c div 4096 mod 64 + 128),
      char_of (c div 64 mod 64 + 128), char_of (c mod 64 + 128)]"
  by (simp_all add: utf8_encode_def append_code_point_def drop_bit_eq_div utf8_facts div_less_iff_less_mult)

lemma try_append_code_point_same: "try_append_code_point buffer c = append_code_point buffer c"
  by (simp add: try_append_code_point_def append_code_point_def code_point_to_utf8_def)

text \<open>What the decoder reads from well-formed sequences of each length.\<close>

definition reads_as :: "bytes \<Rightarrow> code_point \<Rightarrow> bool" where
  "reads_as s c \<longleftrightarrow> (\<forall>rest. utf8_deref (s @ rest) = Some c \<and> utf8_next (s @ rest) = Some rest
     \<and> underlying_code_point_length_in_bytes (s @ rest) = Some (length s))"

lemmas decoder_defs = reads_as_def utf8_deref_def utf8_next_def
  underlying_code_point_length_in_bytes_def decode_leading_byte_cases

lemma reads_as_1: "a < 128 \<Longrightarrow> reads_as [char_of a] a"
  by (simp add: decoder_defs)

lemma reads_as_2:
  "a < 32 \<Longrightarrow> x < 64 \<Longrightarrow> reads_as [char_of (a + 192), char_of (x + 128)] (64 * a + x)"
  by (simp add: decoder_defs ext_byte deref_extension_bytes del: deref_extension_loop.simps(2))

lemma reads_as_3:
  "a < 16 \<Longrightarrow> x < 64 \<Longrightarrow> y < 64 \<Longrightarrow>
     reads_as [char_of (a + 224), char_of (x + 128), char_of (y + 128)] (64 * (64 * a + x) + y)"
  by (simp add: decoder_defs ext_byte deref_extension_bytes del: deref_extension_loop.simps(2))

lemma reads_as_4:
  "a < 8 \<Longrightarrow> x < 64 \<Longrightarrow> y < 64 \<Longrightarrow> z < 64 \<Longrightarrow> 64 * (64 * (64 * a + x) + y) + z \<le> 0x10FFFF \<Longrightarrow>
     reads_as [char_of (a + 240), char_of (x + 128), char_of (y + 128), char_of (z + 128)]
       (64 * (64 * (64 * a + x) + y) + z)"
  by (simp add: decoder_defs ext_byte deref_extension_bytes del: deref_extension_loop.simps(2))

lemma reads_as_encode:
  assumes "c \<le> 0x10FFFF"
  shows "reads_as (utf8_encode c) c"
proof -
  have split: "c div 4096 = c div 64 div 64" "c div 262144 = c div 64 div 64 div 64"
    by (simp_all flip: div_mult2_eq)
  consider (1) "c \<le> 0x7F" | (2) "0x7F < c" "c \<le> 0x7FF" | (3) "0x7FF < c" "c \<le> 0xFFFF"
    | (4) "0xFFFF < c" "c \<le> 0x10FFFF" using assms by linarith
  then show ?thesis
  proof cases
    case 1
    then show ?thesis by (simp add: utf8_encode_bytes(1) reads_as_1)
  next
    case 2
    then have "c div 64 < 32" by auto
    from reads_as_2 [OF this, of "c mod 64"] 2 show ?thesis
      by (simp add: utf8_encode_bytes(2))
  next
    case 3
    then have "c div 4096 < 16" by auto
    note r = reads_as_3 [OF this, of "c div 64 mod 64" "c mod 64"]
    have "64 * (64 * (c div 4096) + c div 64 mod 64) + c mod 64 = c"
      unfolding split mult_div_mod_eq ..
    with r 3 show ?thesis by (simp only: utf8_encode_bytes(3) mod_less_divisor zero_less_numeral)
  next
    case 4
    then have "c div 262144 < 8" by auto
    note r = reads_as_4 [OF this, of "c div 4096 mod 64" "c div 64 mod 64" "c mod 64"]
    have "64 * (64 * (64 * (c div 262144) + c div 4096 mod 64) + c div 64 mod 64) + c mod 64 = c"
      unfolding split mult_div_mod_eq ..
    with r 4 show ?thesis by (simp only: utf8_encode_bytes(4) mod_less_divisor zero_less_numeral)
  qed
qed

lemma utf8_deref_encode:
  assumes "c \<le> 0x10FFFF"
  shows "utf8_deref (utf8_encode c @ rest) = Some c"
    and "utf8_next (utf8_encode c @ rest) = Some rest"
    and "underlying_code_point_length_in_bytes (utf8_encode c @ rest) = Some (length (utf8_encode c))"
  using reads_as_encode [OF assms] by (auto simp: reads_as_def)

subsection \<open>Operations of a view\<close>

text \<open>The code points that a loop over a view visits.\<close>

function utf8_decode :: "utf8_iterator \<Rightarrow> code_point list" where
  "utf8_decode it =
     (case (utf8_deref it, utf8_next it) of
        (Some code_point, Some it') \<Rightarrow> code_point # utf8_decode it'
      | _ \<Rightarrow> [])"
  by pat_completeness auto
termination
  by (relation "measure length") (auto dest: utf8_next_shorter utf8_next_shorter [OF sym])

declare utf8_decode.simps [simp del]

function iterator_at_byte_offset_loop :: "nat \<Rightarrow> nat \<Rightarrow> utf8_iterator \<Rightarrow> utf8_iterator" where
  "iterator_at_byte_offset_loop byte_offset current_offset it =
     (if it = [] then []
      else if current_offset \<ge> byte_offset then it
      else (case (underlying_code_point_length_in_bytes it, utf8_next it) of
              (Some n, Some it') \<Rightarrow> iterator_at_byte_offset_loop byte_offset (current_offset + n) it'
            | _ \<Rightarrow> []))"
  by pat_completeness auto
termination
  by (relation "measure (\<lambda>(byte_offset, current_offset, it). length it)") (auto dest: utf8_next_shorter utf8_next_shorter [OF sym])

declare iterator_at_byte_offset_loop.simps [simp del]

definition iterator_at_byte_offset :: "bytes \<Rightarrow> nat \<Rightarrow> utf8_iterator" where
  "iterator_at_byte_offset view byte_offset = iterator_at_byte_offset_loop byte_offset 0 view"

function byte_offset_of_loop :: "nat \<Rightarrow> nat \<Rightarrow> utf8_iterator \<Rightarrow> nat" where
  "byte_offset_of_loop code_point_offset byte_offset it =
     (if it = [] then byte_offset
      else if code_point_offset = 0 then byte_offset
      else (case (underlying_code_point_length_in_bytes it, utf8_next it) of
              (Some n, Some it') \<Rightarrow> byte_offset_of_loop (code_point_offset - 1) (byte_offset + n) it'
            | _ \<Rightarrow> byte_offset))"
  by pat_completeness auto
termination
  by (relation "measure (\<lambda>(c, b, it). length it)") (auto dest: utf8_next_shorter utf8_next_shorter [OF sym])

declare byte_offset_of_loop.simps [simp del]

definition byte_offset_of :: "bytes \<Rightarrow> nat \<Rightarrow> nat" where
  "byte_offset_of view code_point_offset = byte_offset_of_loop code_point_offset 0 view"

text \<open>\<^const>\<open>None\<close> is \<^verbatim>\<open>VERIFY_NOT_REACHED\<close> (or a substring out of range).\<close>

function unicode_substring_view_loop ::
  "bytes \<Rightarrow> nat \<Rightarrow> nat \<Rightarrow> nat \<Rightarrow> nat \<Rightarrow> utf8_iterator \<Rightarrow> bytes option"
where
  "unicode_substring_view_loop view code_point_offset code_point_length code_point_index offset_in_bytes it =
     (case utf8_next it of
        None \<Rightarrow> None
      | Some it' \<Rightarrow>
          (let offset_in_bytes = (if code_point_index = code_point_offset then length view - length it
                                  else offset_in_bytes) in
           if code_point_index = code_point_offset + code_point_length - 1 then
             Some (take ((length view - length it') - offset_in_bytes) (drop offset_in_bytes view))
           else unicode_substring_view_loop view code_point_offset code_point_length
                  (code_point_index + 1) offset_in_bytes it'))"
  by pat_completeness auto
termination
  by (relation "measure (\<lambda>(view, off, l, i, b, it). length it)") (auto dest: utf8_next_shorter utf8_next_shorter [OF sym])

declare unicode_substring_view_loop.simps [simp del]

definition unicode_substring_view :: "bytes \<Rightarrow> nat \<Rightarrow> nat \<Rightarrow> bytes option" where
  "unicode_substring_view view code_point_offset code_point_length =
     (if code_point_length = 0 then Some []
      else unicode_substring_view_loop view code_point_offset code_point_length 0 0 view)"

function calculate_length_loop :: "bytes \<Rightarrow> nat \<Rightarrow> nat \<Rightarrow> nat" where
  "calculate_length_loop view i len =
     (if i < length view then
        (case decode_leading_byte (ord_of (view ! i)) of
           Some (n, code_point) \<Rightarrow> calculate_length_loop view (i + n) (len + 1)
         | None \<Rightarrow> calculate_length_loop view (i + 1) (len + 1))
      else len)"
  by pat_completeness auto
termination
  by (relation "measure (\<lambda>(view, i, len). length view - i)")
    (auto simp: decode_leading_byte_cases split: if_splits)

declare calculate_length_loop.simps [simp del]

definition calculate_length :: "(bytes \<Rightarrow> bool) \<Rightarrow> (bytes \<Rightarrow> nat) \<Rightarrow> bytes \<Rightarrow> nat" where
  "calculate_length validate count_utf8 view =
     (if validate view then count_utf8 view else calculate_length_loop view 0 0)"

definition utf8_contains :: "bytes \<Rightarrow> code_point \<Rightarrow> bool" where
  "utf8_contains view needle =
     (if needle \<le> 0x7f then list_ex (\<lambda>code_unit. ord_of code_unit = needle) view
      else list_ex (\<lambda>code_point. code_point = needle) (utf8_decode view))"

function utf8_trim_left_loop :: "bytes \<Rightarrow> utf8_iterator \<Rightarrow> nat \<Rightarrow> nat \<Rightarrow> (nat \<times> nat) option" where
  "utf8_trim_left_loop characters it substring_start substring_length =
     (case (utf8_deref it, underlying_code_point_length_in_bytes it, utf8_next it) of
        (Some code_point, Some n, Some it') \<Rightarrow>
          if substring_length = 0 then None
          else if \<not> utf8_contains characters code_point then Some (substring_start, substring_length)
          else utf8_trim_left_loop characters it' (substring_start + n) (substring_length - n)
      | _ \<Rightarrow> Some (substring_start, substring_length))"
  by pat_completeness auto
termination
  by (relation "measure (\<lambda>(c, it, s, l). length it)") (auto dest: utf8_next_shorter utf8_next_shorter [OF sym])

declare utf8_trim_left_loop.simps [simp del]

function utf8_seen_whitespace_loop :: "bytes \<Rightarrow> utf8_iterator \<Rightarrow> nat \<Rightarrow> nat" where
  "utf8_seen_whitespace_loop characters it seen_whitespace_length =
     (case (utf8_deref it, underlying_code_point_length_in_bytes it, utf8_next it) of
        (Some code_point, Some n, Some it') \<Rightarrow>
          utf8_seen_whitespace_loop characters it'
            (if utf8_contains characters code_point then seen_whitespace_length + n else 0)
      | _ \<Rightarrow> seen_whitespace_length)"
  by pat_completeness auto
termination
  by (relation "measure (\<lambda>(c, it, s). length it)") (auto dest: utf8_next_shorter utf8_next_shorter [OF sym])

declare utf8_seen_whitespace_loop.simps [simp del]

definition utf8_trim :: "bytes \<Rightarrow> bytes \<Rightarrow> trim_mode \<Rightarrow> bytes" where
  "utf8_trim view characters mode =
     (case (if mode = TrimLeft \<or> mode = TrimBoth then utf8_trim_left_loop characters view 0 (length view)
            else Some (0, length view)) of
        None \<Rightarrow> []
      | Some (substring_start, substring_length) \<Rightarrow>
          if mode = TrimRight \<or> mode = TrimBoth then
            (let seen_whitespace_length = utf8_seen_whitespace_loop characters view 0 in
             if seen_whitespace_length \<ge> substring_length then []
             else take (substring_length - seen_whitespace_length) (drop substring_start view))
          else take substring_length (drop substring_start view))"

text \<open>
  \<^verbatim>\<open>peek\<close>: the outer \<^const>\<open>None\<close> is the assertion of the iterator, the inner one the empty result
  at the end of the input.
\<close>

fun utf8_peek_loop :: "nat \<Rightarrow> utf8_iterator \<Rightarrow> code_point option option" where
  "utf8_peek_loop 0 it = map_option Some (utf8_deref it)"
| "utf8_peek_loop (Suc n) it =
     (case utf8_next it of
        None \<Rightarrow> None
      | Some it' \<Rightarrow> if it' = [] then Some None else utf8_peek_loop n it')"

definition utf8_peek :: "utf8_iterator \<Rightarrow> nat \<Rightarrow> code_point option option" where
  "utf8_peek it offset =
     (if offset = 0 then (if it = [] then Some None else map_option Some (utf8_deref it))
      else utf8_peek_loop offset it)"

subsection \<open>Round trip\<close>

abbreviation utf8_encode_all :: "code_point list \<Rightarrow> bytes" where
  "utf8_encode_all cps \<equiv> concat (map utf8_encode cps)"

lemma utf8_encode_not_Nil [simp]: "utf8_encode c \<noteq> []"
  by (simp add: utf8_encode_def append_code_point_def)

lemma utf8_decode_Nil [simp]: "utf8_decode [] = []"
  by (simp add: utf8_decode.simps utf8_deref_def)

lemma utf8_decode_encode_Cons:
  "c \<le> 0x10FFFF \<Longrightarrow> utf8_decode (utf8_encode c @ rest) = c # utf8_decode rest"
  by (subst utf8_decode.simps) (simp add: utf8_deref_encode)

lemma utf8_decode_encode_all:
  "list_all (\<lambda>c. c \<le> 0x10FFFF) cps \<Longrightarrow> utf8_decode (utf8_encode_all cps @ rest) = cps @ utf8_decode rest"
  by (induction cps) (auto simp: utf8_decode_encode_Cons)

lemma foldl_append_code_point: "foldl append_code_point buffer cps = buffer @ utf8_encode_all cps"
  by (induction cps arbitrary: buffer) (auto simp: append_code_point_encode)

lemma utf8_decode_range: "list_all (\<lambda>c. c \<le> 0x10FFFF) (utf8_decode it)"
proof (induction it rule: utf8_decode.induct)
  case (1 it)
  then show ?case
    by (subst utf8_decode.simps) (auto split: option.splits dest: utf8_deref_range)
qed

lemma utf8_decode_step:
  "utf8_deref it = Some c \<Longrightarrow> utf8_next it = Some it' \<Longrightarrow> utf8_decode it = c # utf8_decode it'"
  by (subst utf8_decode.simps) simp

lemma utf8_iterator_cases:
  obtains (finished) "it = []"
    | (step) c it' where "utf8_deref it = Some c" "utf8_next it = Some it'"
        "utf8_decode it = c # utf8_decode it'" "it \<noteq> []"
  by (cases "it = []"; cases "utf8_deref it"; cases "utf8_next it") (auto dest: utf8_decode_step)

lemma utf8_decode_eq_Nil [simp]: "utf8_decode it = [] \<longleftrightarrow> it = []"
  by (cases it rule: utf8_iterator_cases) auto

lemma utf8_decode_eq_Cons:
  "utf8_decode it = c # cs \<longleftrightarrow> utf8_deref it = Some c \<and> (\<exists>it'. utf8_next it = Some it' \<and> utf8_decode it' = cs)"
  by (cases it rule: utf8_iterator_cases) (auto simp: utf8_deref_def)

lemma utf8_iterator_step:
  assumes "it \<noteq> []"
  obtains c it' where "utf8_deref it = Some c" "utf8_next it = Some it'"
    "utf8_decode it = c # utf8_decode it'" "c \<le> 0x10FFFF"
proof -
  obtain c it' where "utf8_deref it = Some c" "utf8_next it = Some it'"
    using assms by (cases "utf8_deref it"; cases "utf8_next it") auto
  moreover from this have "utf8_decode it = c # utf8_decode it'" by (simp add: utf8_decode_eq_Cons)
  ultimately show thesis using that utf8_deref_range by blast
qed

text \<open>ASCII bytes stand for themselves.\<close>

lemma utf8_ascii_Cons:
  assumes "ord_of b < 128"
  shows "utf8_deref (b # rest) = Some (ord_of b)" "utf8_next (b # rest) = Some rest"
    "underlying_code_point_length_in_bytes (b # rest) = Some 1"
    "utf8_decode (b # rest) = ord_of b # utf8_decode rest"
proof -
  show d: "utf8_deref (b # rest) = Some (ord_of b)" and n: "utf8_next (b # rest) = Some rest"
    and "underlying_code_point_length_in_bytes (b # rest) = Some 1"
    using assms by (auto simp: utf8_deref_def utf8_next_def underlying_code_point_length_in_bytes_def
        decode_leading_byte_cases)
  show "utf8_decode (b # rest) = ord_of b # utf8_decode rest"
    by (subst utf8_decode.simps) (simp add: d n)
qed

lemma utf8_decode_ascii: "list_all (\<lambda>b. ord_of b < 128) s \<Longrightarrow> utf8_decode s = map ord_of s"
  by (induction s) (auto simp: utf8_ascii_Cons)

lemma byte_offset_of_loop_encode:
  "list_all (\<lambda>c. c \<le> 0x10FFFF) cps \<Longrightarrow> n \<le> length cps \<Longrightarrow>
     byte_offset_of_loop n b (utf8_encode_all cps) = b + length (utf8_encode_all (take n cps))"
proof (induction cps arbitrary: n b)
  case Nil
  then show ?case by (simp add: byte_offset_of_loop.simps)
next
  case (Cons c cps)
  then show ?case
    by (subst byte_offset_of_loop.simps) (cases n; simp add: utf8_deref_encode)
qed

lemma iterator_at_byte_offset_loop_encode:
  "list_all (\<lambda>c. c \<le> 0x10FFFF) cps \<Longrightarrow> n \<le> length cps \<Longrightarrow>
     iterator_at_byte_offset_loop (b + length (utf8_encode_all (take n cps))) b (utf8_encode_all cps)
       = utf8_encode_all (drop n cps)"
proof (induction cps arbitrary: n b)
  case Nil
  then show ?case by (simp add: iterator_at_byte_offset_loop.simps)
next
  case (Cons c cps)
  show ?case
  proof (cases n)
    case 0
    then show ?thesis by (simp add: iterator_at_byte_offset_loop.simps)
  next
    case (Suc m)
    with Cons.IH [of m "b + length (utf8_encode c)"] Cons.prems show ?thesis
      by (subst iterator_at_byte_offset_loop.simps) (simp add: utf8_deref_encode add.assoc)
  qed
qed

interpretation utf8: printer "\<lambda>cps. utf8_encode_all cps" "\<lambda>s. Some (utf8_decode s)"
  "list_all (\<lambda>c. c \<le> 0x10FFFF)"
  by unfold_locales (use utf8_decode_encode_all [of _ "[]"] in simp)

lemma iterator_at_byte_offset_loop_reaches:
  "(\<lambda>a b. utf8_next a = Some b)\<^sup>*\<^sup>* it (iterator_at_byte_offset_loop n cur it)
   \<and> (cur + (length it - length (iterator_at_byte_offset_loop n cur it)) \<ge> n
      \<or> iterator_at_byte_offset_loop n cur it = [])"
proof (induction n cur it rule: iterator_at_byte_offset_loop.induct)
  case (1 n cur it)
  show ?case
  proof (cases "it = [] \<or> cur \<ge> n")
    case True
    then show ?thesis by (auto simp: iterator_at_byte_offset_loop.simps)
  next
    case False
    then obtain k it' where k: "underlying_code_point_length_in_bytes it = Some k" "k \<le> length it"
      and it': "utf8_next it = Some it'" "it' = drop k it"
      using underlying_length_bounds utf8_next_drop by (metis option.sel)
    have eq: "iterator_at_byte_offset_loop n cur it = iterator_at_byte_offset_loop n (cur + k) it'"
      using False k it' by (subst iterator_at_byte_offset_loop.simps) simp
    have le: "length (iterator_at_byte_offset_loop n (cur + k) it') \<le> length it'"
      if "(\<lambda>a b. utf8_next a = Some b)\<^sup>*\<^sup>* it' (iterator_at_byte_offset_loop n (cur + k) it')"
      using that by (induction rule: rtranclp_induct) (auto dest: utf8_next_shorter)
    have "it \<noteq> []" "\<not> cur \<ge> n" using False by auto
    note IH = 1 [OF this _ k(1) it'(1)]
    show ?thesis
      using IH le k(2) it' eq by (auto intro: converse_rtranclp_into_rtranclp)
  qed
qed

lemma decode_C3_61: "utf8_decode [CHR 0xC3, CHR ''a''] = [0xFFFD, 0x61]"
  by (simp add: utf8_decode.simps utf8_deref_def utf8_next_def underlying_code_point_length_in_bytes_def
      decode_leading_byte_cases drop_bit_eq_div)

subsection \<open>Properties\<close>

text \<open>
  C17. UTF-8 round trip.  Iterating over what \<^verbatim>\<open>StringBuilder::append_code_point\<close> wrote gives the
  code points back (surrogates included), \<^verbatim>\<open>byte_offset_of\<close> gives the offset at which each of
  them was written, and \<^verbatim>\<open>iterator_at_byte_offset\<close> at that offset continues with exactly the
  remaining ones.
\<close>

theorem utf8_roundtrip:
  assumes "list_all (\<lambda>c. c \<le> 0x10FFFF) cps" "n \<le> length cps"
    and "view = foldl append_code_point [] cps"
    and "offset = length (foldl append_code_point [] (take n cps))"
  shows "utf8_decode view = cps
     \<and> byte_offset_of view n = offset
     \<and> iterator_at_byte_offset view offset = foldl append_code_point [] (drop n cps)"
  using utf8.parse_print [OF assms(1)] byte_offset_of_loop_encode [OF assms(1,2), of 0]
    iterator_at_byte_offset_loop_encode [OF assms(1,2), of 0] assms(3,4)
  by (simp add: foldl_append_code_point byte_offset_of_def iterator_at_byte_offset_def)

theorem utf8_roundtrip_witness:
  "utf8_decode (foldl append_code_point [] [0x68, 0xE9, 0x20AC, 0x1F41E]) = [0x68, 0xE9, 0x20AC, 0x1F41E]"
  using utf8_roundtrip [of "[0x68, 0xE9, 0x20AC, 0x1F41E]" 0] by simp

text \<open>
  C18. Decoding is total.  On any bytes, valid or not, the iterator that is not at its end gives a
  code point of the Unicode range and moves on by one to four bytes, so that every loop over a
  view ends; and \<^verbatim>\<open>iterator_at_byte_offset\<close> returns a position that iteration reaches, at or after
  the offset it was asked for, or the end.
\<close>

theorem utf8_iteration_total:
  "(it \<noteq> [] \<longrightarrow> (\<exists>c k. utf8_deref it = Some c \<and> c \<le> 0x10FFFF \<and> 1 \<le> k \<and> k \<le> 4 \<and> k \<le> length it
       \<and> underlying_code_point_length_in_bytes it = Some k \<and> utf8_next it = Some (drop k it)))
   \<and> (\<lambda>a b. utf8_next a = Some b)\<^sup>*\<^sup>* view (iterator_at_byte_offset view n)
   \<and> (length view - length (iterator_at_byte_offset view n) \<ge> n \<or> iterator_at_byte_offset view n = [])"
proof -
  have "\<exists>c k. utf8_deref it = Some c \<and> c \<le> 0x10FFFF \<and> 1 \<le> k \<and> k \<le> 4 \<and> k \<le> length it
       \<and> underlying_code_point_length_in_bytes it = Some k \<and> utf8_next it = Some (drop k it)"
    if "it \<noteq> []"
    using underlying_length_exists [OF that] utf8_next_drop [OF that] utf8_deref_None [of it]
      utf8_deref_range [of it] that
    by (cases "utf8_deref it") auto
  then show ?thesis
    using iterator_at_byte_offset_loop_reaches [of view n 0] by (simp add: iterator_at_byte_offset_def)
qed

theorem utf8_iteration_total_witness:
  "\<exists>c k. utf8_deref [CHR 0xC3, CHR ''a''] = Some c \<and> utf8_next [CHR 0xC3, CHR ''a''] = Some (drop k [CHR 0xC3, CHR ''a''])"
  using utf8_iteration_total [of "[CHR 0xC3, CHR ''a'']" "[]" 0] by auto

text \<open>
  \<^verbatim>\<open>Utf8View::length\<close>.  For bytes that the validator rejects, \<^verbatim>\<open>calculate_length\<close> trusts the
  length that a leading byte announces and does not look at the bytes that follow, unlike the
  iterator it means to imitate: it finds one code point in \<open>C3 61\<close>, in which iteration visits two.
\<close>

lemma calculate_length_differs_from_iteration:
  assumes "\<not> validate [CHR 0xC3, CHR ''a'']"
  shows "calculate_length validate count_utf8 [CHR 0xC3, CHR ''a''] = 1
     \<and> utf8_decode [CHR 0xC3, CHR ''a''] = [0xFFFD, 0x61]"
proof -
  have "calculate_length_loop [CHR 0xC3, CHR ''a''] 0 0 = 1"
    by (simp add: calculate_length_loop.simps decode_leading_byte_cases)
  moreover have "utf8_decode [CHR 0xC3, CHR ''a''] = [0xFFFD, 0x61]" by (rule decode_C3_61)
  ultimately show ?thesis using assms by (simp add: calculate_length_def)
qed

lemma calculate_length_differs_from_iteration_witness:
  "calculate_length (\<lambda>s. s = utf8_encode_all (utf8_decode s)) (\<lambda>s. length (utf8_decode s)) [CHR 0xC3, CHR ''a'']
     \<noteq> length (utf8_decode [CHR 0xC3, CHR ''a''])"
proof -
  note d = decode_C3_61
  then have "\<not> (\<lambda>s. s = utf8_encode_all (utf8_decode s)) [CHR 0xC3, CHR ''a'']"
    by (simp add: utf8_encode_bytes)
  note calculate_length_differs_from_iteration [of "\<lambda>s. s = utf8_encode_all (utf8_decode s)"
      "\<lambda>s. length (utf8_decode s)", OF this]
  then show ?thesis by (simp only: d list.size)
qed

end
