(* ===== verification/Percent.thy ===== *)
theory Percent
  imports Utf8 Format
begin

text \<open>
  Percent-encoding, from \<^verbatim>\<open>LibURL/URL.cpp\<close>: the percent-encode sets, \<^verbatim>\<open>percent_encode\<close> and
  \<^verbatim>\<open>percent_decode\<close>.  \<^const>\<open>None\<close> stands for a failing assertion; the lemmas show that none of them
  can fail on the code points that a UTF-8 iterator gives.
\<close>

datatype percent_encode_set =
    C0Control | Fragment | Query | SpecialQuery | Path | Userinfo | Component
  | ApplicationXWWWFormUrlencoded | EncodeURI

definition sv_contains :: "string \<Rightarrow> code_point \<Rightarrow> bool" where
  "sv_contains sv code_point \<longleftrightarrow> char_of code_point \<in> set sv"

text \<open>Each set but the first two extends an earlier one; the depth bounds the recursion.\<close>

fun encode_set_depth :: "percent_encode_set \<Rightarrow> nat" where
  "encode_set_depth C0Control = 0"
| "encode_set_depth Fragment = 1"
| "encode_set_depth Query = 1"
| "encode_set_depth SpecialQuery = 2"
| "encode_set_depth Path = 2"
| "encode_set_depth Userinfo = 3"
| "encode_set_depth Component = 4"
| "encode_set_depth ApplicationXWWWFormUrlencoded = 5"
| "encode_set_depth EncodeURI = 0"

function code_point_is_in_percent_encode_set :: "code_point \<Rightarrow> percent_encode_set \<Rightarrow> bool" where
  "code_point_is_in_percent_encode_set code_point C0Control =
     (code_point < 0x20 \<or> code_point > 0x7E)"
| "code_point_is_in_percent_encode_set code_point Fragment =
     (code_point_is_in_percent_encode_set code_point C0Control
      \<or> sv_contains [CHR '' '', CHR 0x22, CHR ''<'', CHR ''>'', CHR 0x60] code_point)"
| "code_point_is_in_percent_encode_set code_point Query =
     (code_point_is_in_percent_encode_set code_point C0Control
      \<or> sv_contains [CHR '' '', CHR 0x22, CHR ''#'', CHR ''<'', CHR ''>''] code_point)"
| "code_point_is_in_percent_encode_set code_point SpecialQuery =
     (code_point_is_in_percent_encode_set code_point Query \<or> code_point = 0x27)"
| "code_point_is_in_percent_encode_set code_point Path =
     (code_point_is_in_percent_encode_set code_point Query
      \<or> sv_contains [CHR ''?'', CHR 0x60, CHR ''{'', CHR ''}''] code_point)"
| "code_point_is_in_percent_encode_set code_point Userinfo =
     (code_point_is_in_percent_encode_set code_point Path
      \<or> sv_contains [CHR ''/'', CHR '':'', CHR '';'', CHR ''='', CHR ''@'', CHR ''['', CHR 0x5C,
           CHR '']'', CHR ''^'', CHR ''|''] code_point)"
| "code_point_is_in_percent_encode_set code_point Component =
     (code_point_is_in_percent_encode_set code_point Userinfo \<or> sv_contains ''$%&+,'' code_point)"
| "code_point_is_in_percent_encode_set code_point ApplicationXWWWFormUrlencoded =
     (code_point_is_in_percent_encode_set code_point Component
      \<or> sv_contains [CHR ''!'', CHR 0x27, CHR ''('', CHR '')'', CHR ''~''] code_point)"
| "code_point_is_in_percent_encode_set code_point EncodeURI =
     (code_point > 0x7E \<or> (\<not> is_ascii_alphanumeric code_point
        \<and> \<not> sv_contains ('';,/?:@&=+$-_.!~*'' @ [CHR 0x27] @ ''()#'') code_point))"
  by pat_completeness auto
termination
  by (relation "measure (\<lambda>(code_point, set). encode_set_depth set)") auto

abbreviation percent_02X :: "nat \<Rightarrow> bytes" where
  "percent_02X v \<equiv> CHR ''%'' # format_02X v"

definition append_percent_encoded :: "bytes \<Rightarrow> code_point \<Rightarrow> bytes option" where
  "append_percent_encoded builder code_point =
     (if code_point \<le> 0x7f then Some (builder @ percent_02X code_point)
      else if code_point \<le> 0x07ff then
        Some (builder @ percent_02X ((drop_bit 6 code_point AND 0x1f) OR 0xc0)
                      @ percent_02X ((code_point AND 0x3f) OR 0x80))
      else if code_point \<le> 0xffff then
        Some (builder @ percent_02X ((drop_bit 12 code_point AND 0x0f) OR 0xe0)
                      @ percent_02X ((drop_bit 6 code_point AND 0x3f) OR 0x80)
                      @ percent_02X ((code_point AND 0x3f) OR 0x80))
      else if code_point \<le> 0x10ffff then
        Some (builder @ percent_02X ((drop_bit 18 code_point AND 0x07) OR 0xf0)
                      @ percent_02X ((drop_bit 12 code_point AND 0x3f) OR 0x80)
                      @ percent_02X ((drop_bit 6 code_point AND 0x3f) OR 0x80)
                      @ percent_02X ((code_point AND 0x3f) OR 0x80))
      else None)"

definition append_percent_encoded_if_necessary ::
  "bytes \<Rightarrow> code_point \<Rightarrow> percent_encode_set \<Rightarrow> bytes option"
where
  "append_percent_encoded_if_necessary builder code_point enc =
     (if code_point_is_in_percent_encode_set code_point enc
      then append_percent_encoded builder code_point
      else Some (append_code_point builder code_point))"

fun percent_encode_loop :: "percent_encode_set \<Rightarrow> bool \<Rightarrow> code_point list \<Rightarrow> bytes \<Rightarrow> bytes option" where
  "percent_encode_loop enc space_as_plus [] builder = Some builder"
| "percent_encode_loop enc space_as_plus (code_point # cps) builder =
     (if space_as_plus \<and> code_point = ord_of CHR '' ''
      then percent_encode_loop enc space_as_plus cps (builder @ ''+'')
      else (case append_percent_encoded_if_necessary builder code_point enc of
              None \<Rightarrow> None
            | Some builder' \<Rightarrow> percent_encode_loop enc space_as_plus cps builder'))"

definition percent_encode :: "bytes \<Rightarrow> percent_encode_set \<Rightarrow> bool \<Rightarrow> bytes option" where
  "percent_encode input enc space_as_plus =
     percent_encode_loop enc space_as_plus (utf8_decode input) []"

text \<open>Whether the value of \<^verbatim>\<open>peek(n)\<close>, 0 at the end of the input, is a hexadecimal digit.\<close>

definition peek_is_hex :: "utf8_iterator \<Rightarrow> nat \<Rightarrow> bool" where
  "peek_is_hex it n =
     (case utf8_peek it n of
        Some (Some code_point) \<Rightarrow> is_ascii_hex_digit code_point
      | _ \<Rightarrow> is_ascii_hex_digit 0)"

function percent_decode_loop :: "utf8_iterator \<Rightarrow> bytes \<Rightarrow> bytes option" where
  "percent_decode_loop it builder =
     (case (utf8_deref it, utf8_next it) of
        (Some code_point, Some it1) \<Rightarrow>
          if code_point \<noteq> ord_of CHR ''%''
          then percent_decode_loop it1 (append_code_point builder code_point)
          else if \<not> peek_is_hex it 1 \<or> \<not> peek_is_hex it 2
          then percent_decode_loop it1 (append_code_point builder code_point)
          else (case (utf8_deref it1, utf8_next it1) of
                  (Some high, Some it2) \<Rightarrow>
                    (case (utf8_deref it2, utf8_next it2) of
                       (Some low, Some it3) \<Rightarrow>
                         (case (parse_ascii_hex_digit high, parse_ascii_hex_digit low) of
                            (Some h, Some l) \<Rightarrow>
                              percent_decode_loop it3 (builder @ [char_of (push_bit 4 h + l)])
                          | _ \<Rightarrow> None)
                     | _ \<Rightarrow> None)
                | _ \<Rightarrow> None)
      | _ \<Rightarrow> Some builder)"
  by pat_completeness auto
termination
  by (relation "measure (\<lambda>(it, builder). length it)")
    (auto dest!: utf8_next_shorter utf8_next_shorter [OF sym])

declare percent_decode_loop.simps [simp del]

definition percent_decode :: "bytes \<Rightarrow> bytes option" where
  "percent_decode input =
     (if CHR ''%'' \<notin> set input then Some input else percent_decode_loop input [])"

subsection \<open>Encoding\<close>

abbreviation percent_byte :: "char \<Rightarrow> bytes" where
  "percent_byte b \<equiv> percent_02X (ord_of b)"

lemma digit_lookup_upper:
  assumes "d < 16"
  shows "parse_ascii_hex_digit (ord_of (digit_lookup True ! d)) = Some d"
    and "is_ascii_uppercase_hex_digit (ord_of (digit_lookup True ! d))"
proof -
  have "\<forall>d\<in>set [0..<16]. parse_ascii_hex_digit (ord_of (digit_lookup True ! d)) = Some d
      \<and> is_ascii_uppercase_hex_digit (ord_of (digit_lookup True ! d))"
    by code_simp
  with assms show "parse_ascii_hex_digit (ord_of (digit_lookup True ! d)) = Some d"
    and "is_ascii_uppercase_hex_digit (ord_of (digit_lookup True ! d))"
    by auto
qed

lemma percent_byte_digits:
  obtains h l where "percent_byte b = [CHR ''%'', h, l]"
    "parse_ascii_hex_digit (ord_of h) = Some (ord_of b div 16)" "is_ascii_uppercase_hex_digit (ord_of h)"
    "parse_ascii_hex_digit (ord_of l) = Some (ord_of b mod 16)" "is_ascii_uppercase_hex_digit (ord_of l)"
proof -
  have "ord_of b div 16 < 16" using ord_less_256 [of b] by (simp add: less_mult_imp_div_less)
  then show thesis
    using that [OF _ digit_lookup_upper digit_lookup_upper] format_02X_digits [of "ord_of b"] by simp
qed

lemma ord_marker [utf8_facts]:
  "ord_of (char_of (x mod 32 + 192 :: nat)) = x mod 32 + 192"
  "ord_of (char_of (x mod 16 + 224 :: nat)) = x mod 16 + 224"
  "ord_of (char_of (x mod 8 + 240 :: nat)) = x mod 8 + 240"
  "ord_of (char_of (x mod 64 + 128 :: nat)) = x mod 64 + 128"
proof -
  have "x mod 32 < 32" "x mod 16 < 16" "x mod 8 < 8" "x mod 64 < 64" by simp_all
  then show "ord_of (char_of (x mod 32 + 192 :: nat)) = x mod 32 + 192"
    "ord_of (char_of (x mod 16 + 224 :: nat)) = x mod 16 + 224"
    "ord_of (char_of (x mod 8 + 240 :: nat)) = x mod 8 + 240"
    "ord_of (char_of (x mod 64 + 128 :: nat)) = x mod 64 + 128"
    by (simp_all add: mod_less)
qed

lemma append_percent_encoded_bytes:
  "c \<le> 0x10FFFF \<Longrightarrow> append_percent_encoded builder c = Some (builder @ concat (map percent_byte (utf8_encode c)))"
  by (simp add: append_percent_encoded_def utf8_encode_def append_code_point_def utf8_facts)

definition encoded_code_point :: "percent_encode_set \<Rightarrow> code_point \<Rightarrow> bytes" where
  "encoded_code_point enc c =
     (if code_point_is_in_percent_encode_set c enc then concat (map percent_byte (utf8_encode c))
      else utf8_encode c)"

lemma append_percent_encoded_if_necessary_eq:
  "c \<le> 0x10FFFF \<Longrightarrow> append_percent_encoded_if_necessary builder c enc = Some (builder @ encoded_code_point enc c)"
  by (simp add: append_percent_encoded_if_necessary_def append_percent_encoded_bytes
      encoded_code_point_def append_code_point_encode)

definition percent_encoded :: "bytes \<Rightarrow> percent_encode_set \<Rightarrow> bool \<Rightarrow> bytes" where
  "percent_encoded input enc space_as_plus =
     concat (map (\<lambda>c. if space_as_plus \<and> c = 32 then ''+'' else encoded_code_point enc c) (utf8_decode input))"

lemma percent_encode_loop_eq:
  "list_all (\<lambda>c. c \<le> 0x10FFFF) cps \<Longrightarrow> percent_encode_loop enc sp cps builder =
     Some (builder @ concat (map (\<lambda>c. if sp \<and> c = 32 then ''+'' else encoded_code_point enc c) cps))"
  by (induction cps arbitrary: builder) (auto simp: append_percent_encoded_if_necessary_eq)

lemma percent_encode_Some [simp]:
  "percent_encode input enc sp = Some (percent_encoded input enc sp)"
  by (simp add: percent_encode_def percent_encoded_def percent_encode_loop_eq utf8_decode_range)

lemma sv_contains_ord: "c < 256 \<Longrightarrow> sv_contains s c \<longleftrightarrow> c \<in> ord_of ` set s"
proof -
  assume "c < 256"
  moreover have "inj ord_of" by (rule injI) simp
  ultimately show ?thesis
    using inj_image_mem_iff [of ord_of "char_of c" "set s"] by (simp add: sv_contains_def)
qed

lemma not_in_set_printable:
  "\<not> code_point_is_in_percent_encode_set c enc \<Longrightarrow> 0x20 \<le> c \<and> c \<le> 0x7E"
  by (cases enc) (auto simp: sv_contains_ord class_defs)

lemma alphanumeric_not_in_set:
  assumes "is_ascii_alphanumeric c"
  shows "\<not> code_point_is_in_percent_encode_set c enc"
proof -
  have "0x30 \<le> c \<and> c \<le> 0x39 \<or> 0x41 \<le> c \<and> c \<le> 0x5A \<or> 0x61 \<le> c \<and> c \<le> 0x7A"
    using assms by (auto simp: class_defs)
  then show ?thesis by (cases enc) (auto simp: sv_contains_ord class_defs)
qed

lemma hex_alphanumeric: "is_ascii_hex_digit c \<Longrightarrow> is_ascii_alphanumeric c"
  "is_ascii_uppercase_hex_digit c \<Longrightarrow> is_ascii_hex_digit c"
  by (auto simp: class_defs)

lemma encoded_code_point_plain:
  "\<not> code_point_is_in_percent_encode_set c enc \<Longrightarrow> encoded_code_point enc c = [char_of c]"
  using not_in_set_printable [of c enc] by (simp add: encoded_code_point_def utf8_encode_bytes)

lemma format_02X_chars: "x \<in> set (format_02X (ord_of b)) \<Longrightarrow> is_ascii_uppercase_hex_digit (ord_of x)"
  by (rule percent_byte_digits [of b]) auto

lemma encoded_code_point_chars:
  assumes "x \<in> set (encoded_code_point enc c)"
  shows "x = CHR ''%'' \<or> is_ascii_uppercase_hex_digit (ord_of x)
    \<or> \<not> code_point_is_in_percent_encode_set (ord_of x) enc"
proof (cases "code_point_is_in_percent_encode_set c enc")
  case True
  with assms show ?thesis by (auto simp: encoded_code_point_def dest: format_02X_chars)
next
  case False
  with assms not_in_set_printable [OF False] show ?thesis by (simp add: encoded_code_point_plain)
qed

lemma percent_encoded_chars:
  assumes "x \<in> set (percent_encoded input enc sp)"
  shows "x = CHR ''%'' \<or> sp \<and> x = CHR ''+'' \<or> \<not> code_point_is_in_percent_encode_set (ord_of x) enc"
  using assms encoded_code_point_chars alphanumeric_not_in_set hex_alphanumeric
  by (fastforce simp: percent_encoded_def split: if_splits)

lemma percent_encoded_printable:
  "x \<in> set (percent_encoded input enc sp) \<Longrightarrow> 0x20 \<le> ord_of x \<and> ord_of x \<le> 0x7E"
  using percent_encoded_chars not_in_set_printable by fastforce

subsection \<open>Decoding\<close>

text \<open>What \<^verbatim>\<open>percent_decode\<close> computes, as a function of the code points.\<close>

fun decoded :: "code_point list \<Rightarrow> bytes" where
  "decoded (c # a # b # cs) =
     (if c = 37 \<and> is_ascii_hex_digit a \<and> is_ascii_hex_digit b
      then char_of (16 * the (parse_ascii_hex_digit a) + the (parse_ascii_hex_digit b)) # decoded cs
      else utf8_encode c @ decoded (a # b # cs))"
| "decoded (c # cs) = utf8_encode c @ decoded cs"
| "decoded [] = []"

lemma hex_0 [simp]: "\<not> is_ascii_hex_digit 0"
  by (simp add: class_defs)

lemma peek_is_hex_1:
  assumes "utf8_next it = Some it1"
  shows "peek_is_hex it 1 \<longleftrightarrow> (\<exists>a cs. utf8_decode it1 = a # cs \<and> is_ascii_hex_digit a)"
proof (cases "it1 = []")
  case True
  with assms show ?thesis by (simp add: peek_is_hex_def utf8_peek_def)
next
  case False
  then obtain a it' where "utf8_deref it1 = Some a" "utf8_decode it1 = a # utf8_decode it'"
    by (rule utf8_iterator_step)
  with assms False show ?thesis by (simp add: peek_is_hex_def utf8_peek_def)
qed

lemma peek_is_hex_2:
  assumes "utf8_next it = Some it1"
  shows "peek_is_hex it 2 \<longleftrightarrow> (\<exists>a b cs. utf8_decode it1 = a # b # cs \<and> is_ascii_hex_digit b)"
proof (cases "it1 = []")
  case True
  with assms show ?thesis by (simp add: peek_is_hex_def utf8_peek_def numeral_2_eq_2)
next
  case False
  then obtain a it2 where it2: "utf8_next it1 = Some it2" "utf8_decode it1 = a # utf8_decode it2"
    by (rule utf8_iterator_step)
  show ?thesis
  proof (cases "it2 = []")
    case True
    with assms False it2 show ?thesis by (simp add: peek_is_hex_def utf8_peek_def numeral_2_eq_2)
  next
    case F: False
    then obtain b it' where "utf8_deref it2 = Some b" "utf8_decode it2 = b # utf8_decode it'"
      by (rule utf8_iterator_step)
    with assms False it2 F show ?thesis by (simp add: peek_is_hex_def utf8_peek_def numeral_2_eq_2)
  qed
qed

lemma decoded_other: "c \<noteq> 37 \<Longrightarrow> decoded (c # cs) = utf8_encode c @ decoded cs"
  by (cases "(c # cs)" rule: decoded.cases) auto

definition two_hex :: "code_point list \<Rightarrow> bool" where
  "two_hex cs \<longleftrightarrow> (\<exists>a b r. cs = a # b # r \<and> is_ascii_hex_digit a \<and> is_ascii_hex_digit b)"

lemma decoded_percent: "\<not> two_hex cs \<Longrightarrow> decoded (37 # cs) = CHR ''%'' # decoded cs"
  by (cases "(37 # cs)" rule: decoded.cases) (auto simp: two_hex_def utf8_encode_bytes char_of_eval)

lemma percent_decode_loop_decoded:
  "percent_decode_loop it builder = Some (builder @ decoded (utf8_decode it))"
proof (induction "length it" arbitrary: it builder rule: less_induct)
  case less
  show ?case
  proof (cases "it = []")
    case True
    then show ?thesis by (simp add: percent_decode_loop.simps utf8_deref_def)
  next
    case False
    then obtain c it1 where it1: "utf8_deref it = Some c" "utf8_next it = Some it1"
      "utf8_decode it = c # utf8_decode it1" by (rule utf8_iterator_step)
    note IH = less [OF utf8_next_shorter [OF it1(2)]]
    show ?thesis
    proof (cases "c = 37 \<and> two_hex (utf8_decode it1)")
      case True
      then obtain a b r where ab: "utf8_decode it1 = a # b # r" "is_ascii_hex_digit a" "is_ascii_hex_digit b"
        by (auto simp: two_hex_def)
      then obtain it2 it3 where it3: "utf8_deref it1 = Some a" "utf8_next it1 = Some it2"
        "utf8_deref it2 = Some b" "utf8_next it2 = Some it3" "utf8_decode it3 = r"
        by (auto simp: utf8_decode_eq_Cons)
      then have "length it3 < length it"
        using utf8_next_shorter [OF it1(2)] utf8_next_shorter [of it1 it2] utf8_next_shorter [of it2 it3] by simp
      with ab it1 it3 True show ?thesis
        using parse_ascii_hex_digit_defined [of a] parse_ascii_hex_digit_defined [of b]
        by (subst percent_decode_loop.simps)
          (auto simp: peek_is_hex_1 [unfolded One_nat_def] peek_is_hex_2 less push_bit_eq_mult mult.commute)
    next
      case False
      with it1 IH show ?thesis
        by (subst percent_decode_loop.simps)
          (auto simp: peek_is_hex_1 [unfolded One_nat_def] peek_is_hex_2 append_code_point_encode decoded_other
            decoded_percent two_hex_def utf8_encode_bytes char_of_eval)
    qed
  qed
qed

lemma percent_decode_Some:
  "percent_decode input = Some (if CHR ''%'' \<in> set input then decoded (utf8_decode input) else input)"
  by (simp add: percent_decode_def percent_decode_loop_decoded)

lemma decoded_without_percent: "37 \<notin> set cps \<Longrightarrow> decoded cps = utf8_encode_all cps"
  by (induction cps) (auto simp: decoded_other)

lemma utf8_encode_percent:
  assumes "list_all (\<lambda>c. c \<le> 0x10FFFF) cps" "CHR ''%'' \<notin> set (utf8_encode_all cps)"
  shows "37 \<notin> set cps"
  using assms(2) by (auto simp: utf8_encode_bytes char_of_eval dest!: bspec [of _ _ 37])

lemma percent_decode_encode_all:
  assumes "list_all (\<lambda>c. c \<le> 0x10FFFF) cps"
  shows "percent_decode (utf8_encode_all cps) = Some (decoded cps)"
  using assms utf8_decode_encode_all [OF assms, of "[]"] utf8_encode_percent [OF assms]
  by (auto simp: percent_decode_Some decoded_without_percent)

lemma decoded_percent_byte:
  "decoded (map ord_of (percent_byte b) @ rest) = b # decoded rest"
proof -
  obtain h l where *: "percent_byte b = [CHR ''%'', h, l]"
    "parse_ascii_hex_digit (ord_of h) = Some (ord_of b div 16)" "is_ascii_uppercase_hex_digit (ord_of h)"
    "parse_ascii_hex_digit (ord_of l) = Some (ord_of b mod 16)" "is_ascii_uppercase_hex_digit (ord_of l)"
    by (rule percent_byte_digits)
  then show ?thesis by (simp add: hex_alphanumeric)
qed

lemma decoded_percent_bytes:
  "decoded (map ord_of (concat (map percent_byte bs)) @ rest) = bs @ decoded rest"
  by (induction bs) (use decoded_percent_byte in auto)

definition encoded_points :: "percent_encode_set \<Rightarrow> code_point list \<Rightarrow> code_point list" where
  "encoded_points enc cps = map ord_of (concat (map (encoded_code_point enc) cps))"

lemma encoded_points_Cons:
  "encoded_points enc (c # cps) =
     (if code_point_is_in_percent_encode_set c enc
      then map ord_of (concat (map percent_byte (utf8_encode c))) @ encoded_points enc cps
      else c # encoded_points enc cps)"
  using not_in_set_printable [of c enc]
  by (auto simp: encoded_points_def encoded_code_point_def utf8_encode_bytes)

lemma decoded_encoded_points_exact:
  assumes "code_point_is_in_percent_encode_set 37 enc"
  shows "decoded (encoded_points enc cps) = utf8_encode_all cps"
proof (induction cps)
  case (Cons c cps)
  show ?case
  proof (cases "code_point_is_in_percent_encode_set c enc")
    case True
    with Cons show ?thesis by (simp add: encoded_points_Cons decoded_percent_bytes)
  next
    case False
    with assms have "c \<noteq> 37" by auto
    with False Cons show ?thesis by (simp add: encoded_points_Cons decoded_other)
  qed
qed (simp add: encoded_points_def)

lemma encoded_head:
  assumes "code_point_is_in_percent_encode_set c enc"
  shows "\<exists>r. map ord_of (concat (map percent_byte (utf8_encode c))) = 37 # r"
  using utf8_encode_not_Nil [of c] by (cases "utf8_encode c") auto

lemma hex_37 [simp]: "\<not> is_ascii_hex_digit 37"
  by (simp add: class_defs)

lemma two_hex_encoded: "two_hex (encoded_points enc cps) \<longleftrightarrow> two_hex cps"
proof -
  have in_set: "\<not> two_hex (encoded_points enc (c # cs)) \<and> \<not> two_hex (c # cs)
      \<and> \<not> two_hex (a # encoded_points enc (c # cs)) \<and> \<not> two_hex (a # c # cs)"
    if "code_point_is_in_percent_encode_set c enc" for a c cs
    using encoded_head [OF that] that alphanumeric_not_in_set hex_alphanumeric
    by (auto simp: encoded_points_Cons two_hex_def)
  show ?thesis
  proof (cases cps)
    case (Cons a cs)
    show ?thesis
    proof (cases "code_point_is_in_percent_encode_set a enc")
      case True
      then show ?thesis using in_set Cons by blast
    next
      case a: False
      show ?thesis
      proof (cases cs)
        case (Cons b ds)
        have e: "encoded_points enc (a # b # ds) = a # encoded_points enc (b # ds)"
          using a by (simp add: encoded_points_Cons)
        show ?thesis
        proof (cases "code_point_is_in_percent_encode_set b enc")
          case True
          with in_set [of b ds a] show ?thesis using Cons \<open>cps = a # cs\<close> e by simp
        next
          case False
          with a Cons \<open>cps = a # cs\<close> show ?thesis
            by (auto simp: encoded_points_Cons two_hex_def)
        qed
      qed (use a Cons in \<open>auto simp: encoded_points_def encoded_code_point_plain two_hex_def\<close>)
    qed
  qed (simp add: encoded_points_def two_hex_def)
qed

lemma decoded_encoded_points:
  assumes "\<not> code_point_is_in_percent_encode_set 37 enc"
  shows "decoded (encoded_points enc cps) = decoded cps"
proof (induction "length cps" arbitrary: cps rule: less_induct)
  case less
  show ?case
  proof (cases cps)
    case (Cons c cs)
    have IH: "decoded (encoded_points enc cs) = decoded cs" using less Cons by simp
    consider "code_point_is_in_percent_encode_set c enc" | "\<not> code_point_is_in_percent_encode_set c enc" "c \<noteq> 37"
      | "c = 37" "\<not> two_hex cs" | "c = 37" "two_hex cs" by blast
    then show ?thesis
    proof cases
      case 1
      with assms have "c \<noteq> 37" by auto
      with 1 IH Cons show ?thesis by (simp add: encoded_points_Cons decoded_percent_bytes decoded_other)
    next
      case 2
      with IH Cons show ?thesis by (simp add: encoded_points_Cons decoded_other)
    next
      case 3
      with assms IH Cons show ?thesis
        by (simp add: encoded_points_Cons decoded_percent two_hex_encoded)
    next
      case 4
      then obtain a b r where r: "cs = a # b # r" "is_ascii_hex_digit a" "is_ascii_hex_digit b"
        by (auto simp: two_hex_def)
      moreover have "decoded (encoded_points enc r) = decoded r" using less Cons r by simp
      ultimately show ?thesis
        using assms 4 Cons alphanumeric_not_in_set hex_alphanumeric by (simp add: encoded_points_Cons)
    qed
  qed (simp add: encoded_points_def)
qed

lemma utf8_decode_percent_encoded:
  "utf8_decode (percent_encoded input enc False) = encoded_points enc (utf8_decode input)"
proof -
  have "list_all (\<lambda>b. ord_of b < 128) (percent_encoded input enc False)"
    using percent_encoded_printable by (force simp: list_all_iff)
  then show ?thesis
    by (simp add: utf8_decode_ascii encoded_points_def percent_encoded_def)
qed

lemma percent_decode_percent_encoded:
  "percent_decode (percent_encoded input enc False) = Some (decoded (encoded_points enc (utf8_decode input)))"
proof -
  let ?e = "percent_encoded input enc False"
  have "utf8_encode_all (map ord_of ?e) = ?e"
  proof -
    have "utf8_encode (ord_of b) = [b]" if "b \<in> set ?e" for b
      using percent_encoded_printable [OF that] by (simp add: utf8_encode_bytes)
    then have "concat (map (\<lambda>b. utf8_encode (ord_of b)) ?e) = concat (map (\<lambda>b. [b]) ?e)"
      by (metis (no_types, lifting) map_eq_conv)
    then show ?thesis by (simp add: comp_def)
  qed
  moreover have "list_all (\<lambda>c. c \<le> 0x10FFFF) (map ord_of ?e)"
    using percent_encoded_printable by (force simp: list_all_iff)
  ultimately have "percent_decode ?e = Some (decoded (map ord_of ?e))"
    using percent_decode_encode_all [of "map ord_of ?e"] by simp
  moreover have "map ord_of ?e = encoded_points enc (utf8_decode input)"
    by (simp add: encoded_points_def percent_encoded_def)
  ultimately show ?thesis by simp
qed

subsection \<open>Properties\<close>



text \<open>
  C20. What percent-encoding leaves in its output.  For any bytes, \<^verbatim>\<open>percent_encode\<close> succeeds, every
  byte of the result is a printable ASCII character, and none of them is in the percent-encode
  set, apart from the \<^verbatim>\<open>%\<close> of the escapes and the \<^verbatim>\<open>+\<close> that was asked for.
\<close>

theorem percent_encode_output:
  "\<exists>encoded. percent_encode input enc space_as_plus = Some encoded
     \<and> list_all (\<lambda>b. 0x20 \<le> ord_of b \<and> ord_of b \<le> 0x7E
          \<and> (b = CHR ''%'' \<or> space_as_plus \<and> b = CHR ''+''
             \<or> code_point_is_in_percent_encode_set (ord_of b) enc = False)) encoded"
  using percent_encoded_chars [of _ input enc space_as_plus]
    percent_encoded_printable [of _ input enc space_as_plus]
  by (force simp: list_all_iff)

end
