(* ===== verification/Ipv4.thy ===== *)
theory Ipv4
  imports Percent
begin

text \<open>
  IPv4 addresses in \<^verbatim>\<open>LibURL/Parser.cpp\<close>: the number parser, the address parser and the
  serializer.  An address is the \<^verbatim>\<open>u32\<close> of \<^verbatim>\<open>Host.h\<close>.  The lemmas on decimal numerals and on
  splitting at one byte are shared with the theories that build on this one.
\<close>

type_synonym ipv4_address = u32

subsection \<open>IPv4\<close>

text \<open>The limit of \<^verbatim>\<open>u32\<close> in the conversions.\<close>

abbreviation u32_max :: nat where
  "u32_max \<equiv> 4294967295"

definition parse_ipv4_digits :: "nat \<Rightarrow> bytes \<Rightarrow> nat option" where
  "parse_ipv4_digits radix input =
     (if radix = 8 \<and> \<not> list_all (\<lambda>c. is_ascii_octal_digit (ord_of c)) input then None
      else if radix = 10 \<and> \<not> list_all (\<lambda>c. is_ascii_digit (ord_of c)) input then None
      else if radix = 16 \<and> \<not> list_all (\<lambda>c. is_ascii_hex_digit (ord_of c)) input then None
      else if radix = 8 then convert_to_uint_from_octal u32_max input True
      else if radix = 10 then convert_to_uint u32_max input True
      else convert_to_uint_from_hex u32_max input True)"

text \<open>The number and the validation error flag.\<close>

definition parse_ipv4_number :: "bytes \<Rightarrow> (nat \<times> bool) option" where
  "parse_ipv4_number input =
     (if input = [] then None
      else
        let (input, radix, validation_error) =
          (if length input \<ge> 2 \<and> (starts_with input ''0X'' CaseSensitive \<or> starts_with input ''0x'' CaseSensitive)
           then (drop 2 input, 16, True)
           else if length input \<ge> 2 \<and> input ! 0 = CHR ''0'' then (drop 1 input, 8, True)
           else (input, 10, False))
        in if input = [] then Some (0, True)
           else (case parse_ipv4_digits radix input of
                   None \<Rightarrow> None
                 | Some output \<Rightarrow> Some (output, validation_error)))"

fun parse_ipv4_parts :: "bytes list \<Rightarrow> nat list \<Rightarrow> nat list option" where
  "parse_ipv4_parts [] numbers = Some numbers"
| "parse_ipv4_parts (part # parts) numbers =
     (case parse_ipv4_number part of
        None \<Rightarrow> None
      | Some (number, validation_error) \<Rightarrow> parse_ipv4_parts parts (numbers @ [number]))"

text \<open>The sum is computed in \<^verbatim>\<open>u32\<close>.\<close>

fun ipv4_sum_loop :: "nat list \<Rightarrow> nat \<Rightarrow> u32 \<Rightarrow> u32" where
  "ipv4_sum_loop [] counter ipv4 = ipv4"
| "ipv4_sum_loop (n # numbers) counter ipv4 =
     ipv4_sum_loop numbers (counter + 1) (ipv4 + of_nat (n * 256 ^ (3 - counter)))"

definition parse_ipv4_address :: "bytes \<Rightarrow> ipv4_address outcome" where
  "parse_ipv4_address input =
     (case split_view input ''.'' Split_KeepEmpty of
        None \<Rightarrow> Crash
      | Some parts \<Rightarrow>
          if parts = [] then Crash
          else
            let parts = (if last parts = [] \<and> length parts > 1 then butlast parts else parts) in
            if length parts > 4 then Failure
            else (case parse_ipv4_parts parts [] of
                    None \<Rightarrow> Failure
                  | Some numbers \<Rightarrow>
                      if list_ex (\<lambda>number. number > 255) (butlast numbers) then Failure
                      else if last numbers \<ge> 256 ^ (5 - length numbers) then Failure
                      else Success (ipv4_sum_loop (butlast numbers) 0 (of_nat (last numbers)))))"

fun serialize_ipv4_loop :: "nat \<Rightarrow> u32 \<Rightarrow> nat list \<Rightarrow> nat list" where
  "serialize_ipv4_loop 0 n output = output"
| "serialize_ipv4_loop (Suc i) n output = serialize_ipv4_loop i (n div 256) (output[i := unat (n mod 256)])"

definition serialize_ipv4_address :: "ipv4_address \<Rightarrow> bytes" where
  "serialize_ipv4_address address =
     (let output = serialize_ipv4_loop 4 address [0, 0, 0, 0]
      in format_dec (output ! 0) @ ''.'' @ format_dec (output ! 1) @ ''.'' @ format_dec (output ! 2)
           @ ''.'' @ format_dec (output ! 3))"

subsection \<open>Splitting at one byte\<close>

lemma first_occurrence_byte: "c \<notin> set p \<Longrightarrow> first_occurrence [c] (p @ c # rest) = Some (length p)"
  by (induction p) auto

lemma first_occurrence_byte_None: "c \<notin> set p \<Longrightarrow> first_occurrence [c] p = None"
  by (induction p) auto

lemma split_loop_join:
  assumes "parts \<noteq> []" "\<forall>p\<in>set parts. c \<notin> set p"
  shows "split_loop [c] Split_KeepEmpty (join_with [c] parts) = parts"
  using assms
proof (induction parts rule: list_nonempty_induct)
  case (single p)
  then show ?case
    by (subst split_loop.simps)
      (simp add: find_string_first_occurrence first_occurrence_byte_None Split_KeepEmpty_def)
next
  case (cons p parts)
  then show ?case
    by (subst split_loop.simps)
      (simp add: join_with_Cons find_string_first_occurrence first_occurrence_byte Split_KeepEmpty_def)
qed

lemma split_view_join_byte:
  assumes "parts \<noteq> []" "\<forall>p\<in>set parts. c \<notin> set p" "join_with [c] parts \<noteq> []"
  shows "split_view (join_with [c] parts) [c] Split_KeepEmpty = Some parts"
  using assms by (simp add: split_view_def split_loop_join)

subsection \<open>Decimal and hexadecimal numerals\<close>

lemma digit_lookup_lower:
  assumes "d < 16"
  shows "parse_ascii_hex_digit (ord_of (digit_lookup False ! d)) = Some d"
    and "is_ascii_hex_digit (ord_of (digit_lookup False ! d))"
    and "hex_value (digit_lookup False ! d) = d"
proof -
  have "\<forall>d\<in>set [0..<16]. parse_ascii_hex_digit (ord_of (digit_lookup False ! d)) = Some d
      \<and> is_ascii_hex_digit (ord_of (digit_lookup False ! d))"
    by code_simp
  with assms show "parse_ascii_hex_digit (ord_of (digit_lookup False ! d)) = Some d"
    and "is_ascii_hex_digit (ord_of (digit_lookup False ! d))"
    by auto
  then show "hex_value (digit_lookup False ! d) = d" by (simp add: hex_value_def)
qed

lemma digit_lookup_dec:
  assumes "d < 10"
  shows "ord_of (digit_lookup False ! d) = 48 + d"
proof -
  have "\<forall>d\<in>set [0..<10]. ord_of (digit_lookup False ! d) = 48 + d" by code_simp
  with assms show ?thesis by auto
qed

lemma format_dec_digits_dec: "list_all (\<lambda>c. is_ascii_digit (ord_of c)) (format_dec v)"
  by (auto simp: format_dec_digits list_all_iff digit_lookup_dec class_defs
      dest!: digits_of_bound [of 10, simplified])

lemma format_dec_value: "radix_value 10 (map (\<lambda>c. ord_of c - 48) (format_dec v)) = v"
proof -
  have "map (\<lambda>c. ord_of c - 48) (format_dec v) = map (\<lambda>d. d) (digits_of 10 v)"
    unfolding format_dec_digits map_map
    by (rule map_cong) (auto simp: digit_lookup_dec dest!: digits_of_bound [of 10, simplified])
  then show ?thesis by simp
qed

lemma format_dec_not_Nil [simp]: "format_dec v \<noteq> []"
  by (simp add: format_dec_digits)

lemma format_dec_leading_zero: "format_dec v ! 0 = CHR ''0'' \<longleftrightarrow> v = 0"
proof -
  have "hd (digits_of 10 v) < 10"
    using digits_of_bound [of 10 "hd (digits_of 10 v)" v] by simp
  then have "digit_lookup False ! (hd (digits_of 10 v)) = CHR ''0'' \<longleftrightarrow> hd (digits_of 10 v) = 0"
    using digit_lookup_dec [of "hd (digits_of 10 v)"] by (auto simp: char_eq_iff_ord digit_lookup_def)
  moreover have "hd (digits_of 10 v) = 0 \<longleftrightarrow> v = 0"
    using digits_of_hd [of 10 v] by (auto simp: digits_of_def)
  ultimately show ?thesis by (simp add: format_dec_digits hd_conv_nth [symmetric] hd_map)
qed

lemma format_dec_0: "format_dec 0 = ''0''"
  by (simp add: format_dec_digits digits_of_def digit_lookup_def)

lemma trim_both_id: "\<forall>c\<in>set s. c \<notin> set cs \<Longrightarrow> trim s cs TrimBoth = s"
proof -
  assume "\<forall>c\<in>set s. c \<notin> set cs"
  then have "dropWhile (\<lambda>c. c \<in> set cs) s = s" "dropWhile (\<lambda>c. c \<in> set cs) (rev s) = rev s"
    by (auto simp: dropWhile_eq_self_iff hd_rev)
  then show ?thesis by (simp add: trim_both)
qed

lemma trim_whitespace_alphanumeric:
  "list_all (\<lambda>c. is_ascii_alphanumeric (ord_of c)) s \<Longrightarrow> trim_whitespace s TrimBoth = s"
  unfolding trim_whitespace_def
  by (rule trim_both_id) (auto simp: list_all_iff class_defs dest!: bspec)

lemma digits_alphanumeric:
  "is_ascii_digit c \<Longrightarrow> is_ascii_alphanumeric c" "is_ascii_octal_digit c \<Longrightarrow> is_ascii_alphanumeric c"
  by (auto simp: class_defs)

lemma parse_ipv4_number_format_dec:
  assumes "v \<le> u32_max"
  shows "parse_ipv4_number (format_dec v) = Some (v, False)"
proof -
  let ?s = "format_dec v"
  have z: "\<not> (length ?s \<ge> 2 \<and> ?s ! 0 = CHR ''0'')"
    by (cases "v = 0") (simp_all add: format_dec_leading_zero format_dec_0)
  have x: "\<not> (length ?s \<ge> 2 \<and> (starts_with ?s ''0X'' CaseSensitive \<or> starts_with ?s ''0x'' CaseSensitive))"
    using z by (auto simp: starts_with_prefix prefix_def)
  have "trim_whitespace ?s TrimBoth = ?s"
    by (rule trim_whitespace_alphanumeric)
      (use format_dec_digits_dec digits_alphanumeric in \<open>auto simp: list_all_iff\<close>)
  then have "convert_to_uint u32_max ?s True = Some v"
    using assms format_dec_value [of v] format_dec_digits_dec [of v]
    by (simp add: convert_to_uint_def uint_loop_Some radix_value_def)
  then show ?thesis
    by (simp add: parse_ipv4_number_def if_not_P [OF x] if_not_P [OF z] parse_ipv4_digits_def
        format_dec_digits_dec del: if_split)
qed

subsection \<open>IPv4\<close>

lemma parse_ipv4_parts_format_dec:
  "\<forall>n\<in>set ns. n \<le> u32_max \<Longrightarrow> parse_ipv4_parts (map format_dec ns) acc = Some (acc @ ns)"
  by (induction ns arbitrary: acc) (auto simp: parse_ipv4_number_format_dec)

lemma format_dec_no_dot: "CHR ''.'' \<notin> set (format_dec v)"
  using format_dec_digits_dec [of v] by (auto simp: list_all_iff class_defs dest!: bspec)

definition ipv4_octets :: "ipv4_address \<Rightarrow> nat list" where
  "ipv4_octets a = [unat a div 16777216, unat a div 65536 mod 256, unat a div 256 mod 256, unat a mod 256]"

lemma unat_less_u32: "unat (a :: u32) < 4294967296"
  using unsigned_less [of a, where 'a = nat] by simp

lemma serialize_ipv4_loop_octets: "serialize_ipv4_loop 4 a [0, 0, 0, 0] = ipv4_octets a"
proof -
  have "unat a div 16777216 mod 256 = unat a div 16777216"
    using unat_less_u32 [of a] by (intro mod_less) (simp add: div_less_iff_less_mult)
  moreover have "serialize_ipv4_loop (Suc (Suc (Suc (Suc 0)))) a [0, 0, 0, 0] =
      [unat (a div 256 div 256 div 256 mod 256), unat (a div 256 div 256 mod 256),
       unat (a div 256 mod 256), unat (a mod 256)]"
    by (simp only: serialize_ipv4_loop.simps list_update.simps nat.case)
  moreover have "(4 :: nat) = Suc (Suc (Suc (Suc 0)))" by simp
  moreover have "unat (256 :: u32) = 256" by simp
  ultimately show ?thesis
    by (simp only: ipv4_octets_def unat_div_distrib unat_mod_distrib div_mult2_eq [symmetric]) simp
qed

lemma serialize_ipv4_address_join:
  "serialize_ipv4_address a = join_with ''.'' (map format_dec (ipv4_octets a))"
  by (simp add: serialize_ipv4_address_def serialize_ipv4_loop_octets ipv4_octets_def)

lemma ipv4_octets_less: "n \<in> set (ipv4_octets a) \<Longrightarrow> n < 256"
  using unat_less_u32 [of a] by (auto simp: ipv4_octets_def div_less_iff_less_mult)

lemma ipv4_octets_sum:
  "unat a div 16777216 * 16777216 + unat a div 65536 mod 256 * 65536 + unat a div 256 mod 256 * 256
     + unat a mod 256 = unat (a :: u32)"
proof -
  have s: "unat a div 65536 = unat a div 256 div 256" "unat a div 16777216 = unat a div 256 div 256 div 256"
    by (simp_all flip: div_mult2_eq)
  show ?thesis
    unfolding s using div_mult_mod_eq [of "unat a" 256] div_mult_mod_eq [of "unat a div 256" 256]
      div_mult_mod_eq [of "unat a div 256 div 256" 256]
    by linarith
qed

lemma parse_serialize_ipv4:
  "parse_ipv4_address (serialize_ipv4_address a) = Success a"
proof -
  let ?n = "ipv4_octets a"
  have parts: "split_view (serialize_ipv4_address a) ''.'' Split_KeepEmpty = Some (map format_dec ?n)"
    unfolding serialize_ipv4_address_join
    by (rule split_view_join_byte) (auto simp: ipv4_octets_def format_dec_no_dot)
  have numbers: "parse_ipv4_parts (map format_dec ?n) [] = Some ?n"
    using parse_ipv4_parts_format_dec [of ?n "[]"] ipv4_octets_less [of _ a] by fastforce
  have "last ?n \<in> set ?n" by (rule last_in_set) (simp add: ipv4_octets_def)
  then have small: "\<not> list_ex (\<lambda>n. n > 255) (butlast ?n)" "\<not> last ?n \<ge> 256"
    using ipv4_octets_less [of _ a] by (fastforce simp: list_ex_iff dest: in_set_butlastD)+
  have "ipv4_sum_loop (butlast ?n) 0 (of_nat (last ?n)) = of_nat (unat a)"
    by (subst ipv4_octets_sum [of a, symmetric])
      (simp add: ipv4_octets_def algebra_simps)
  with parts numbers small show ?thesis
    by (simp add: parse_ipv4_address_def ipv4_octets_def)
qed

text \<open>The value that the numbers of an IPv4 address stand for.\<close>

fun ipv4_weight :: "nat list \<Rightarrow> nat \<Rightarrow> nat" where
  "ipv4_weight [] counter = 0"
| "ipv4_weight (n # ns) counter = n * 256 ^ (3 - counter) + ipv4_weight ns (counter + 1)"

lemma ipv4_sum_loop_weight: "ipv4_sum_loop ns c x = x + of_nat (ipv4_weight ns c)"
  by (induction ns arbitrary: c x) (auto simp: add.assoc)

lemma ipv4_weight_bound:
  "\<forall>n\<in>set ns. n \<le> 255 \<Longrightarrow> c + length ns \<le> 4 \<Longrightarrow>
     ipv4_weight ns c + 256 ^ (4 - (c + length ns)) \<le> 256 ^ (4 - c)"
proof (induction ns arbitrary: c)
  case (Cons n ns)
  have IH: "ipv4_weight ns (c + 1) + 256 ^ (4 - (c + 1 + length ns)) \<le> 256 ^ (4 - (c + 1))"
    using Cons.IH [of "c + 1"] Cons.prems by simp
  have e: "4 - c = Suc (3 - c)" using Cons.prems by simp
  have "n * 256 ^ (3 - c) \<le> 255 * 256 ^ (3 - c)" using Cons.prems by simp
  moreover have x: "4 - (c + length (n # ns)) = 4 - (c + 1 + length ns)" "4 - (c + 1) = 3 - c" by simp_all
  ultimately show ?case using IH unfolding e power_Suc ipv4_weight.simps x by linarith
qed simp

lemma parse_ipv4_address_weight:
  assumes "parse_ipv4_address s = Success a"
  shows "\<exists>numbers. 1 \<le> length numbers \<and> length numbers \<le> 4 \<and> list_all (\<lambda>n. n \<le> 255) (butlast numbers)
    \<and> last numbers < 256 ^ (5 - length numbers)
    \<and> unat a = ipv4_weight (butlast numbers) 0 + last numbers"
proof -
  from assms obtain ps where ps: "split_view s ''.'' Split_KeepEmpty = Some ps" "ps \<noteq> []"
    by (auto simp: parse_ipv4_address_def split: option.splits if_splits)
  define parts where "parts = (if last ps = [] \<and> length ps > 1 then butlast ps else ps)"
  have ne: "parts \<noteq> []" using ps(2) by (cases ps rule: rev_cases) (auto simp: parts_def)
  from assms have n0: "length parts \<le> 4 \<and> (\<exists>numbers. parse_ipv4_parts parts [] = Some numbers
      \<and> \<not> list_ex (\<lambda>n. n > 255) (butlast numbers) \<and> \<not> last numbers \<ge> 256 ^ (5 - length numbers)
      \<and> a = ipv4_sum_loop (butlast numbers) 0 (of_nat (last numbers)))"
    unfolding parse_ipv4_address_def ps option.case parts_def [symmetric]
    by (auto simp: ps(2) Let_def split: option.splits if_splits)
  then obtain numbers where n: "parse_ipv4_parts parts [] = Some numbers"
      "\<forall>n\<in>set (butlast numbers). n \<le> 255" "last numbers < 256 ^ (5 - length numbers)"
      "a = ipv4_sum_loop (butlast numbers) 0 (of_nat (last numbers))"
    by (auto simp: list_ex_iff not_less)
  have "length numbers = length parts"
  proof -
    have "parse_ipv4_parts ps acc = Some ns \<Longrightarrow> length ns = length acc + length ps" for ps acc ns
      by (induction ps arbitrary: acc) (auto split: option.splits)
    with n(1) show ?thesis by fastforce
  qed
  with ne n0 have len: "1 \<le> length numbers" "length numbers \<le> 4" by (cases parts, auto)+
  have "0 + length (butlast numbers) \<le> 4" using len by simp
  from ipv4_weight_bound [OF n(2) this] len
  have "ipv4_weight (butlast numbers) 0 + 256 ^ (5 - length numbers) \<le> 4294967296"
    by (simp add: Suc_diff_le)
  with n(3) have small: "last numbers + ipv4_weight (butlast numbers) 0 < 4294967296" by linarith
  have "a = of_nat (last numbers + ipv4_weight (butlast numbers) 0)"
    unfolding n(4) ipv4_sum_loop_weight of_nat_add ..
  then have "unat a = (last numbers + ipv4_weight (butlast numbers) 0) mod 2 ^ LENGTH(32)"
    by (simp only: unat_of_nat)
  also have "\<dots> = last numbers + ipv4_weight (butlast numbers) 0"
    by (rule mod_less) (use small in simp)
  finally have "unat a = ipv4_weight (butlast numbers) 0 + last numbers" by linarith
  with n len show ?thesis by (auto simp: list_all_iff)
qed

interpretation ipv4: printer serialize_ipv4_address "\<lambda>s. outcome_option (parse_ipv4_address s)" "\<lambda>a. True"
  by unfold_locales (simp add: parse_serialize_ipv4)

subsection \<open>Properties\<close>

text \<open>
  C21. IPv4 round trip.  Parsing the serialization of any 32-bit address gives the address back,
  and different addresses are serialized differently.
\<close>

theorem ipv4_roundtrip:
  "parse_ipv4_address (serialize_ipv4_address a) = Success a
   \<and> (serialize_ipv4_address a = serialize_ipv4_address b \<longleftrightarrow> a = b)"
  using parse_serialize_ipv4 ipv4.print_inject by simp



end
