(* ===== verification/Ipv6.thy ===== *)
theory Ipv6
  imports Ipv4
begin

text \<open>
  IPv6 addresses in \<^verbatim>\<open>LibURL/Parser.cpp\<close>: the parser and the serializer.  An address is the list of
  the eight \<^verbatim>\<open>u16\<close> pieces of \<^verbatim>\<open>Host.h\<close>.
\<close>

type_synonym ipv6_address = "u16 list"

subsection \<open>IPv6 serializer\<close>

text \<open>
  The search for the first longest run of zero pieces: the index of the piece that is looked at,
  the run found so far, its length, and the length and start of the current run.
\<close>

fun find_compress_loop ::
  "nat \<Rightarrow> u16 list \<Rightarrow> nat option \<Rightarrow> nat \<Rightarrow> nat \<Rightarrow> nat \<Rightarrow> nat option \<times> nat"
where
  "find_compress_loop i [] compress longest_sequence_length current_sequence_length current_sequence_start =
     (if current_sequence_length > longest_sequence_length
      then (Some current_sequence_start, current_sequence_length)
      else (compress, longest_sequence_length))"
| "find_compress_loop i (piece # pieces) compress longest_sequence_length current_sequence_length current_sequence_start =
     (if piece = 0 then
        find_compress_loop (i + 1) pieces compress longest_sequence_length (current_sequence_length + 1)
          (if current_sequence_length = 0 then i else current_sequence_start)
      else if current_sequence_length > longest_sequence_length then
        find_compress_loop (i + 1) pieces (Some current_sequence_start) current_sequence_length 0 current_sequence_start
      else
        find_compress_loop (i + 1) pieces compress longest_sequence_length 0 current_sequence_start)"

definition find_compress :: "ipv6_address \<Rightarrow> nat option" where
  "find_compress address =
     (let (compress, longest_sequence_length) = find_compress_loop 0 address None 0 0 0
      in if longest_sequence_length \<le> 1 then None else compress)"

fun serialize_ipv6_loop :: "nat option \<Rightarrow> nat \<Rightarrow> u16 list \<Rightarrow> bool \<Rightarrow> bytes \<Rightarrow> bytes" where
  "serialize_ipv6_loop compress piece_index [] ignore0 output = output"
| "serialize_ipv6_loop compress piece_index (piece # pieces) ignore0 output =
     (if ignore0 \<and> piece = 0 then serialize_ipv6_loop compress (piece_index + 1) pieces ignore0 output
      else if compress = Some piece_index then
        serialize_ipv6_loop compress (piece_index + 1) pieces True
          (output @ (if piece_index = 0 then ''::'' else '':''))
      else
        serialize_ipv6_loop compress (piece_index + 1) pieces False
          (output @ format_hex (unat piece) @ (if piece_index \<noteq> 7 then '':'' else [])))"

definition serialize_ipv6_address :: "ipv6_address \<Rightarrow> bytes \<Rightarrow> bytes" where
  "serialize_ipv6_address address output =
     serialize_ipv6_loop (find_compress address) 0 address False output"

subsection \<open>IPv6 parser\<close>

definition end_of_file :: code_point where
  "end_of_file = 0xFFFFFFFF"

definition ipv6_c :: "code_point list \<Rightarrow> nat \<Rightarrow> code_point" where
  "ipv6_c code_points pointer =
     (if pointer \<ge> length code_points then end_of_file else code_points ! pointer)"

definition ipv6_remaining :: "code_point list \<Rightarrow> nat \<Rightarrow> code_point list" where
  "ipv6_remaining code_points pointer =
     (if pointer + 1 \<ge> length code_points then [] else drop (pointer + 1) code_points)"

text \<open>Storing a piece; the index is checked by the array.\<close>

definition set_piece :: "ipv6_address \<Rightarrow> nat \<Rightarrow> nat \<Rightarrow> ipv6_address outcome" where
  "set_piece address i value =
     (if i < length address then Success (address[i := of_nat value]) else Crash)"

text \<open>At most four hexadecimal digits: the pointer, the value and the number of digits read.\<close>

function ipv6_hex_loop :: "code_point list \<Rightarrow> nat \<Rightarrow> nat \<Rightarrow> nat \<Rightarrow> (nat \<times> nat \<times> nat) outcome" where
  "ipv6_hex_loop code_points pointer value len =
     (if len < 4 \<and> is_ascii_hex_digit (ipv6_c code_points pointer) then
        (case parse_ascii_hex_digit (ipv6_c code_points pointer) of
           None \<Rightarrow> Crash
         | Some digit \<Rightarrow> ipv6_hex_loop code_points (pointer + 1) (value * 0x10 + digit) (len + 1))
      else Success (pointer, value, len))"
  by pat_completeness auto
termination
  by (relation "measure (\<lambda>(code_points, pointer, value, len). 4 - len)") auto

declare ipv6_hex_loop.simps [simp del]

lemma ipv6_c_digit:
  "is_ascii_hex_digit (ipv6_c cps p) \<Longrightarrow> p < length cps" "is_ascii_digit (ipv6_c cps p) \<Longrightarrow> p < length cps"
  by (auto simp: ipv6_c_def end_of_file_def class_defs split: if_splits)

text \<open>One decimal number of an embedded IPv4 address.\<close>

function ipv4_in_ipv6_number_loop :: "code_point list \<Rightarrow> nat \<Rightarrow> nat option \<Rightarrow> (nat \<times> nat option) outcome" where
  "ipv4_in_ipv6_number_loop code_points pointer ipv4_piece =
     (if is_ascii_digit (ipv6_c code_points pointer) then
        (case parse_ascii_digit (ipv6_c code_points pointer) of
           None \<Rightarrow> Crash
         | Some number \<Rightarrow>
             (case (case ipv4_piece of
                      None \<Rightarrow> Success number
                    | Some piece \<Rightarrow> if piece = 0 then Failure else Success (piece * 10 + number)) of
                Crash \<Rightarrow> Crash
              | Failure \<Rightarrow> Failure
              | Success piece \<Rightarrow>
                  if piece > 255 then Failure
                  else ipv4_in_ipv6_number_loop code_points (pointer + 1) (Some piece)))
      else Success (pointer, ipv4_piece))"
  by pat_completeness auto
termination
  by (relation "measure (\<lambda>(code_points, pointer, piece). length code_points - pointer)")
    (auto dest: ipv6_c_digit)

declare ipv4_in_ipv6_number_loop.simps [simp del]

lemma ipv4_in_ipv6_number_loop_mono:
  "ipv4_in_ipv6_number_loop cps p piece = Success (q, r) \<Longrightarrow> p \<le> q"
proof (induction cps p piece rule: ipv4_in_ipv6_number_loop.induct)
  case (1 cps p piece)
  from 1(2) show ?case
    by (subst (asm) ipv4_in_ipv6_number_loop.simps)
      (fastforce dest: 1(1) split: if_splits option.splits outcome.splits)
qed

lemma ipv4_in_ipv6_number_loop_advances:
  assumes "ipv4_in_ipv6_number_loop cps p piece = Success (q, r)" "is_ascii_digit (ipv6_c cps p)"
  shows "p < q"
  using assms
  by (subst (asm) ipv4_in_ipv6_number_loop.simps)
    (auto dest!: ipv4_in_ipv6_number_loop_mono split: if_splits option.splits outcome.splits)

text \<open>The embedded IPv4 address: its numbers go into the pieces two by two.\<close>

function ipv4_in_ipv6_loop ::
  "code_point list \<Rightarrow> nat \<Rightarrow> ipv6_address \<Rightarrow> nat \<Rightarrow> nat \<Rightarrow> (ipv6_address \<times> nat \<times> nat) outcome"
where
  "ipv4_in_ipv6_loop code_points pointer address piece_index numbers_seen =
     (if ipv6_c code_points pointer \<noteq> end_of_file then
        if numbers_seen > 0 \<and> \<not> (ipv6_c code_points pointer = ord_of CHR ''.'' \<and> numbers_seen < 4) then Failure
        else
          let pointer = (if numbers_seen > 0 then pointer + 1 else pointer) in
          if \<not> is_ascii_digit (ipv6_c code_points pointer) then Failure
          else (case ipv4_in_ipv6_number_loop code_points pointer None of
                  Crash \<Rightarrow> Crash
                | Failure \<Rightarrow> Failure
                | Success (_, None) \<Rightarrow> Crash
                | Success (pointer', Some ipv4_piece) \<Rightarrow>
                    if \<not> piece_index < length address then Crash
                    else (case set_piece address piece_index (unat (address ! piece_index) * 0x100 + ipv4_piece) of
                            Success address' \<Rightarrow>
                              ipv4_in_ipv6_loop code_points pointer' address'
                                (if numbers_seen + 1 = 2 \<or> numbers_seen + 1 = 4 then piece_index + 1 else piece_index)
                                (numbers_seen + 1)
                          | _ \<Rightarrow> Crash))
      else Success (address, piece_index, numbers_seen))"
  by pat_completeness auto
termination
proof (relation "measure (\<lambda>(code_points, pointer, address, i, n). length code_points - pointer)", goal_cases)
  case (2 cps p address i n x x3 q y v address')
  then have "p \<le> x" "x < q" "x < length cps"
    using ipv4_in_ipv6_number_loop_advances [of cps x None q y] ipv6_c_digit(2) [of cps x] by auto
  then show ?case by simp
qed simp

declare ipv4_in_ipv6_loop.simps [simp del]

lemma ipv6_hex_loop_result:
  "ipv6_hex_loop cps p v n = Success (q, w, m) \<Longrightarrow>
     n \<le> m \<and> q = p + (m - n) \<and> (q = p \<longrightarrow> n < 4 \<longrightarrow> \<not> is_ascii_hex_digit (ipv6_c cps p))"
proof (induction cps p v n rule: ipv6_hex_loop.induct)
  case (1 cps p v n)
  show ?case
  proof (cases "n < 4 \<and> is_ascii_hex_digit (ipv6_c cps p)")
    case True
    then obtain d where d: "parse_ascii_hex_digit (ipv6_c cps p) = Some d"
      using parse_ascii_hex_digit_defined by fastforce
    with True 1(2) have "ipv6_hex_loop cps (p + 1) (v * 16 + d) (n + 1) = Success (q, w, m)"
      by (simp add: ipv6_hex_loop.simps [of cps p v n])
    with 1(1) [OF True d] show ?thesis by auto
  next
    case False
    with 1(2) show ?thesis by (simp add: ipv6_hex_loop.simps [of cps p v n])
  qed
qed

text \<open>
  The body of the main loop.  It ends the loop with the result of the embedded IPv4 address
  (\<open>Inr\<close>) or goes on with the address, the piece index, the compressed piece and the pointer.
\<close>

type_synonym ipv6_state = "ipv6_address \<times> nat \<times> nat option \<times> nat"

definition ipv6_after_digits ::
  "code_point list \<Rightarrow> ipv6_address \<Rightarrow> nat \<Rightarrow> nat option \<Rightarrow> nat \<Rightarrow> nat \<Rightarrow> nat
     \<Rightarrow> (ipv6_state + ipv6_state) outcome"
where
  "ipv6_after_digits code_points address piece_index compress pointer value len =
     (if ipv6_c code_points pointer = ord_of CHR ''.'' then
        if len = 0 then Failure
        else
          let pointer = pointer - len in
          if piece_index > 6 then Failure
          else outcome_bind (ipv4_in_ipv6_loop code_points pointer address piece_index 0)
            (\<lambda>(address, piece_index, numbers_seen).
               if numbers_seen \<noteq> 4 then Failure
               else Success (Inr (address, piece_index, compress, length code_points)))
      else if ipv6_c code_points pointer = ord_of CHR '':'' then
        if ipv6_c code_points (pointer + 1) = end_of_file then Failure
        else outcome_bind (set_piece address piece_index value) (\<lambda>address.
          Success (Inl (address, piece_index + 1, compress, pointer + 1)))
      else if ipv6_c code_points pointer \<noteq> end_of_file then Failure
      else outcome_bind (set_piece address piece_index value) (\<lambda>address.
          Success (Inl (address, piece_index + 1, compress, pointer))))"

definition ipv6_step :: "code_point list \<Rightarrow> ipv6_state \<Rightarrow> (ipv6_state + ipv6_state) outcome" where
  "ipv6_step code_points st =
     (case st of (address, piece_index, compress, pointer) \<Rightarrow>
      if piece_index = 8 then Failure
      else if ipv6_c code_points pointer = ord_of CHR '':'' then
        if compress \<noteq> None then Failure
        else Success (Inl (address, piece_index + 1, Some (piece_index + 1), pointer + 1))
      else outcome_bind (ipv6_hex_loop code_points pointer 0 0) (\<lambda>(pointer, value, len).
        ipv6_after_digits code_points address piece_index compress pointer value len))"

lemma ipv6_after_digits_pointer:
  "ipv6_after_digits cps address i compress q v n = Success (Inl (address', i', compress', p')) \<Longrightarrow>
     p' = q + 1 \<or> p' = q \<and> ipv6_c cps q = end_of_file"
  unfolding ipv6_after_digits_def Let_def
  by (auto simp: outcome_bind_Success split: if_splits)

lemma ipv6_step_advances:
  assumes "ipv6_c cps p \<noteq> end_of_file" "ipv6_step cps (address, i, compress, p) = Success (Inl (address', i', compress', p'))"
  shows "p < p' \<and> p < length cps"
proof -
  have "p < length cps" using assms(1) by (auto simp: ipv6_c_def split: if_splits)
  moreover have "p < p'"
  proof (cases "ipv6_c cps p = ord_of CHR '':''")
    case True
    with assms(2) show ?thesis by (simp add: ipv6_step_def split: if_splits)
  next
    case False
    with assms(2) obtain q v n where q: "ipv6_hex_loop cps p 0 0 = Success (q, v, n)"
      and r: "ipv6_after_digits cps address i compress q v n = Success (Inl (address', i', compress', p'))"
      by (auto simp: ipv6_step_def outcome_bind_Success split: if_splits)
    have "q = p + n" using ipv6_hex_loop_result [OF q] by simp
    with ipv6_after_digits_pointer [OF r] assms(1) show ?thesis by (cases n) auto
  qed
  ultimately show ?thesis by simp
qed

function ipv6_loop :: "code_point list \<Rightarrow> ipv6_state \<Rightarrow> ipv6_state outcome" where
  "ipv6_loop code_points (address, piece_index, compress, pointer) =
     (if ipv6_c code_points pointer \<noteq> end_of_file then
        (case ipv6_step code_points (address, piece_index, compress, pointer) of
           Crash \<Rightarrow> Crash
         | Failure \<Rightarrow> Failure
         | Success (Inl st) \<Rightarrow> ipv6_loop code_points st
         | Success (Inr st) \<Rightarrow> Success st)
      else Success (address, piece_index, compress, pointer))"
  by pat_completeness auto
termination
  by (relation "measure (\<lambda>(code_points, address, piece_index, compress, pointer). length code_points - pointer)")
    (auto dest: ipv6_step_advances)

declare ipv6_loop.simps [simp del]

fun ipv6_swap_loop :: "ipv6_address \<Rightarrow> nat \<Rightarrow> nat \<Rightarrow> nat \<Rightarrow> ipv6_address outcome" where
  "ipv6_swap_loop address compress piece_index swaps =
     (case (piece_index, swaps) of
        (Suc piece_index', Suc swaps') \<Rightarrow>
          if piece_index < length address \<and> compress + swaps - 1 < length address then
            ipv6_swap_loop
              (address[piece_index := address ! (compress + swaps - 1),
                       compress + swaps - 1 := address ! piece_index])
              compress piece_index' swaps'
          else Crash
      | _ \<Rightarrow> Success address)"

declare ipv6_swap_loop.simps [simp del]

text \<open>Moving the pieces after the compressed one to the end.\<close>

definition ipv6_expand :: "ipv6_state \<Rightarrow> ipv6_address outcome" where
  "ipv6_expand st =
     (case st of (address, piece_index, compress, pointer) \<Rightarrow>
      case compress of
        Some compress \<Rightarrow> ipv6_swap_loop address compress 7 (piece_index - compress)
      | None \<Rightarrow> if piece_index \<noteq> 8 then Failure else Success address)"

definition parse_ipv6_address :: "bytes \<Rightarrow> ipv6_address outcome" where
  "parse_ipv6_address input =
     (let code_points = utf8_decode input;
          address = replicate 8 0
      in outcome_bind
           (if ipv6_c code_points 0 = ord_of CHR '':'' then
              if ipv6_remaining code_points 0 = [] \<or> ipv6_remaining code_points 0 ! 0 \<noteq> ord_of CHR '':'' then Failure
              else ipv6_loop code_points (address, 1, Some 1, 2)
            else ipv6_loop code_points (address, 0, None, 0))
           ipv6_expand)"

subsection \<open>The compressed pieces\<close>

text \<open>A run of \<^term>\<open>n\<close> zero pieces from index \<^term>\<open>s\<close>.\<close>

definition zero_run :: "ipv6_address \<Rightarrow> nat \<Rightarrow> nat \<Rightarrow> bool" where
  "zero_run a s n \<longleftrightarrow> s + n \<le> length a \<and> (\<forall>j<n. a ! (s + j) = 0)"

text \<open>
  The state of the search after the pieces before index \<^term>\<open>i\<close>: the current run ends at \<^term>\<open>i\<close> and
  cannot be extended to the left, and the best run is the first longest one that ends before
  the current one starts.
\<close>

definition search_inv :: "ipv6_address \<Rightarrow> nat \<Rightarrow> nat option \<Rightarrow> nat \<Rightarrow> nat \<Rightarrow> nat \<Rightarrow> bool" where
  "search_inv a i best len cur start \<longleftrightarrow>
     cur \<le> i \<and> zero_run a (i - cur) cur \<and> (cur > 0 \<longrightarrow> start = i - cur)
     \<and> (i - cur > 0 \<longrightarrow> a ! (i - cur - 1) \<noteq> 0)
     \<and> (\<forall>s m. zero_run a s m \<longrightarrow> s + m \<le> i - cur \<longrightarrow> m \<le> len)
     \<and> (if len = 0 then best = None
        else \<exists>k. best = Some k \<and> zero_run a k len \<and> k + len \<le> i - cur \<and> (\<forall>s<k. \<not> zero_run a s len))"

definition first_longest :: "ipv6_address \<Rightarrow> nat option \<Rightarrow> nat \<Rightarrow> bool" where
  "first_longest a best len \<longleftrightarrow>
     (\<forall>s m. zero_run a s m \<longrightarrow> m \<le> len)
     \<and> (if len = 0 then best = None
        else \<exists>k. best = Some k \<and> zero_run a k len \<and> (\<forall>s<k. \<not> zero_run a s len))"

lemma run_before_or_inside:
  assumes "zero_run a s m" "s + m \<le> i" "i - cur > 0 \<longrightarrow> a ! (i - cur - 1) \<noteq> 0" "cur \<le> i"
  shows "s + m \<le> i - cur \<or> s \<ge> i - cur"
proof (rule ccontr)
  assume "\<not> ?thesis"
  then have "s \<le> i - cur - 1" "i - cur - 1 < s + m" "i - cur > 0" by auto
  then have "a ! (s + (i - cur - 1 - s)) = 0" using assms(1) unfolding zero_run_def
    by (metis add_less_cancel_left le_add_diff_inverse)
  with assms(3) \<open>s \<le> i - cur - 1\<close> \<open>i - cur > 0\<close> show False by simp
qed

lemma search_inv_zero:
  assumes "search_inv a i best len cur start" "i < length a" "a ! i = 0"
  shows "search_inv a (i + 1) best len (cur + 1) (if cur = 0 then i else start)"
  using assms by (auto simp: search_inv_def zero_run_def less_Suc_eq)

lemma search_inv_nonzero:
  assumes inv: "search_inv a i best len cur start" and "i < length a" "a ! i \<noteq> 0"
  shows "search_inv a (i + 1) (if cur > len then Some start else best) (max len cur) 0 start"
proof -
  have c: "cur \<le> i" "zero_run a (i - cur) cur" "cur > 0 \<longrightarrow> start = i - cur"
    "i - cur > 0 \<longrightarrow> a ! (i - cur - 1) \<noteq> 0"
    "\<And>s m. zero_run a s m \<Longrightarrow> s + m \<le> i - cur \<Longrightarrow> m \<le> len"
    "len = 0 \<Longrightarrow> best = None"
    "len > 0 \<Longrightarrow> \<exists>k. best = Some k \<and> zero_run a k len \<and> k + len \<le> i - cur \<and> (\<forall>s<k. \<not> zero_run a s len)"
    using inv by (auto simp: search_inv_def split: if_splits)
  have all: "m \<le> max len cur" if "zero_run a s m" "s + m \<le> i + 1" for s m
  proof (cases "s + m \<le> i")
    case True
    with run_before_or_inside [OF that(1) True c(4) c(1)] c(5) [OF that(1)] show ?thesis by auto
  next
    case False
    with that(2) have "s + m = i + 1" by simp
    show ?thesis
    proof (cases m)
      case (Suc n)
      with that(1) \<open>s + m = i + 1\<close> have "a ! i = 0" by (auto simp: zero_run_def)
      with assms(3) show ?thesis by simp
    qed simp
  qed
  have first: "\<not> zero_run a s cur" if "s < i - cur" "cur > len" for s
  proof
    assume r: "zero_run a s cur"
    have "s + cur \<le> i" using that by simp
    from run_before_or_inside [OF r this c(4) c(1)] c(5) [OF r] that show False by auto
  qed
  have z: "zero_run a (i + 1) 0" using assms(2) by (simp add: zero_run_def)
  show ?thesis
  proof (cases "cur > len")
    case True
    then show ?thesis
      using c all first z assms(2,3) by (auto simp: search_inv_def max_def)
  next
    case False
    then show ?thesis
      using c(1,6,7) all z assms(2,3) by (fastforce simp: search_inv_def max_def)
  qed
qed

lemma find_compress_loop_first_longest:
  assumes "search_inv a i best len cur start" "drop i a = pieces" "i \<le> length a"
    and "find_compress_loop i pieces best len cur start = (best', len')"
  shows "first_longest a best' len'"
  using assms
proof (induction pieces arbitrary: i best len cur start)
  case Nil
  then have i: "i = length a" by simp
  have c: "cur \<le> i" "zero_run a (i - cur) cur" "cur > 0 \<longrightarrow> start = i - cur"
    "i - cur > 0 \<longrightarrow> a ! (i - cur - 1) \<noteq> 0"
    "\<And>s m. zero_run a s m \<Longrightarrow> s + m \<le> i - cur \<Longrightarrow> m \<le> len"
    "len = 0 \<Longrightarrow> best = None"
    "len > 0 \<Longrightarrow> \<exists>k. best = Some k \<and> zero_run a k len \<and> k + len \<le> i - cur \<and> (\<forall>s<k. \<not> zero_run a s len)"
    using Nil(1) by (auto simp: search_inv_def split: if_splits)
  have all: "m \<le> max len cur" if "zero_run a s m" for s m
  proof -
    have "s + m \<le> i" using that i by (simp add: zero_run_def)
    from run_before_or_inside [OF that this c(4) c(1)] c(5) [OF that] \<open>s + m \<le> i\<close> show ?thesis by auto
  qed
  have first: "\<not> zero_run a s cur" if "s < i - cur" "cur > len" for s
  proof
    assume r: "zero_run a s cur"
    have "s + cur \<le> i" using that by simp
    from run_before_or_inside [OF r this c(4) c(1)] c(5) [OF r] that show False by auto
  qed
  show ?case
  proof (cases "cur > len")
    case True
    then show ?thesis using Nil(4) c all first by (auto simp: first_longest_def max_def)
  next
    case False
    then show ?thesis using Nil(4) c(6,7) all by (fastforce simp: first_longest_def max_def)
  qed
next
  case (Cons p pieces)
  then have i: "i < length a" "a ! i = p" "drop (i + 1) a = pieces"
    by (metis drop_all list.distinct(1) not_le_imp_less, simp add: nth_via_drop,
        metis Suc_eq_plus1 drop_Suc list.sel(3) tl_drop)
  show ?case
  proof (cases "p = 0")
    case True
    with Cons.prems(4) Cons.IH [OF search_inv_zero [OF Cons.prems(1)] i(3)] i show ?thesis by simp
  next
    case False
    with Cons.prems(4) Cons.IH [OF search_inv_nonzero [OF Cons.prems(1)] i(3)] i show ?thesis
      by (simp add: max_def split: if_splits)
  qed
qed

lemma find_compress_first_longest:
  "find_compress a = (case find_compress_loop 0 a None 0 0 0 of (best, len) \<Rightarrow> if len \<le> 1 then None else best)"
  "first_longest a (fst (find_compress_loop 0 a None 0 0 0)) (snd (find_compress_loop 0 a None 0 0 0))"
proof -
  have "search_inv a 0 None 0 0 0" by (auto simp: search_inv_def zero_run_def)
  then show "first_longest a (fst (find_compress_loop 0 a None 0 0 0)) (snd (find_compress_loop 0 a None 0 0 0))"
    using find_compress_loop_first_longest [of a 0 None 0 0 0 a] by simp
qed (simp add: find_compress_def)

lemma find_compress_Some:
  assumes "find_compress a = Some k"
  obtains n where "n \<ge> 2" "zero_run a k n" "\<forall>s m. zero_run a s m \<longrightarrow> m \<le> n" "\<forall>s<k. \<not> zero_run a s n"
  using assms find_compress_first_longest [of a]
  by (auto simp: first_longest_def numeral_2_eq_2 not_less_eq_eq split: prod.splits if_splits)

lemma find_compress_None:
  "find_compress a = None \<Longrightarrow> zero_run a s m \<Longrightarrow> m \<le> 1"
  using find_compress_first_longest [of a]
  by (fastforce simp: first_longest_def split: prod.splits if_splits)

subsection \<open>What the IPv6 serializer writes\<close>

abbreviation hex_of :: "u16 \<Rightarrow> bytes" where
  "hex_of piece \<equiv> format_hex (unat piece)"

lemma serialize_ipv6_loop_before:
  "i + length pre = k \<Longrightarrow> k \<le> 7 \<Longrightarrow>
     serialize_ipv6_loop (Some k) i (pre @ rest) False out =
     serialize_ipv6_loop (Some k) k rest False (out @ concat (map (\<lambda>v. hex_of v @ '':'') pre))"
  by (induction pre arbitrary: i out) auto

lemma serialize_ipv6_loop_zeros:
  "serialize_ipv6_loop compress i (replicate n 0 @ rest) True out =
   serialize_ipv6_loop compress (i + n) rest True out"
  by (induction n arbitrary: i) auto

lemma serialize_ipv6_loop_after:
  assumes "i + length pieces = 8" "\<forall>k. compress = Some k \<longrightarrow> k < i"
    and "ignore0 \<longrightarrow> pieces = [] \<or> hd pieces \<noteq> 0"
  shows "serialize_ipv6_loop compress i pieces ignore0 out = out @ join_with '':'' (map hex_of pieces)"
  using assms
proof (induction pieces arbitrary: i ignore0 out)
  case (Cons p pieces)
  then have IH: "serialize_ipv6_loop compress (i + 1) pieces False o1 = o1 @ join_with '':'' (map hex_of pieces)" for o1
    by (intro Cons.IH) auto
  show ?case using Cons.prems IH by (cases pieces) auto
qed simp

lemma zero_run_split:
  assumes "zero_run a k n"
  shows "a = take k a @ replicate n 0 @ drop (k + n) a"
proof -
  have "take n (drop k a) = replicate n 0"
    using assms by (auto simp: zero_run_def intro!: nth_equalityI)
  then show ?thesis by (metis append_take_drop_id drop_drop add.commute)
qed

lemma serialize_ipv6_cases:
  assumes "length a = 8"
  obtains (plain) "serialize_ipv6_address a out = out @ join_with '':'' (map hex_of a)"
  | (compressed) pre n post where "a = pre @ replicate n 0 @ post" "n \<ge> 2"
      "serialize_ipv6_address a out = out
         @ (if pre = [] then ''::'' else concat (map (\<lambda>v. hex_of v @ '':'') pre) @ '':'')
         @ join_with '':'' (map hex_of post)"
proof (cases "find_compress a")
  case None
  then have "serialize_ipv6_address a out = out @ join_with '':'' (map hex_of a)"
    using assms by (simp add: serialize_ipv6_address_def serialize_ipv6_loop_after)
  then show thesis by (rule plain)
next
  case (Some k)
  then obtain n where n: "n \<ge> 2" "zero_run a k n" "\<forall>s m. zero_run a s m \<longrightarrow> m \<le> n"
    by (rule find_compress_Some)
  define pre where "pre = take k a"
  define post where "post = drop (k + n) a"
  have a: "a = pre @ replicate n 0 @ post" unfolding pre_def post_def by (rule zero_run_split) fact
  have len: "length pre = k" "k + n + length post = 8" "k \<le> 7"
    using n assms by (auto simp: pre_def post_def zero_run_def)
  have post: "post = [] \<or> hd post \<noteq> 0"
  proof (rule ccontr)
    assume "\<not> ?thesis"
    then have "k + n < length a" "a ! (k + n) = 0" by (auto simp: post_def hd_drop_conv_nth)
    then have "zero_run a k (n + 1)" using n(2) by (auto simp: zero_run_def less_Suc_eq)
    with n(3) show False by fastforce
  qed
  obtain n' where n': "n = Suc n'" using n(1) by (cases n) auto
  have "serialize_ipv6_address a out =
      serialize_ipv6_loop (Some k) k (replicate n 0 @ post) False (out @ concat (map (\<lambda>v. hex_of v @ '':'') pre))"
    unfolding serialize_ipv6_address_def Some using len by (subst a) (simp add: serialize_ipv6_loop_before)
  also have "\<dots> = serialize_ipv6_loop (Some k) (k + n) post True
      (out @ concat (map (\<lambda>v. hex_of v @ '':'') pre) @ (if k = 0 then ''::'' else '':''))"
    using serialize_ipv6_loop_zeros [of "Some k" "k + 1" n' post] by (simp add: n')
  also have "\<dots> = out @ (if pre = [] then ''::'' else concat (map (\<lambda>v. hex_of v @ '':'') pre) @ '':'')
      @ join_with '':'' (map hex_of post)"
    using serialize_ipv6_loop_after [of "k + n" post "Some k" True] len post n(1) by auto
  finally show thesis using compressed a n(1) by blast
qed

subsection \<open>How the IPv6 parser reads it\<close>

abbreviation hex_points :: "u16 \<Rightarrow> code_point list" where
  "hex_points piece \<equiv> map ord_of (hex_of piece)"

lemma ipv6_c_drop: "ipv6_c cps p = (case drop p cps of [] \<Rightarrow> end_of_file | c # _ \<Rightarrow> c)"
  by (cases "p < length cps") (auto simp: ipv6_c_def Cons_nth_drop_Suc [symmetric])

lemma drop_after: "drop p cps = xs @ ys \<Longrightarrow> drop (p + length xs) cps = ys"
  by (metis append_eq_conv_conj drop_drop add.commute)

lemma hex_not_colon: "is_ascii_hex_digit c \<Longrightarrow> c \<noteq> 58 \<and> c \<noteq> 46 \<and> c \<noteq> end_of_file"
  by (auto simp: class_defs end_of_file_def)

lemma ipv6_hex_loop_digits:
  assumes "drop p cps = map (\<lambda>d. ord_of (digit_lookup False ! d)) ds @ rest" "\<forall>d\<in>set ds. d < 16"
    and "n + length ds \<le> 4" "rest = [] \<or> \<not> is_ascii_hex_digit (hd rest)"
  shows "ipv6_hex_loop cps p v n = Success (p + length ds, foldl (\<lambda>v d. v * 16 + d) v ds, n + length ds)"
  using assms
proof (induction ds arbitrary: p v n)
  case Nil
  then have "\<not> is_ascii_hex_digit (ipv6_c cps p)"
    using hex_not_colon by (cases rest) (auto simp: ipv6_c_drop)
  then show ?case by (simp add: ipv6_hex_loop.simps)
next
  case (Cons d ds)
  have c: "ipv6_c cps p = ord_of (digit_lookup False ! d)" using Cons.prems(1) by (simp add: ipv6_c_drop)
  have "drop (p + 1) cps = map (\<lambda>d. ord_of (digit_lookup False ! d)) ds @ rest"
    using drop_after [of p cps "[ord_of (digit_lookup False ! d)]"] Cons.prems(1) by simp
  from Cons.IH [OF this, of "n + 1" "v * 16 + d"] Cons.prems show ?case
    using digit_lookup_lower [of d] by (subst ipv6_hex_loop.simps) (simp add: c)
qed

lemma unat_less_u16: "unat (a :: u16) < 65536"
  using unsigned_less [of a, where 'a = nat] by simp

lemma ipv6_hex_loop_piece:
  assumes "drop p cps = hex_points v @ rest" "rest = [] \<or> \<not> is_ascii_hex_digit (hd rest)"
  shows "ipv6_hex_loop cps p 0 0 = Success (p + length (hex_of v), unat v, length (hex_of v))"
proof -
  let ?ds = "digits_of 16 (unat v)"
  have "length ?ds \<le> 4" using digits_of_length [of "unat v" 16 4] unat_less_u16 [of v] by simp
  then show ?thesis
    using ipv6_hex_loop_digits [of p cps ?ds rest 0 0] assms digits_of_value [of 16 "unat v"]
      digits_of_bound [of 16 _ "unat v"]
    by (simp add: format_hex_digits comp_def radix_value_def)
qed

lemma hex_points_head:
  "\<exists>c cs. hex_points v = c # cs \<and> is_ascii_hex_digit c"
proof -
  obtain d ds where "digits_of 16 (unat v) = d # ds" using digits_of_nonempty [of 16 "unat v"]
    by (cases "digits_of 16 (unat v)") auto
  moreover from this have "d < 16" using digits_of_bound [of 16 d "unat v"] by simp
  ultimately show ?thesis using digit_lookup_lower [of d] by (simp add: format_hex_digits)
qed

lemma ipv6_c_piece:
  assumes "drop p cps = hex_points v @ rest"
  shows "is_ascii_hex_digit (ipv6_c cps p)" "ipv6_c cps p \<noteq> end_of_file" "ipv6_c cps p \<noteq> 58"
  using hex_points_head [of v] assms hex_not_colon by (auto simp: ipv6_c_drop)

lemma ipv6_loop_piece:
  assumes "drop p cps = hex_points v @ 58 # c # rest" "c \<noteq> end_of_file" "i < 8" "length A = 8"
  shows "ipv6_loop cps (A, i, cmp, p) = ipv6_loop cps (A[i := v], i + 1, cmp, p + length (hex_of v) + 1)"
    and "drop (p + length (hex_of v) + 1) cps = c # rest"
proof -
  let ?q = "p + length (hex_of v)"
  have q: "drop ?q cps = 58 # c # rest" using drop_after [OF assms(1)] by simp
  then have q1: "drop (?q + 1) cps = c # rest" using drop_after [of ?q cps "[58]" "c # rest"] by simp
  have "ipv6_hex_loop cps p 0 0 = Success (?q, unat v, length (hex_of v))"
    using ipv6_hex_loop_piece [OF assms(1)] by (simp add: class_defs)
  then have "ipv6_step cps (A, i, cmp, p) = Success (Inl (A[i := v], i + 1, cmp, ?q + 1))"
    using assms(2-4) ipv6_c_piece [OF assms(1)] q q1
    by (simp add: ipv6_step_def ipv6_after_digits_def ipv6_c_drop set_piece_def)
  then show "ipv6_loop cps (A, i, cmp, p) = ipv6_loop cps (A[i := v], i + 1, cmp, ?q + 1)"
    using ipv6_c_piece(2) [OF assms(1)] by (subst ipv6_loop.simps) simp
  show "drop (?q + 1) cps = c # rest" by (fact q1)
qed

lemma ipv6_loop_last_piece:
  assumes "drop p cps = hex_points v" "i < 8" "length A = 8"
  shows "ipv6_loop cps (A, i, cmp, p) = Success (A[i := v], i + 1, cmp, p + length (hex_of v))"
proof -
  let ?q = "p + length (hex_of v)"
  have d: "drop p cps = hex_points v @ []" using assms(1) by simp
  have q: "drop ?q cps = []" using drop_after [OF d] by simp
  have "ipv6_hex_loop cps p 0 0 = Success (?q, unat v, length (hex_of v))"
    using ipv6_hex_loop_piece [OF d] by simp
  then have "ipv6_step cps (A, i, cmp, p) = Success (Inl (A[i := v], i + 1, cmp, ?q))"
    using assms(2-3) ipv6_c_piece [OF d] q
    by (simp add: ipv6_step_def ipv6_after_digits_def ipv6_c_drop set_piece_def end_of_file_def)
  then show ?thesis
    using ipv6_c_piece(2) [OF d] q
    by (subst ipv6_loop.simps) (simp add: ipv6_loop.simps [of cps _ _ _ ?q] ipv6_c_drop [of _ ?q])
qed

fun store :: "ipv6_address \<Rightarrow> nat \<Rightarrow> u16 list \<Rightarrow> ipv6_address" where
  "store A i [] = A"
| "store A i (v # vs) = store (A[i := v]) (i + 1) vs"

lemma store_length [simp]: "length (store A i vs) = length A"
  by (induction vs arbitrary: A i) auto

lemma store_append:
  "length vs \<le> length X \<Longrightarrow> store (P @ X) (length P) vs = P @ vs @ drop (length vs) X"
proof (induction vs arbitrary: P X)
  case (Cons v vs)
  then obtain x X' where X: "X = x # X'" by (cases X) auto
  with Cons.IH [of X' "P @ [v]"] Cons.prems show ?case by simp
qed simp

lemma ipv6_loop_pieces:
  assumes "drop p cps = concat (map (\<lambda>v. hex_points v @ [58]) vs) @ c # rest"
    and "i + length vs \<le> 8" "length A = 8" "c \<noteq> end_of_file"
  shows "\<exists>q. drop q cps = c # rest \<and> ipv6_loop cps (A, i, cmp, p) = ipv6_loop cps (store A i vs, i + length vs, cmp, q)"
  using assms
proof (induction vs arbitrary: p i A)
  case (Cons v vs)
  obtain c' rest' where nx: "concat (map (\<lambda>v. hex_points v @ [58]) vs) @ c # rest = c' # rest'" "c' \<noteq> end_of_file"
  proof (cases vs)
    case Nil
    with Cons.prems(4) that show thesis by simp
  next
    case w: (Cons w ws)
    with hex_points_head [of w] hex_not_colon that show thesis by auto
  qed
  have "drop p cps = hex_points v @ 58 # c' # rest'" using Cons.prems(1) nx(1) by simp
  note step1 = ipv6_loop_piece(1) [OF this nx(2), of i A cmp]
    and step2 = ipv6_loop_piece(2) [OF this nx(2), of i A]
  have "drop (p + length (hex_of v) + 1) cps = concat (map (\<lambda>v. hex_points v @ [58]) vs) @ c # rest"
    using step2 Cons.prems nx(1) by simp
  from Cons.IH [OF this, of "i + 1" "A[i := v]"] Cons.prems step1 show ?case by auto
qed auto

lemma ipv6_loop_final_pieces:
  assumes "drop p cps = map ord_of (join_with '':'' (map hex_of vs))" "vs \<noteq> []"
    and "i + length vs \<le> 8" "length A = 8"
  shows "\<exists>q. ipv6_loop cps (A, i, cmp, p) = Success (store A i vs, i + length vs, cmp, q)"
  using assms
proof (induction vs arbitrary: p i A)
  case (Cons v vs)
  show ?case
  proof (cases vs)
    case Nil
    then show ?thesis using Cons.prems ipv6_loop_last_piece [of p cps v i A cmp] by auto
  next
    case w: (Cons w ws)
    obtain c' rest' where nx: "map ord_of (join_with '':'' (map hex_of vs)) = c' # rest'" "c' \<noteq> end_of_file"
      using hex_points_head [of w] hex_not_colon w by (cases ws) (auto simp: Cons_eq_append_conv)
    have "drop p cps = hex_points v @ 58 # c' # rest'"
      using Cons.prems(1) w nx(1) by simp
    note step1 = ipv6_loop_piece(1) [OF this nx(2), of i A cmp]
    and step2 = ipv6_loop_piece(2) [OF this nx(2), of i A]
    have "drop (p + length (hex_of v) + 1) cps = map ord_of (join_with '':'' (map hex_of vs))"
      using step2 Cons.prems nx(1) by simp
    from Cons.IH [OF this, of "i + 1" "A[i := v]"] Cons.prems step1 w show ?thesis by auto
  qed
qed simp

lemma ipv6_swap_loop_moves:
  assumes "d \<ge> 1"
  shows "ipv6_swap_loop (B @ xs @ replicate d 0 @ ys) (length B) (length B + length xs + d - 1) (length xs)
     = Success (B @ replicate d 0 @ xs @ ys)"
proof (induction xs arbitrary: ys rule: rev_induct)
  case Nil
  then show ?case by (cases "length B + d - 1") (simp_all add: ipv6_swap_loop.simps)
next
  case (snoc x xs)
  obtain e where d: "d = Suc e" using assms by (cases d) auto
  let ?A = "B @ (xs @ [x]) @ replicate d 0 @ ys"
  let ?i = "length B + length xs + d"
  have A: "?A ! (length B + length xs) = x" by (simp add: nth_append)
  have r: "replicate d 0 = replicate e 0 @ [0]" by (simp add: d replicate_append_same)
  let ?P = "(B @ xs @ [x]) @ replicate e 0"
  have AP: "?A = ?P @ 0 # ys" "length ?P = ?i" by (simp_all add: r) (simp add: d)
  have z: "?A ! ?i = 0" unfolding AP(1) AP(2) [symmetric] by (rule nth_append_length)
  have "?A[?i := x] = ?P @ x # ys" unfolding AP(1) AP(2) [symmetric] by (rule list_update_length)
  also have "\<dots> = (B @ xs) @ x # replicate e 0 @ x # ys" by simp
  finally have "?A[?i := x, length B + length xs := 0] = (B @ xs) @ 0 # replicate e 0 @ x # ys"
    using list_update_length [of "B @ xs" x "replicate e 0 @ x # ys" 0] by simp
  then have upd: "?A[?i := x, length B + length xs := 0] = B @ xs @ replicate d 0 @ x # ys" by (simp add: d)
  show ?case
    using snoc [of "x # ys"] A z upd d
    by (subst ipv6_swap_loop.simps) simp
qed

lemma format_hex_ascii: "b \<in> set (format_hex v) \<Longrightarrow> is_ascii_hex_digit (ord_of b)"
  using digit_lookup_lower digits_of_bound [of 16 _ v] by (auto simp: format_hex_digits)

lemma hex_digit_ascii: "is_ascii_hex_digit c \<Longrightarrow> c < 128"
  by (auto simp: class_defs)

lemma set_join_with: "set (join_with sep xs) \<subseteq> set sep \<union> (\<Union>x\<in>set xs. set x)"
  by (induction sep xs rule: join_with.induct) auto

lemma serialize_ipv6_chars:
  assumes "length a = 8" "b \<in> set (serialize_ipv6_address a [])"
  shows "b = CHR '':'' \<or> is_ascii_hex_digit (ord_of b)"
  using assms(1)
proof (cases rule: serialize_ipv6_cases [where out = "[]"])
  case plain
  with assms(2) set_join_with [of "'':''" "map hex_of a"] format_hex_ascii show ?thesis by auto
next
  case (compressed pre n post)
  with assms(2) set_join_with [of "'':''" "map hex_of post"] format_hex_ascii show ?thesis
    by (auto split: if_splits)
qed

lemma ipv6_address_decode:
  assumes "length a = 8"
  shows "utf8_decode (serialize_ipv6_address a []) = map ord_of (serialize_ipv6_address a [])"
proof (rule utf8_decode_ascii, unfold list_all_iff, rule ballI)
  fix b
  assume "b \<in> set (serialize_ipv6_address a [])"
  from serialize_ipv6_chars [OF assms this] show "ord_of b < 128" by (auto dest: hex_digit_ascii)
qed

lemma store_all: "length a = 8 \<Longrightarrow> store (replicate 8 0) 0 a = a"
  using store_append [of a "replicate 8 0" "[]"] by simp

text \<open>After the compressed piece: the pieces that follow it and the swaps.\<close>

lemma ipv6_finish:
  assumes "drop p cps = map ord_of (join_with '':'' (map hex_of post))"
    and "length pre + n + length post = 8" "n \<ge> 2"
    and "A = pre @ replicate (8 - length pre) 0"
  shows "outcome_bind (ipv6_loop cps (A, length pre + 1, Some (length pre + 1), p)) ipv6_expand
      = Success (pre @ replicate n 0 @ post)"
proof -
  let ?B = "pre @ [0]"
  have A: "A = ?B @ replicate (n - 1 + length post) 0"
  proof -
    have "8 - length pre = Suc (n - 1 + length post)" using assms(2,3) by simp
    then show ?thesis unfolding assms(4) by simp
  qed
  have st: "store A (length pre + 1) post = ?B @ post @ replicate (n - 1) 0"
    using store_append [of post "replicate (n - 1 + length post) 0" ?B] by (simp add: A)
  have "\<exists>q. ipv6_loop cps (A, length pre + 1, Some (length pre + 1), p) =
      Success (store A (length pre + 1) post, length pre + 1 + length post, Some (length pre + 1), q)"
  proof (cases "post = []")
    case True
    with assms(1) show ?thesis by (simp add: ipv6_loop.simps ipv6_c_drop)
  next
    case False
    then show ?thesis
      using ipv6_loop_final_pieces [OF assms(1), of "length pre + 1" A "Some (length pre + 1)"] assms(2,3,4)
      by simp
  qed
  moreover have "ipv6_swap_loop (?B @ post @ replicate (n - 1) 0 @ []) (length ?B)
      (length ?B + length post + (n - 1) - 1) (length post) = Success (?B @ replicate (n - 1) 0 @ post @ [])"
    by (rule ipv6_swap_loop_moves) (use assms(3) in simp)
  moreover have "length ?B + length post + (n - 1) - 1 = 7" using assms(2,3) by simp
  moreover have rn: "replicate n (0 :: u16) = 0 # replicate (n - 1) 0" using assms(3) by (cases n) auto
  ultimately show ?thesis by (auto simp: st [simplified] rn ipv6_expand_def)
qed

lemma parse_serialize_ipv6:
  assumes "length a = 8"
  shows "parse_ipv6_address (serialize_ipv6_address a []) = Success a"
  using assms
proof (cases rule: serialize_ipv6_cases [where out = "[]"])
  case plain
  let ?cps = "utf8_decode (serialize_ipv6_address a [])"
  have cps: "drop 0 ?cps = map ord_of (join_with '':'' (map hex_of a))"
    using plain ipv6_address_decode [OF assms] by simp
  obtain v w vs where "a = v # w # vs" using assms by (cases a; cases "tl a") auto
  with cps have "drop 0 ?cps = hex_points v @ 58 # map ord_of (join_with '':'' (map hex_of (w # vs)))" by simp
  from ipv6_c_piece(3) [OF this] have "ipv6_c ?cps 0 \<noteq> 58" .
  moreover obtain q where "ipv6_loop ?cps (replicate 8 0, 0, None, 0) = Success (store (replicate 8 0) 0 a, 8, None, q)"
    using ipv6_loop_final_pieces [OF cps, of 0 "replicate 8 0" None] assms by fastforce
  ultimately show ?thesis by (simp add: parse_ipv6_address_def Let_def ipv6_expand_def store_all [OF assms])
next
  case (compressed pre n post)
  let ?cps = "utf8_decode (serialize_ipv6_address a [])"
  have len: "length pre + n + length post = 8" using compressed(1) assms by simp
  show ?thesis
  proof (cases "pre = []")
    case True
    then have cps: "?cps = 58 # 58 # map ord_of (join_with '':'' (map hex_of post))"
      using compressed ipv6_address_decode [OF assms] by simp
    then have "drop 2 ?cps = map ord_of (join_with '':'' (map hex_of post))" by simp
    note finish = ipv6_finish [OF this, of "[]" n "replicate 8 0"]
    have "ipv6_c ?cps 0 = 58" "ipv6_remaining ?cps 0 \<noteq> []" "ipv6_remaining ?cps 0 ! 0 = 58"
      unfolding cps by (simp_all add: ipv6_c_def ipv6_remaining_def)
    with finish len True compressed(1,2) show ?thesis
      by (simp add: parse_ipv6_address_def Let_def)
  next
    case False
    then obtain v vs where v: "pre = v # vs" by (cases pre) auto
    have cps: "drop 0 ?cps = concat (map (\<lambda>v. hex_points v @ [58]) pre) @ 58 # map ord_of (join_with '':'' (map hex_of post))"
      using False compressed ipv6_address_decode [OF assms] by (simp add: map_concat comp_def)
    then have "drop 0 ?cps = hex_points v @ 58 # concat (map (\<lambda>v. hex_points v @ [58]) vs) @ 58 # map ord_of (join_with '':'' (map hex_of post))"
      using v by simp
    from ipv6_c_piece(3) [OF this] have c0: "ipv6_c ?cps 0 \<noteq> 58" .
    obtain q where q: "drop q ?cps = 58 # map ord_of (join_with '':'' (map hex_of post))"
      "ipv6_loop ?cps (replicate 8 0, 0, None, 0) = ipv6_loop ?cps (store (replicate 8 0) 0 pre, length pre, None, q)"
      using ipv6_loop_pieces [OF cps, of 0 "replicate 8 0" None] len by (auto simp: end_of_file_def)
    have st: "store (replicate 8 0) 0 pre = pre @ replicate (8 - length pre) 0"
      using store_append [of pre "replicate 8 0" "[]"] len by simp
    have q1: "drop (q + 1) ?cps = map ord_of (join_with '':'' (map hex_of post))"
      using drop_after [of q ?cps "[58]"] q(1) by simp
    have "ipv6_loop ?cps (store (replicate 8 0) 0 pre, length pre, None, q) =
        ipv6_loop ?cps (store (replicate 8 0) 0 pre, length pre + 1, Some (length pre + 1), q + 1)"
      using q(1) len compressed(2)
      by (subst ipv6_loop.simps) (simp add: ipv6_step_def ipv6_c_drop end_of_file_def)
    with ipv6_finish [OF q1 len compressed(2) st] q(2) c0 compressed(1) show ?thesis
      by (simp add: parse_ipv6_address_def Let_def)
  qed
qed

subsection \<open>Safety of the IPv6 parser\<close>

text \<open>No digit is read that is not one, and no piece outside the array is touched.\<close>

lemma ipv6_hex_loop_no_crash: "ipv6_hex_loop cps p v n \<noteq> Crash \<and> ipv6_hex_loop cps p v n \<noteq> Failure"
proof (induction cps p v n rule: ipv6_hex_loop.induct)
  case (1 cps p v n)
  then show ?case
    using parse_ascii_hex_digit_defined [of "ipv6_c cps p"]
    by (subst (1 2) ipv6_hex_loop.simps) (auto split: option.splits)
qed

lemma parse_ascii_digit_defined: "is_ascii_digit c \<Longrightarrow> parse_ascii_digit c \<noteq> None"
  by (simp add: parse_ascii_digit_def)

lemma ipv4_in_ipv6_number_loop_no_crash: "ipv4_in_ipv6_number_loop cps p piece \<noteq> Crash"
proof (induction cps p piece rule: ipv4_in_ipv6_number_loop.induct)
  case (1 cps p piece)
  then show ?case
    using parse_ascii_digit_defined [of "ipv6_c cps p"]
    by (subst ipv4_in_ipv6_number_loop.simps) (auto split: option.splits outcome.splits)
qed

lemma ipv4_in_ipv6_number_loop_Some:
  "ipv4_in_ipv6_number_loop cps p (Some v) = Success (q, r) \<Longrightarrow> r \<noteq> None"
proof (induction cps p "Some v" arbitrary: v rule: ipv4_in_ipv6_number_loop.induct)
  case (1 cps p)
  from 1(2) show ?case
    by (subst (asm) ipv4_in_ipv6_number_loop.simps)
      (auto split: if_splits option.splits outcome.splits dest: 1(1))
qed

lemma ipv4_in_ipv6_number_loop_digit:
  assumes "ipv4_in_ipv6_number_loop cps p None = Success (q, r)" "is_ascii_digit (ipv6_c cps p)"
  shows "r \<noteq> None"
  using assms
  by (subst (asm) ipv4_in_ipv6_number_loop.simps)
    (auto split: if_splits option.splits outcome.splits dest: ipv4_in_ipv6_number_loop_Some)

lemma ipv4_in_ipv6_loop_safe:
  assumes "length A = 8" "n \<le> 4" "i = j + n div 2" "j \<le> 6"
  shows "ipv4_in_ipv6_loop cps p A i n \<noteq> Crash \<and>
    (\<forall>A' i' n'. ipv4_in_ipv6_loop cps p A i n = Success (A', i', n') \<longrightarrow> length A' = 8 \<and> n' \<le> 4 \<and> i' = j + n' div 2)"
  using assms
proof (induction "length cps - p" arbitrary: p A i n rule: less_induct)
  case 1: less
  let ?p = "if n > 0 then p + 1 else p"
  show ?case
  proof (cases "ipv6_c cps p \<noteq> end_of_file \<and> \<not> (n > 0 \<and> \<not> (ipv6_c cps p = ord_of CHR ''.'' \<and> n < 4))
      \<and> is_ascii_digit (ipv6_c cps ?p)")
    case False
    with 1(2-5) show ?thesis by (subst (1 2) ipv4_in_ipv6_loop.simps) (auto simp: Let_def)
  next
    case True
    then have n: "n < 4" by auto
    have i: "i < length A" using 1(2-5) n by simp
    show ?thesis
    proof (cases "ipv4_in_ipv6_number_loop cps ?p None")
      case Crash
      then show ?thesis using ipv4_in_ipv6_number_loop_no_crash by blast
    next
      case Failure
      with True show ?thesis by (subst (1 2) ipv4_in_ipv6_loop.simps) (auto simp: Let_def)
    next
      case (Success r)
      then obtain q v where r: "ipv4_in_ipv6_number_loop cps ?p None = Success (q, Some v)"
        using ipv4_in_ipv6_number_loop_digit [of cps ?p] True by (cases r) auto
      let ?A = "A[i := of_nat (unat (A ! i) * 256 + v)]"
      have set: "set_piece A i (unat (A ! i) * 0x100 + v) = Success ?A" using i by (simp add: set_piece_def)
      let ?i = "if n + 1 = 2 \<or> n + 1 = 4 then i + 1 else i"
      have eq: "ipv4_in_ipv6_loop cps p A i n = ipv4_in_ipv6_loop cps q ?A ?i (n + 1)"
      proof -
        have c: "ipv6_c cps p \<noteq> end_of_file"
            "\<not> (n > 0 \<and> \<not> (ipv6_c cps p = ord_of CHR ''.'' \<and> n < 4))"
            "\<not> \<not> is_ascii_digit (ipv6_c cps ?p)" "\<not> \<not> i < length A"
          using True i by blast+
        show ?thesis
          unfolding ipv4_in_ipv6_loop.simps [of cps p A i n] Let_def if_P [OF c(1)] if_not_P [OF c(2)]
            if_not_P [OF c(3)] r outcome.case prod.case option.case if_not_P [OF c(4)] set ..
      qed
      have q: "length cps - q < length cps - p"
        using ipv4_in_ipv6_number_loop_advances [OF r] ipv6_c_digit(2) [of cps ?p] True by (auto split: if_splits)
      have "n = 0 \<or> n = 1 \<or> n = 2 \<or> n = 3" using n by auto
      then have idx: "?i = j + (n + 1) div 2" using 1(4) by auto
      have "ipv4_in_ipv6_loop cps q ?A ?i (n + 1) \<noteq> Crash \<and>
        (\<forall>A' i' n'. ipv4_in_ipv6_loop cps q ?A ?i (n + 1) = Success (A', i', n') \<longrightarrow>
           length A' = 8 \<and> n' \<le> 4 \<and> i' = j + n' div 2)"
        by (rule 1(1)) (use idx n 1(2,5) q in simp_all)
      then show ?thesis unfolding eq .
    qed
  qed
qed

definition ipv6_state_ok :: "ipv6_state \<Rightarrow> bool" where
  "ipv6_state_ok st \<longleftrightarrow> (case st of (A, i, cmp, p) \<Rightarrow>
     length A = 8 \<and> i \<le> 8 \<and> (\<forall>k. cmp = Some k \<longrightarrow> k \<le> i))"

lemma ipv6_after_digits_safe:
  assumes "ipv6_state_ok (A, i, cmp, p)" "i \<noteq> 8"
  shows "ipv6_after_digits cps A i cmp q v n \<noteq> Crash
    \<and> (\<forall>st. ipv6_after_digits cps A i cmp q v n = Success (Inl st) \<longrightarrow> ipv6_state_ok st)
    \<and> (\<forall>st. ipv6_after_digits cps A i cmp q v n = Success (Inr st) \<longrightarrow> ipv6_state_ok st)"
proof -
  have A: "length A = 8" "i < 8" "\<forall>k. cmp = Some k \<longrightarrow> k \<le> i" using assms by (auto simp: ipv6_state_ok_def)
  show ?thesis
  proof (cases "ipv6_c cps q = ord_of CHR ''.''")
    case True
    show ?thesis
    proof (cases "n = 0 \<or> i > 6")
      case True
      with \<open>ipv6_c cps q = ord_of CHR ''.''\<close> show ?thesis by (auto simp: ipv6_after_digits_def Let_def)
    next
      case False
      with ipv4_in_ipv6_loop_safe [of A 0 i i cps "q - n"] A True show ?thesis
        by (cases "ipv4_in_ipv6_loop cps (q - n) A i 0")
          (fastforce simp: ipv6_after_digits_def Let_def ipv6_state_ok_def split: if_splits)+
    qed
  next
    case False
    with A show ?thesis
      by (auto simp: ipv6_after_digits_def set_piece_def ipv6_state_ok_def)
  qed
qed

lemma ipv6_step_safe:
  assumes "ipv6_state_ok st"
  shows "ipv6_step cps st \<noteq> Crash
    \<and> (\<forall>st'. ipv6_step cps st = Success (Inl st') \<longrightarrow> ipv6_state_ok st')
    \<and> (\<forall>st'. ipv6_step cps st = Success (Inr st') \<longrightarrow> ipv6_state_ok st')"
proof -
  obtain A i cmp p where st: "st = (A, i, cmp, p)" by (cases st)
  show ?thesis
  proof (cases "i = 8 \<or> ipv6_c cps p = ord_of CHR '':''")
    case True
    with assms st show ?thesis by (auto simp: ipv6_step_def ipv6_state_ok_def)
  next
    case False
    obtain q v n where q: "ipv6_hex_loop cps p 0 0 = Success (q, v, n)"
      using ipv6_hex_loop_no_crash [of cps p 0 0] by (cases "ipv6_hex_loop cps p 0 0") auto
    with False st have eq: "ipv6_step cps st = ipv6_after_digits cps A i cmp q v n" by (simp add: ipv6_step_def)
    show ?thesis
      unfolding eq by (rule ipv6_after_digits_safe) (use assms False st in simp_all)
  qed
qed

lemma ipv6_loop_safe:
  "ipv6_state_ok st \<Longrightarrow> ipv6_loop cps st \<noteq> Crash \<and> (\<forall>st'. ipv6_loop cps st = Success st' \<longrightarrow> ipv6_state_ok st')"
proof (induction cps st rule: ipv6_loop.induct)
  case (1 cps A i cmp p)
  show ?case
  proof (cases "ipv6_c cps p = end_of_file")
    case True
    with 1(2) show ?thesis by (simp add: ipv6_loop.simps)
  next
    case False
    with 1 ipv6_step_safe [OF 1(2), of cps] show ?thesis
      by (subst (1 2) ipv6_loop.simps) (auto split: outcome.splits sum.splits)
  qed
qed

lemma ipv6_swap_loop_safe:
  "length A = 8 \<Longrightarrow> k + n \<le> 8 \<Longrightarrow> i \<le> 7 \<Longrightarrow> \<exists>A'. ipv6_swap_loop A k i n = Success A' \<and> length A' = 8"
proof (induction n arbitrary: A i)
  case 0
  then show ?case by (cases i) (simp_all add: ipv6_swap_loop.simps)
next
  case (Suc n)
  then show ?case
    by (subst ipv6_swap_loop.simps) (cases i; simp)
qed

lemma ipv6_expand_safe:
  assumes "ipv6_state_ok st"
  shows "ipv6_expand st \<noteq> Crash \<and> (\<forall>a. ipv6_expand st = Success a \<longrightarrow> length a = 8)"
proof -
  obtain A i cmp p where st: "st = (A, i, cmp, p)" by (cases st)
  show ?thesis
  proof (cases cmp)
    case None
    with assms st show ?thesis by (auto simp: ipv6_expand_def ipv6_state_ok_def)
  next
    case (Some k)
    with assms st ipv6_swap_loop_safe [of A k "i - k" 7] show ?thesis
      by (auto simp: ipv6_expand_def ipv6_state_ok_def)
  qed
qed

lemma parse_ipv6_address_safe:
  "parse_ipv6_address s \<noteq> Crash \<and> (\<forall>a. parse_ipv6_address s = Success a \<longrightarrow> length a = 8)"
proof -
  let ?cps = "utf8_decode s"
  have fin: "outcome_bind (ipv6_loop ?cps st) ipv6_expand \<noteq> Crash
      \<and> (\<forall>a. outcome_bind (ipv6_loop ?cps st) ipv6_expand = Success a \<longrightarrow> length a = 8)"
    if "ipv6_state_ok st" for st
    using ipv6_loop_safe [OF that, of ?cps] ipv6_expand_safe
    by (cases "ipv6_loop ?cps st") auto
  have "ipv6_state_ok (replicate 8 0, 1, Some 1, 2)" "ipv6_state_ok (replicate 8 0, 0, None, 0)"
    by (simp_all add: ipv6_state_ok_def)
  from fin [OF this(1)] fin [OF this(2)] show ?thesis
    by (simp add: parse_ipv6_address_def Let_def)
qed

interpretation ipv6: printer "\<lambda>a. serialize_ipv6_address a []" "\<lambda>s. outcome_option (parse_ipv6_address s)"
  "\<lambda>a. length a = 8"
  by unfold_locales (simp add: parse_serialize_ipv6)

subsection \<open>Properties\<close>

text \<open>
  C23. IPv6 round trip.  Parsing the serialization of eight pieces, compressed or not, gives the
  pieces back, and different addresses are serialized differently.
\<close>

theorem ipv6_roundtrip:
  assumes "length a = 8" "length b = 8"
  shows "parse_ipv6_address (serialize_ipv6_address a []) = Success a
   \<and> (serialize_ipv6_address a [] = serialize_ipv6_address b [] \<longleftrightarrow> a = b)"
  using parse_serialize_ipv6 [OF assms(1)] ipv6.print_inject [OF assms] by simp

theorem ipv6_roundtrip_witness:
  "parse_ipv6_address (serialize_ipv6_address [0x2001, 0xDB8, 0, 0, 1, 0, 0, 1] [])
     = Success [0x2001, 0xDB8, 0, 0, 1, 0, 0, 1]"
  using ipv6_roundtrip [of "[0x2001, 0xDB8, 0, 0, 1, 0, 0, 1]" "[0x2001, 0xDB8, 0, 0, 1, 0, 0, 1]"] by simp

text \<open>
  C24. The serializer compresses the first of the longest runs of zero pieces: it is a run of at
  least two, no run is longer and none as long starts before it; and it compresses nothing only
  when no run has two pieces.
\<close>

theorem ipv6_compress_first_longest:
  "case find_compress a of
     Some k \<Rightarrow> \<exists>n\<ge>2. zero_run a k n \<and> (\<forall>s m. zero_run a s m \<longrightarrow> m \<le> n) \<and> (\<forall>s<k. \<not> zero_run a s n)
   | None \<Rightarrow> \<forall>s m. zero_run a s m \<longrightarrow> m \<le> 1"
proof (cases "find_compress a")
  case None
  then show ?thesis using find_compress_None by auto
next
  case (Some k)
  then obtain n where "n \<ge> 2" "zero_run a k n" "\<forall>s m. zero_run a s m \<longrightarrow> m \<le> n" "\<forall>s<k. \<not> zero_run a s n"
    by (rule find_compress_Some)
  with Some show ?thesis by auto
qed

theorem ipv6_compress_first_longest_witness:
  "find_compress [1, 0, 0, 2, 0, 0, 3, 4] = Some 1
   \<and> (\<exists>n\<ge>2. zero_run [1, 0, 0, 2, 0, 0, 3, 4] 1 n)"
proof -
  have "find_compress [1, 0, 0, 2, 0, 0, 3, 4] = Some 1" by (simp add: find_compress_def)
  with ipv6_compress_first_longest [of "[1, 0, 0, 2, 0, 0, 3, 4]"] show ?thesis by auto
qed

text \<open>
  C25. Safety of the IPv6 parser.  On any bytes it ends without failing an assertion: it never
  reads a digit that is not one nor a piece outside the array, also while it reads an embedded
  IPv4 address and while it moves the pieces after the compressed one; and what it accepts
  has eight pieces.
\<close>

theorem parse_ipv6_no_crash:
  "parse_ipv6_address s = Failure \<or> (\<exists>a. parse_ipv6_address s = Success a \<and> length a = 8)"
  using parse_ipv6_address_safe [of s] by (cases "parse_ipv6_address s") auto

end
