(* ===== verification/Host.thy ===== *)
theory Host
  imports Percent Ipv4 Ipv6
begin

text \<open>
  Hosts (\<^verbatim>\<open>LibURL/Host.h\<close> and the host part of \<^verbatim>\<open>LibURL/Parser.cpp\<close>): the forbidden code points,
  the opaque-host parser, the ends-in-a-number checker, domain to ASCII, the host parser and
  the host serializer; and \<^verbatim>\<open>LibUnicode/IDNA.cpp\<close>, whose \<^verbatim>\<open>to_ascii\<close> wraps ICU.

  ICU's \<^verbatim>\<open>nameToASCII_UTF8\<close> is a parameter.  The host parser takes the ToASCII function as an
  argument; what its round trip relies on is the predicate \<open>idna_ok\<close>: ToASCII gives a
  lowercase ASCII name that it maps to itself (UTS #46).

  A \<^verbatim>\<open>char\<close> that the sources convert to \<^verbatim>\<open>u32\<close> is read as its byte.  Where \<^verbatim>\<open>char\<close> is signed, a
  byte from 128 on becomes a number beyond Unicode instead; the predicates used here are false
  of both.
\<close>

subsection \<open>The model\<close>

datatype host = Host_IPv4 ipv4_address | Host_IPv6 ipv6_address | Host_String bytes | Host_Empty

text \<open>\<^verbatim>\<open>StringView::contains\<close> for a code point: it looks for the UTF-8 bytes of the code point.\<close>

definition string_view_contains :: "bytes \<Rightarrow> bytes \<Rightarrow> bool" where
  "string_view_contains str needle =
     (if length needle = 1 then needle ! 0 \<in> set str else contains str needle CaseSensitive)"

definition string_view_contains_u32 :: "bytes \<Rightarrow> code_point \<Rightarrow> bool" where
  "string_view_contains_u32 str needle = string_view_contains str (try_append_code_point [] needle)"

definition is_forbidden_host_code_point :: "code_point \<Rightarrow> bool" where
  "is_forbidden_host_code_point code_point =
     string_view_contains_u32
       [CHR 0x00, CHR 0x09, CHR 0x0A, CHR 0x0D, CHR '' '', CHR ''#'', CHR ''/'', CHR '':'', CHR ''<'', CHR ''>'',
        CHR ''?'', CHR ''@'', CHR ''['', CHR 0x5C, CHR '']'', CHR ''^'', CHR ''|''] code_point"

definition is_forbidden_domain_code_point :: "code_point \<Rightarrow> bool" where
  "is_forbidden_domain_code_point code_point =
     (is_forbidden_host_code_point code_point \<or> is_ascii_c0_control code_point
      \<or> code_point = ord_of CHR ''%'' \<or> code_point = 0x7F)"

definition is_url_code_point :: "code_point \<Rightarrow> bool" where
  "is_url_code_point code_point =
     (is_ascii_alphanumeric code_point
      \<or> string_view_contains_u32
          [CHR ''!'', CHR ''$'', CHR ''&'', CHR 0x27, CHR ''('', CHR '')'', CHR ''*'', CHR ''+'', CHR '','', CHR ''-'',
           CHR ''.'', CHR ''/'', CHR '':'', CHR '';'', CHR ''='', CHR ''?'', CHR ''@'', CHR ''_'', CHR ''~''] code_point
      \<or> code_point \<ge> 0x00A0 \<and> code_point \<le> 0x10FFFD \<and> \<not> is_unicode_surrogate code_point
         \<and> \<not> is_unicode_noncharacter code_point)"

definition parse_opaque_host :: "bytes \<Rightarrow> host outcome" where
  "parse_opaque_host input =
     (if list_ex is_forbidden_host_code_point (utf8_decode input) then Failure
      else (case percent_encode input C0Control False of None \<Rightarrow> Crash | Some s \<Rightarrow> Success (Host_String s)))"

definition ends_in_a_number_checker :: "bytes \<Rightarrow> bool outcome" where
  "ends_in_a_number_checker input =
     (case split_view input ''.'' Split_KeepEmpty of
        None \<Rightarrow> Crash
      | Some parts \<Rightarrow>
          if parts = [] then Crash
          else if last parts = [] \<and> length parts = 1 then Success False
          else
            let parts = (if last parts = [] then butlast parts else parts);
                lst = last parts
            in if lst \<noteq> [] \<and> list_all (\<lambda>c. is_ascii_digit (ord_of c)) lst then Success True
               else if starts_with lst ''0x'' CaseInsensitive
                       \<and> list_all (\<lambda>c. is_ascii_hex_digit (ord_of c)) (drop 2 lst) then Success True
               else Success False)"

text \<open>\<^verbatim>\<open>Unicode::IDNA::to_ascii\<close>.\<close>

record to_ascii_options =
  check_hyphens :: bool
  check_bidi :: bool
  check_joiners :: bool
  use_std3_ascii_rules :: bool
  transitional_processing :: bool
  verify_dns_length :: bool

datatype icu_option =
  UIDNA_CHECK_BIDI | UIDNA_CHECK_CONTEXTJ | UIDNA_USE_STD3_RULES
| UIDNA_NONTRANSITIONAL_TO_ASCII | UIDNA_NONTRANSITIONAL_TO_UNICODE

datatype icu_error =
  UIDNA_ERROR_EMPTY_LABEL | UIDNA_ERROR_LABEL_TOO_LONG | UIDNA_ERROR_DOMAIN_NAME_TOO_LONG
| UIDNA_ERROR_LEADING_HYPHEN | UIDNA_ERROR_TRAILING_HYPHEN | UIDNA_ERROR_HYPHEN_3_4 | UIDNA_ERROR_OTHER nat

text \<open>
  \<open>create\<close> is ICU's \<^verbatim>\<open>createUTS46Instance\<close> with the options: \<open>None\<close> when the instance cannot be
  made, and otherwise the function \<^verbatim>\<open>nameToASCII_UTF8\<close> of the instance, which gives \<open>None\<close> for a
  failing status and otherwise the name and the set bits of \<^verbatim>\<open>info.getErrors()\<close>.  \<open>validate\<close> is the
  UTF-8 validation of \<^verbatim>\<open>StringBuilder::to_string\<close> (simdutf).
\<close>

definition to_ascii ::
  "(bytes \<Rightarrow> bool) \<Rightarrow> (icu_option list \<Rightarrow> (bytes \<Rightarrow> (bytes \<times> icu_error list) option) option)
   \<Rightarrow> bytes \<Rightarrow> to_ascii_options \<Rightarrow> bytes option"
where
  "to_ascii validate create domain_name options =
     (let icu_options =
            (if check_bidi options then [UIDNA_CHECK_BIDI] else [])
            @ (if check_joiners options then [UIDNA_CHECK_CONTEXTJ] else [])
            @ (if use_std3_ascii_rules options then [UIDNA_USE_STD3_RULES] else [])
            @ (if \<not> transitional_processing options
               then [UIDNA_NONTRANSITIONAL_TO_ASCII, UIDNA_NONTRANSITIONAL_TO_UNICODE] else [])
      in case create icu_options of
           None \<Rightarrow> None
         | Some name_to_ascii \<Rightarrow>
             (case name_to_ascii domain_name of
                None \<Rightarrow> None
              | Some (result, errors) \<Rightarrow>
                  let errors = (if check_hyphens options then errors
                        else filter (\<lambda>e. e \<notin> {UIDNA_ERROR_HYPHEN_3_4, UIDNA_ERROR_LEADING_HYPHEN,
                                              UIDNA_ERROR_TRAILING_HYPHEN}) errors);
                      errors = (if verify_dns_length options then errors
                        else filter (\<lambda>e. e \<notin> {UIDNA_ERROR_EMPTY_LABEL, UIDNA_ERROR_LABEL_TOO_LONG,
                                              UIDNA_ERROR_DOMAIN_NAME_TOO_LONG}) errors)
                  in if errors \<noteq> [] then None
                     else if validate result then Some result else None))"

type_synonym idna = "bytes \<Rightarrow> to_ascii_options \<Rightarrow> bytes option"

definition domain_options :: "bool \<Rightarrow> to_ascii_options" where
  "domain_options be_strict =
     \<lparr>check_hyphens = False, check_bidi = True, check_joiners = True, use_std3_ascii_rules = be_strict,
      transitional_processing = False, verify_dns_length = be_strict\<rparr>"

definition domain_slow_path :: "bytes \<Rightarrow> bool" where
  "domain_slow_path domain =
     (case split_view domain ''.'' Split_Nothing of
        None \<Rightarrow> False
      | Some parts \<Rightarrow> list_ex (\<lambda>part. starts_with part ''xn--'' CaseInsensitive) parts)"

definition domain_to_ascii :: "idna \<Rightarrow> bytes \<Rightarrow> bool \<Rightarrow> bytes option" where
  "domain_to_ascii idna domain be_strict =
     (let slow =
        (case idna domain (domain_options be_strict) of
           None \<Rightarrow> None
         | Some result \<Rightarrow> if result = [] then None else Some result)
      in if \<not> be_strict \<and> list_all (\<lambda>c. is_ascii (ord_of c)) domain then
           if domain = [] then None
           else if \<not> domain_slow_path domain then Some (to_lowercase_string domain)
           else slow
         else slow)"

definition parse_host :: "idna \<Rightarrow> bytes \<Rightarrow> bool \<Rightarrow> host outcome" where
  "parse_host idna input is_opaque =
     (if input \<noteq> [] \<and> input ! 0 = CHR ''['' then
        if last input \<noteq> CHR '']'' then Failure
        else outcome_bind (parse_ipv6_address (take (length input - 2) (drop 1 input))) (\<lambda>address.
          Success (Host_IPv6 address))
      else if is_opaque then parse_opaque_host input
      else if input = [] then Crash
      else (case percent_decode input of
              None \<Rightarrow> Crash
            | Some domain \<Rightarrow>
                (case domain_to_ascii idna domain False of
                   None \<Rightarrow> Failure
                 | Some ascii_domain \<Rightarrow>
                     if list_ex (\<lambda>c. is_forbidden_domain_code_point (ord_of c)) ascii_domain then Failure
                     else outcome_bind (ends_in_a_number_checker ascii_domain) (\<lambda>is_number.
                            if is_number then
                              outcome_bind (parse_ipv4_address ascii_domain) (\<lambda>address. Success (Host_IPv4 address))
                            else Success (Host_String ascii_domain)))))"

fun serialize_host :: "host \<Rightarrow> bytes" where
  "serialize_host (Host_IPv4 address) = serialize_ipv4_address address"
| "serialize_host (Host_IPv6 address) = serialize_ipv6_address address ''['' @ '']''"
| "serialize_host (Host_String domain) = domain"
| "serialize_host Host_Empty = []"


subsection \<open>Code points in an ASCII string\<close>

lemma string_view_contains_u32_ascii:
  assumes "list_all (\<lambda>b. ord_of b < 128) str"
  shows "string_view_contains_u32 str c \<longleftrightarrow> c \<in> ord_of ` set str"
proof (cases "c \<le> 0x7F")
  case True
  moreover have "char_of c \<in> set str \<longleftrightarrow> c \<in> ord_of ` set str" if "c < 256"
    using that sv_contains_ord [of c str] by (simp add: sv_contains_def)
  ultimately show ?thesis
    by (simp add: string_view_contains_u32_def string_view_contains_def try_append_code_point_same
        append_code_point_def)
next
  case False
  have "\<exists>b\<in>set (try_append_code_point [] c). 128 \<le> ord_of b"
    and "length (try_append_code_point [] c) \<noteq> 1"
  proof -
    have last: "128 \<le> ord_of (char_of (c mod 64 + 128))"
    proof -
      have "c mod 64 + 128 < 256" using mod_less_divisor [of 64 c] by linarith
      then show ?thesis by (simp only: ord_char_of_small)
    qed
    consider "0x7F < c" "c \<le> 0x7FF" | "0x7FF < c" "c \<le> 0xFFFF" | "0xFFFF < c" "c \<le> 0x10FFFF" | "0x10FFFF < c"
      using False by linarith
    then have "(\<exists>b\<in>set (utf8_encode c). 128 \<le> ord_of b) \<and> length (utf8_encode c) \<noteq> 1"
    proof cases
      case 4
      then show ?thesis by (simp add: utf8_encode_def append_code_point_def)
    qed (use last in \<open>simp_all only: utf8_encode_bytes, simp_all\<close>)
    then show "\<exists>b\<in>set (try_append_code_point [] c). 128 \<le> ord_of b"
      and "length (try_append_code_point [] c) \<noteq> 1"
      by (simp_all add: try_append_code_point_same utf8_encode_def)
  qed
  moreover have "\<not> sublist t str" if "\<exists>b\<in>set t. 128 \<le> ord_of b" for t
    using that assms set_mono_sublist [of t str] by (force simp: list_all_iff)
  moreover have "c \<notin> ord_of ` set str" using False assms by (auto simp: list_all_iff)
  ultimately show ?thesis
    by (simp add: string_view_contains_u32_def string_view_contains_def contains_CaseSensitive_iff)
qed

lemma is_forbidden_host_code_point_iff:
  "is_forbidden_host_code_point c \<longleftrightarrow>
     c \<in> {0, 9, 10, 13, 32, 35, 47, 58, 60, 62, 63, 64, 91, 92, 93, 94, 124}"
  unfolding is_forbidden_host_code_point_def
  by (subst string_view_contains_u32_ascii) simp_all

lemma is_forbidden_domain_code_point_iff:
  "is_forbidden_domain_code_point c \<longleftrightarrow>
     c \<le> 32 \<or> c \<in> {35, 37, 47, 58, 60, 62, 63, 64, 91, 92, 93, 94, 124, 127}"
  by (auto simp: is_forbidden_domain_code_point_def is_forbidden_host_code_point_iff is_ascii_c0_control_def)

subsection \<open>What the parsers return\<close>

text \<open>The hosts that parsing may return.\<close>

definition opaque_host_byte :: "char \<Rightarrow> bool" where
  "opaque_host_byte c \<longleftrightarrow> 0x20 < ord_of c \<and> ord_of c < 0x7F \<and> \<not> is_forbidden_host_code_point (ord_of c)"

fun host_valid :: "bool \<Rightarrow> host \<Rightarrow> bool" where
  "host_valid is_opaque (Host_IPv4 address) \<longleftrightarrow> \<not> is_opaque"
| "host_valid is_opaque (Host_IPv6 address) \<longleftrightarrow> length address = 8"
| "host_valid is_opaque (Host_String s) \<longleftrightarrow>
     (if is_opaque then list_all opaque_host_byte s
      else s \<noteq> [] \<and> \<not> list_ex (\<lambda>c. is_forbidden_domain_code_point (ord_of c)) s)"
| "host_valid is_opaque Host_Empty \<longleftrightarrow> False"

lemma encoded_C0_chars:
  assumes "x \<in> set (encoded_code_point C0Control c)"
  shows "x = CHR ''%'' \<or> is_ascii_uppercase_hex_digit (ord_of x) \<or> ord_of x = c \<and> 0x20 \<le> c \<and> c \<le> 0x7E"
proof (cases "code_point_is_in_percent_encode_set c C0Control")
  case True
  with assms show ?thesis by (auto simp: encoded_code_point_def dest: format_02X_chars)
next
  case False
  with assms not_in_set_printable [OF False] show ?thesis by (simp add: encoded_code_point_plain)
qed

lemma hex_digit_not_forbidden:
  "is_ascii_uppercase_hex_digit n \<Longrightarrow> 0x20 < n \<and> n < 0x7F \<and> \<not> is_forbidden_host_code_point n"
  by (auto simp: is_forbidden_host_code_point_iff is_ascii_uppercase_hex_digit_def is_ascii_digit_def)

lemma percent_encoded_idem:
  assumes "list_all (\<lambda>c. ord_of c < 128 \<and> \<not> code_point_is_in_percent_encode_set (ord_of c) enc) s"
  shows "percent_encoded s enc False = s"
proof -
  have "utf8_decode s = map ord_of s"
    using assms by (intro utf8_decode_ascii) (auto simp: list_all_iff)
  moreover have "encoded_code_point enc (ord_of c) = [c]" if "c \<in> set s" for c
    using assms that by (auto simp: list_all_iff encoded_code_point_def utf8_encode_bytes)
  ultimately show ?thesis
    by (simp add: percent_encoded_def comp_def cong: map_cong)
qed

lemma opaque_host_byte_encoded:
  assumes "x \<in> set (encoded_code_point C0Control c)" "\<not> is_forbidden_host_code_point c"
  shows "opaque_host_byte x"
proof -
  consider "x = CHR ''%''" | "is_ascii_uppercase_hex_digit (ord_of x)"
    | "\<not> is_forbidden_host_code_point (ord_of x)" "0x20 \<le> ord_of x" "ord_of x \<le> 0x7E"
    using encoded_C0_chars [OF assms(1)] assms(2) by blast
  then show ?thesis
  proof cases
    case 1
    then show ?thesis by (simp add: is_forbidden_host_code_point_iff opaque_host_byte_def)
  next
    case 2
    then show ?thesis using hex_digit_not_forbidden by (simp add: opaque_host_byte_def)
  next
    case 3
    then have "ord_of x \<noteq> 32" by (auto simp: is_forbidden_host_code_point_iff)
    with 3 show ?thesis by (simp add: opaque_host_byte_def)
  qed
qed

lemma parse_opaque_host_fixpoint:
  assumes s: "list_all opaque_host_byte s"
  shows "parse_opaque_host s = Success (Host_String s)"
proof -
  have "utf8_decode s = map ord_of s"
    using s by (intro utf8_decode_ascii) (auto simp: list_all_iff opaque_host_byte_def)
  moreover have "percent_encoded s C0Control False = s"
    using s by (intro percent_encoded_idem) (auto simp: list_all_iff opaque_host_byte_def)
  ultimately show ?thesis
    using s by (auto simp: parse_opaque_host_def list_all_iff list_ex_iff opaque_host_byte_def)
qed

lemma parse_opaque_host_Success:
  assumes "parse_opaque_host input = Success h"
  obtains s where "h = Host_String s" "list_all opaque_host_byte s"
proof
  show "h = Host_String (percent_encoded input C0Control False)"
    using assms by (simp add: parse_opaque_host_def split: if_splits)
  show "list_all opaque_host_byte (percent_encoded input C0Control False)"
    using assms opaque_host_byte_encoded
    by (auto simp: parse_opaque_host_def percent_encoded_def list_all_iff list_ex_iff split: if_splits)
qed

lemma parse_opaque_host_no_crash: "parse_opaque_host input \<noteq> Crash"
  by (simp add: parse_opaque_host_def)

lemma split_view_dot:
  assumes "s \<noteq> []"
  obtains parts where "split_view s ''.'' Split_KeepEmpty = Some parts" "parts \<noteq> []" "s = join_with ''.'' parts"
    "\<forall>p\<in>set parts. CHR ''.'' \<notin> set p"
proof (rule that)
  show "split_view s ''.'' Split_KeepEmpty = Some (split_loop ''.'' Split_KeepEmpty s)"
    using assms by (simp add: split_view_def)
  have "sublist [c] p \<longleftrightarrow> c \<in> set p" for c :: char and p
    by (metis in_set_conv_decomp list.set_intros(1) set_mono_sublist subsetD sublist_appendI append_Cons append_Nil)
  then show "split_loop ''.'' Split_KeepEmpty s \<noteq> []" "s = join_with ''.'' (split_loop ''.'' Split_KeepEmpty s)"
    "\<forall>p\<in>set (split_loop ''.'' Split_KeepEmpty s). CHR ''.'' \<notin> set p"
    using split_loop_parts [of "''.''" s] by simp_all
qed

lemma ends_in_a_number_no_crash: "s \<noteq> [] \<Longrightarrow> ends_in_a_number_checker s \<noteq> Crash \<and> ends_in_a_number_checker s \<noteq> Failure"
  by (erule split_view_dot) (auto simp: ends_in_a_number_checker_def Let_def)

lemma parse_ipv4_address_no_crash: "s \<noteq> [] \<Longrightarrow> parse_ipv4_address s \<noteq> Crash"
  by (erule split_view_dot) (auto simp: parse_ipv4_address_def Let_def split: option.splits)

lemma domain_to_ascii_not_Nil: "domain_to_ascii ta d b = Some r \<Longrightarrow> r \<noteq> []"
  by (auto simp: domain_to_ascii_def to_lowercase_string_def Let_def split: if_splits option.splits)

lemma parse_host_valid:
  "(parse_host ta input op = Crash \<longleftrightarrow> input = [] \<and> \<not> op)
   \<and> (\<forall>h. parse_host ta input op = Success h \<longrightarrow> host_valid op h)"
proof (cases "input \<noteq> [] \<and> input ! 0 = CHR ''[''")
  case True
  then show ?thesis
    using parse_ipv6_address_safe [of "take (length input - 2) (drop 1 input)"]
    by (auto simp: parse_host_def outcome_bind_Crash outcome_bind_Success)
next
  case False
  show ?thesis
  proof (cases op)
    case True
    with False show ?thesis using parse_opaque_host_no_crash [of input]
      by (auto simp: parse_host_def elim: parse_opaque_host_Success)
  next
    case op: False
    show ?thesis
    proof (cases "input = []")
      case True
      with False op show ?thesis by (simp add: parse_host_def)
    next
      case nonempty: False
      obtain d where d: "percent_decode input = Some d" by (simp add: percent_decode_Some)
      show ?thesis
      proof (cases "domain_to_ascii ta d False")
        case None
        with False op nonempty d show ?thesis by (auto simp: parse_host_def)
      next
        case (Some r)
        then have "r \<noteq> []" by (rule domain_to_ascii_not_Nil)
        with False op nonempty d Some show ?thesis
          using ends_in_a_number_no_crash [of r] parse_ipv4_address_no_crash [of r]
          by (auto simp: parse_host_def outcome_bind_Crash outcome_bind_Success split: if_splits)
      qed
    qed
  qed
qed

subsection \<open>Round trip\<close>

text \<open>What the code relies on of ToASCII.\<close>

definition idna_ok :: "idna \<Rightarrow> bool" where
  "idna_ok ta \<longleftrightarrow> (\<forall>d opts r. ta d opts = Some r \<longrightarrow>
     list_all (\<lambda>c. is_ascii (ord_of c)) r \<and> to_lowercase_string r = r \<and> ta r opts = Some r)"

lemma byte_to_lowercase_dot: "byte_to_lowercase c = CHR ''.'' \<longleftrightarrow> c = CHR ''.''"
  by (auto simp: char_eq_iff_ord to_ascii_lowercase_def is_ascii_upper_alpha_def)

lemma to_lowercase_string_join:
  "to_lowercase_string (join_with ''.'' parts) = join_with ''.'' (map to_lowercase_string parts)"
  using byte_to_lowercase_dot [of "CHR ''.''"]
  by (induction "''.''" parts rule: join_with.induct) (simp_all add: to_lowercase_string_def)

lemma starts_with_lowercase:
  "starts_with (to_lowercase_string p) t CaseInsensitive = starts_with p t CaseInsensitive"
  by (auto simp: starts_with_def to_lowercase_string_def take_map list.rel_map to_ascii_lowercase_idem)

lemma domain_slow_path_parts:
  assumes "s \<noteq> []" "s = join_with ''.'' parts" "parts \<noteq> []" "\<forall>p\<in>set parts. CHR ''.'' \<notin> set p"
  shows "domain_slow_path s \<longleftrightarrow> (\<exists>p\<in>set parts. p \<noteq> [] \<and> starts_with p ''xn--'' CaseInsensitive)"
  using assms
  by (simp add: domain_slow_path_def split_view_def split_loop_Nothing split_loop_join list_ex_iff)
    (auto simp: starts_with_def)

lemma domain_slow_path_lowercase:
  assumes "s \<noteq> []"
  shows "domain_slow_path (to_lowercase_string s) = domain_slow_path s"
proof -
  obtain parts where parts: "parts \<noteq> []" "s = join_with ''.'' parts" "\<forall>p\<in>set parts. CHR ''.'' \<notin> set p"
    using assms by (rule split_view_dot)
  have lower: "\<forall>p\<in>set (map to_lowercase_string parts). CHR ''.'' \<notin> set p"
    using parts(3) byte_to_lowercase_dot by (force simp: to_lowercase_string_def)
  have "domain_slow_path (to_lowercase_string s) \<longleftrightarrow>
      (\<exists>p\<in>set (map to_lowercase_string parts). p \<noteq> [] \<and> starts_with p ''xn--'' CaseInsensitive)"
  proof (rule domain_slow_path_parts)
    show "to_lowercase_string s \<noteq> []" using assms by (simp add: to_lowercase_string_def)
  qed (use parts lower in \<open>simp_all add: to_lowercase_string_join\<close>)
  also have "\<dots> \<longleftrightarrow> domain_slow_path s"
    using domain_slow_path_parts [OF assms parts(2,1,3)]
    by (simp add: starts_with_lowercase) (simp add: to_lowercase_string_def)
  finally show ?thesis .
qed

lemma domain_to_ascii_idem:
  assumes ok: "idna_ok ta" and r: "domain_to_ascii ta d False = Some r"
  shows "domain_to_ascii ta r False = Some r"
proof (cases "list_all (\<lambda>c. is_ascii (ord_of c)) d \<and> \<not> domain_slow_path d")
  case True
  with r have *: "r = to_lowercase_string d" "d \<noteq> []"
    by (auto simp: domain_to_ascii_def split: if_splits)
  moreover have "list_all (\<lambda>c. is_ascii (ord_of c)) r"
    using True * by (auto simp: to_lowercase_string_def list_all_iff to_ascii_lowercase_def is_ascii_def
        is_ascii_upper_alpha_def)
  ultimately show ?thesis
    using True domain_slow_path_lowercase [of d] to_lowercase_string_idem [of d]
    by (simp add: domain_to_ascii_def to_lowercase_string_def)
next
  case False
  with r have "ta d (domain_options False) = Some r" "r \<noteq> []"
    by (auto simp: domain_to_ascii_def Let_def split: if_splits option.splits)
  with ok show ?thesis unfolding idna_ok_def by (auto simp: domain_to_ascii_def)
qed

lemma parse_host_domain:
  assumes "domain_to_ascii ta s False = Some s" "\<not> list_ex (\<lambda>c. is_forbidden_domain_code_point (ord_of c)) s"
    "ends_in_a_number_checker s = Success b"
  shows "parse_host ta s False =
    (if b then outcome_bind (parse_ipv4_address s) (\<lambda>a. Success (Host_IPv4 a)) else Success (Host_String s))"
proof -
  have "s \<noteq> []" using assms(1) by (rule domain_to_ascii_not_Nil)
  moreover from this assms(2) have "s ! 0 \<noteq> CHR ''[''"
    by (cases s) (auto simp: is_forbidden_domain_code_point_iff)
  moreover have "CHR ''%'' \<notin> set s"
    using assms(2) by (auto simp: is_forbidden_domain_code_point_iff list_ex_iff)
  ultimately show ?thesis using assms by (simp add: parse_host_def percent_decode_Some)
qed

lemma format_dec_digit: "c \<in> set (format_dec v) \<Longrightarrow> is_ascii_digit (ord_of c)"
  using format_dec_digits_dec [of v] by (auto simp: list_all_iff)

lemma serialize_ipv4_chars:
  "c \<in> set (serialize_ipv4_address a) \<Longrightarrow> is_ascii_digit (ord_of c) \<or> c = CHR ''.''"
  by (auto simp: serialize_ipv4_address_def Let_def dest: format_dec_digit)

lemma starts_with_xn_digits:
  assumes "p \<noteq> []" "\<forall>c\<in>set p. is_ascii_digit (ord_of c)"
  shows "\<not> starts_with p ''xn--'' CaseInsensitive"
  using assms
  by (cases p) (auto simp: starts_with_def to_ascii_lowercase_def is_ascii_digit_def is_ascii_upper_alpha_def)

lemma ends_in_a_number_ipv4: "ends_in_a_number_checker (serialize_ipv4_address a) = Success True"
proof -
  let ?parts = "map format_dec (ipv4_octets a)"
  have "split_view (serialize_ipv4_address a) ''.'' Split_KeepEmpty = Some ?parts"
    using split_view_join_byte [of ?parts "CHR ''.''"]
    by (simp add: serialize_ipv4_address_join ipv4_octets_def format_dec_no_dot)
  moreover have "last ?parts = format_dec (last (ipv4_octets a))"
    by (simp add: ipv4_octets_def)
  ultimately show ?thesis
    using format_dec_digits_dec by (simp add: ends_in_a_number_checker_def) (simp add: ipv4_octets_def)
qed

lemma parse_host_ipv4: "parse_host ta (serialize_ipv4_address a) False = Success (Host_IPv4 a)"
proof -
  let ?s = "serialize_ipv4_address a" and ?parts = "map format_dec (ipv4_octets a)"
  have s: "?s = join_with ''.'' ?parts" "?s \<noteq> []" "?parts \<noteq> []" "\<forall>p\<in>set ?parts. CHR ''.'' \<notin> set p"
    by (simp_all add: serialize_ipv4_address_join ipv4_octets_def format_dec_no_dot)
  have plain: "is_ascii (ord_of c) \<and> byte_to_lowercase c = c \<and> \<not> is_forbidden_domain_code_point (ord_of c)"
    if "c \<in> set ?s" for c
    using serialize_ipv4_chars [OF that]
    by (auto simp: is_forbidden_domain_code_point_iff is_ascii_digit_def is_ascii_def char_eq_iff_ord
        to_ascii_lowercase_def is_ascii_upper_alpha_def)
  have "\<not> domain_slow_path ?s"
    using domain_slow_path_parts [OF s(2,1,3,4)] starts_with_xn_digits format_dec_digit by auto
  moreover have "to_lowercase_string ?s = ?s"
    using plain by (simp add: to_lowercase_string_def map_idI)
  ultimately have "domain_to_ascii ta ?s False = Some ?s"
    using plain s(2) by (simp add: domain_to_ascii_def list_all_iff)
  moreover have "\<not> list_ex (\<lambda>c. is_forbidden_domain_code_point (ord_of c)) ?s"
    using plain by (auto simp: list_ex_iff)
  ultimately show ?thesis
    by (simp add: parse_host_domain parse_serialize_ipv4 ends_in_a_number_ipv4)
qed

lemma serialize_ipv6_loop_output:
  "serialize_ipv6_loop compress i pieces ignore0 out = out @ serialize_ipv6_loop compress i pieces ignore0 []"
proof (induction pieces arbitrary: i ignore0 out)
  case (Cons piece pieces)
  note out = Cons.IH [of _ _ "out @ x" for x] and nil = Cons.IH [of _ _ "[] @ x" for x]
  show ?case
    unfolding serialize_ipv6_loop.simps
    by (simp add: out [symmetric] nil split del: if_split split: if_splits) (metis Cons.IH append.assoc)+
qed simp

lemma parse_host_ipv6:
  assumes "length a = 8"
  shows "parse_host ta (serialize_host (Host_IPv6 a)) op = Success (Host_IPv6 a)"
proof -
  have "serialize_host (Host_IPv6 a) = ''['' @ serialize_ipv6_address a [] @ '']''"
    by (simp add: serialize_ipv6_address_def) (subst serialize_ipv6_loop_output, simp)
  then show ?thesis using assms by (simp add: parse_host_def parse_serialize_ipv6)
qed

lemma parse_serialize_host:
  assumes ok: "idna_ok ta" and h: "parse_host ta input op = Success h"
  shows "parse_host ta (serialize_host h) op = Success h"
proof -
  have valid: "host_valid op h" using h parse_host_valid by blast
  show ?thesis
  proof (cases h)
    case (Host_IPv4 a)
    then show ?thesis using valid parse_host_ipv4 by simp
  next
    case (Host_IPv6 a)
    then show ?thesis using valid parse_host_ipv6 by simp
  next
    case (Host_String s)
    show ?thesis
    proof (cases op)
      case True
      then have "list_all opaque_host_byte s" using valid Host_String by simp
      moreover from this have "s \<noteq> [] \<Longrightarrow> s ! 0 \<noteq> CHR ''[''"
        by (cases s) (auto simp: opaque_host_byte_def is_forbidden_host_code_point_iff)
      ultimately show ?thesis using True Host_String by (auto simp: parse_host_def parse_opaque_host_fixpoint)
    next
      case False
      with h Host_String obtain d where "domain_to_ascii ta d False = Some s"
        "ends_in_a_number_checker s = Success False"
        by (auto simp: parse_host_def outcome_bind_Success split: if_splits option.splits)
      then show ?thesis
        using valid False Host_String parse_host_domain [OF domain_to_ascii_idem [OF ok]] by simp
    qed
  next
    case Host_Empty
    then show ?thesis using valid by simp
  qed
qed

interpretation host: printer serialize_host "\<lambda>s. outcome_option (parse_host ta s op)"
  "\<lambda>h. idna_ok ta \<and> (\<exists>s. parse_host ta s op = Success h)" for ta op
  by unfold_locales (auto simp: parse_serialize_host)

subsection \<open>Properties\<close>

text \<open>
  C15.  The host parser fails an assertion exactly on an empty string that is not opaque, and
  what it returns is a well-formed host: an IPv6 address has eight pieces, an opaque host is
  printable and has no forbidden host code point, a domain is nonempty and has no forbidden
  domain code point.
\<close>

theorem parse_host_safe:
  "(parse_host ta input is_opaque = Crash \<longleftrightarrow> input = [] \<and> \<not> is_opaque)
   \<and> (\<forall>h. parse_host ta input is_opaque = Success h \<longrightarrow> host_valid is_opaque h)"
  by (rule parse_host_valid)

theorem parse_host_safe_witness:
  "parse_host (\<lambda>d opts. None) ''[::]'' True = Success (Host_IPv6 [0, 0, 0, 0, 0, 0, 0, 0])
   \<and> host_valid True (Host_IPv6 [0, 0, 0, 0, 0, 0, 0, 0])"
proof -
  have "parse_host (\<lambda>d opts. None) ''[::]'' True = Success (Host_IPv6 [0, 0, 0, 0, 0, 0, 0, 0])"
    by code_simp
  then show ?thesis
    using parse_host_safe [of "\<lambda>d opts. None" "''[::]''" True] by blast
qed

text \<open>
  C14.  Parsing the serialization of a host that the parser returned gives the host back, for
  domains and for opaque hosts, when ToASCII gives lowercase ASCII names that it keeps; so two
  such hosts with the same serialization are equal.
\<close>

theorem host_roundtrip:
  assumes "idna_ok ta" and "parse_host ta input is_opaque = Success h"
  shows "parse_host ta (serialize_host h) is_opaque = Success h
    \<and> (\<forall>s h'. parse_host ta s is_opaque = Success h' \<longrightarrow> serialize_host h' = serialize_host h \<longrightarrow> h' = h)"
  using assms parse_serialize_host host.print_inject [of ta is_opaque] by blast

theorem host_roundtrip_witness:
  "let ta = (\<lambda>d opts. if list_all (\<lambda>c. is_ascii (ord_of c)) d then Some (to_lowercase_string d) else None)
   in parse_host ta ''XN--A%2Eorg'' False = Success (Host_String ''xn--a.org'')
      \<and> parse_host ta (serialize_host (Host_String ''xn--a.org'')) False = Success (Host_String ''xn--a.org'')"
proof -
  let ?ta = "\<lambda>d (opts :: to_ascii_options).
    if list_all (\<lambda>c. is_ascii (ord_of c)) d then Some (to_lowercase_string d) else None"
  have "idna_ok ?ta"
    by (auto simp: idna_ok_def to_lowercase_string_def list_all_iff to_ascii_lowercase_def is_ascii_def
        is_ascii_upper_alpha_def byte_to_lowercase_idem split: if_splits)
  moreover have "parse_host ?ta ''XN--A%2Eorg'' False = Success (Host_String ''xn--a.org'')"
    by code_simp
  ultimately show ?thesis using host_roundtrip unfolding Let_def by blast
qed

end
