(* ===== verification/Origin.thy ===== *)
theory Origin
  imports Host
begin

text \<open>
  \<^verbatim>\<open>LibURL/Origin.h\<close> and \<^verbatim>\<open>LibURL/Origin.cpp\<close>: origins, the same-origin tests and the ASCII
  serialization.  The hash functions of \<^verbatim>\<open>AK\<close> (the string hash and \<^verbatim>\<open>pair_int_hash\<close>) are
  parameters of \<open>origin_hash\<close>.
\<close>

subsection \<open>The model\<close>

record origin =
  m_scheme :: "bytes option"
  m_host :: host
  m_port :: "u16 option"

definition opaque_origin :: origin where
  "opaque_origin = \<lparr>m_scheme = None, m_host = Host_Empty, m_port = None\<rparr>"

definition is_opaque_origin :: "origin \<Rightarrow> bool" where
  "is_opaque_origin origin \<longleftrightarrow> m_scheme origin = None \<and> m_host origin = Host_Empty \<and> m_port origin = None"

definition origin_scheme :: "origin \<Rightarrow> bytes" where
  "origin_scheme origin = (case m_scheme origin of Some str \<Rightarrow> str | None \<Rightarrow> [])"

definition is_same_origin :: "origin \<Rightarrow> origin \<Rightarrow> bool" where
  "is_same_origin a b =
     (if is_opaque_origin a \<and> is_opaque_origin b then True
      else origin_scheme a = origin_scheme b \<and> m_host a = m_host b \<and> m_port a = m_port b)"

definition is_same_origin_domain :: "origin \<Rightarrow> origin \<Rightarrow> bool" where
  "is_same_origin_domain a b =
     (if is_opaque_origin a \<and> is_opaque_origin b then True
      else if \<not> is_opaque_origin a \<and> \<not> is_opaque_origin b then
        if origin_scheme a = origin_scheme b then True
        else if is_same_origin a b then True
        else False
      else False)"

definition origin_serialize :: "origin \<Rightarrow> bytes" where
  "origin_serialize origin =
     (if is_opaque_origin origin then ''null''
      else origin_scheme origin @ ''://'' @ serialize_host (m_host origin)
           @ (case m_port origin of Some port \<Rightarrow> '':'' @ format_dec (unat port) | None \<Rightarrow> []))"

definition effective_domain :: "origin \<Rightarrow> host option" where
  "effective_domain origin = (if is_opaque_origin origin then None else Some (m_host origin))"

definition origin_hash :: "(bytes \<Rightarrow> u32) \<Rightarrow> (u32 \<Rightarrow> u32 \<Rightarrow> u32) \<Rightarrow> origin \<Rightarrow> u32" where
  "origin_hash string_hash pair_int_hash origin =
     (let h = string_hash (origin_scheme origin);
          h = (case m_port origin of Some port \<Rightarrow> pair_int_hash h (ucast port) | None \<Rightarrow> h)
      in if m_host origin \<noteq> Host_Empty then pair_int_hash h (string_hash (serialize_host (m_host origin))) else h)"

subsection \<open>Same origin\<close>

lemma is_same_origin_iff:
  "is_same_origin a b \<longleftrightarrow> origin_scheme a = origin_scheme b \<and> m_host a = m_host b \<and> m_port a = m_port b"
  by (auto simp: is_same_origin_def is_opaque_origin_def origin_scheme_def)

lemma is_same_origin_hash: "is_same_origin a b \<Longrightarrow> origin_hash sh ph a = origin_hash sh ph b"
  by (simp add: is_same_origin_iff origin_hash_def Let_def)

subsection \<open>Serialization\<close>

text \<open>The hosts of URLs with a tuple origin: what the host parser returns for a domain.\<close>

definition origin_host :: "host \<Rightarrow> bool" where
  "origin_host h \<longleftrightarrow> host_valid False h \<and> (\<forall>s. h = Host_String s \<longrightarrow> ends_in_a_number_checker s = Success False)"

definition tuple_origin :: "origin \<Rightarrow> bool" where
  "tuple_origin origin \<longleftrightarrow> (\<exists>s. m_scheme origin = Some s \<and> CHR '':'' \<notin> set s) \<and> origin_host (m_host origin)"

definition port_suffix :: "u16 option \<Rightarrow> bytes" where
  "port_suffix port = (case port of Some port \<Rightarrow> '':'' @ format_dec (unat port) | None \<Rightarrow> [])"

lemma format_dec_inject: "format_dec m = format_dec n \<longleftrightarrow> m = n"
  using format_dec_value by metis

lemma port_suffix_inject: "port_suffix p = port_suffix q \<longleftrightarrow> p = q"
  by (auto simp: port_suffix_def format_dec_inject word_unat_eq_iff split: option.splits)

lemma parse_host_origin_host:
  "parse_host ta s False = Success h \<Longrightarrow> origin_host h"
  using parse_host_valid [of ta s False]
  by (auto simp: origin_host_def parse_host_def outcome_bind_Success split: if_splits option.splits)

text \<open>The name part of a host ends before the colon of the port.\<close>

lemma plain_host_no_colon:
  assumes "origin_host h" "\<nexists>a. h = Host_IPv6 a"
  shows "CHR '':'' \<notin> set (serialize_host h) \<and> CHR ''['' \<notin> set (serialize_host h)"
proof (cases h)
  case (Host_IPv4 a)
  then show ?thesis using serialize_ipv4_chars [of _ a] by (fastforce simp: is_ascii_digit_def)
qed (use assms in \<open>auto simp: origin_host_def list_ex_iff is_forbidden_domain_code_point_iff\<close>)

lemma append_colon_inject:
  assumes "c \<notin> set a" "c \<notin> set b" "a @ x = b @ y"
    "x = [] \<or> (\<exists>t. x = c # t)" "y = [] \<or> (\<exists>t. y = c # t)"
  shows "a = b \<and> x = y"
proof -
  have cut: "takeWhile (\<lambda>d. d \<noteq> c) (z @ w) = z" if "c \<notin> set z" "w = [] \<or> (\<exists>t. w = c # t)" for z w
  proof -
    have "takeWhile (\<lambda>d. d \<noteq> c) (z @ w) = z @ takeWhile (\<lambda>d. d \<noteq> c) w"
      using that(1) by (intro takeWhile_append2) auto
    then show ?thesis using that(2) by auto
  qed
  have "a = takeWhile (\<lambda>d. d \<noteq> c) (a @ x)" using cut assms(1,4) by metis
  also have "\<dots> = b" using cut assms(2,3,5) by metis
  finally show ?thesis using assms(3) by simp
qed

lemma port_suffix_head: "port_suffix p = [] \<or> (\<exists>t. port_suffix p = CHR '':'' # t)"
  by (auto simp: port_suffix_def split: option.splits)

lemma serialize_host_ipv6_form:
  "length a = 8 \<Longrightarrow> \<exists>t. serialize_host (Host_IPv6 a) = CHR ''['' # t @ '']'' \<and> CHR '']'' \<notin> set t"
proof -
  assume a: "length a = 8"
  have "serialize_host (Host_IPv6 a) = CHR ''['' # serialize_ipv6_address a [] @ '']''"
    by (simp add: serialize_ipv6_address_def) (subst serialize_ipv6_loop_output, simp)
  moreover have "CHR '']'' \<notin> set (serialize_ipv6_address a [])"
    using serialize_ipv6_chars [OF a, of "CHR '']''"]
    by (auto simp: is_ascii_hex_digit_def is_ascii_uppercase_hex_digit_def is_ascii_digit_def)
  ultimately show ?thesis by blast
qed

lemma bracket_inject:
  assumes "t @ '']'' @ x = u @ '']'' @ y" "CHR '']'' \<notin> set t" "CHR '']'' \<notin> set u"
  shows "t = u \<and> x = y"
  using append_colon_inject [of "CHR '']''" t u "CHR '']'' # x" "CHR '']'' # y"] assms by simp

text \<open>Reading a serialized host of an origin back.\<close>

definition read_origin_host :: "bytes \<Rightarrow> host option" where
  "read_origin_host s =
     (if s \<noteq> [] \<and> s ! 0 = CHR ''['' then map_option Host_IPv6 (outcome_option (parse_ipv6_address (butlast (tl s))))
      else if ends_in_a_number_checker s = Success True
        then map_option Host_IPv4 (outcome_option (parse_ipv4_address s))
      else Some (Host_String s))"

interpretation origin_host: printer serialize_host read_origin_host origin_host
proof
  fix h assume h: "origin_host h"
  show "read_origin_host (serialize_host h) = Some h"
  proof (cases h)
    case (Host_IPv4 a)
    then have "\<not> (serialize_host h \<noteq> [] \<and> serialize_host h ! 0 = CHR ''['')"
      using plain_host_no_colon [OF h] by (cases "serialize_host h") auto
    then show ?thesis
      using Host_IPv4
      by (simp only: read_origin_host_def if_False if_True ends_in_a_number_ipv4 serialize_host.simps)
        (simp add: parse_serialize_ipv4)
  next
    case (Host_IPv6 a)
    have "serialize_host h = CHR ''['' # serialize_ipv6_address a [] @ '']''"
      using Host_IPv6 by (simp add: serialize_ipv6_address_def) (subst serialize_ipv6_loop_output, simp)
    then show ?thesis
      using Host_IPv6 h by (simp add: read_origin_host_def parse_serialize_ipv6 origin_host_def)
  next
    case (Host_String s)
    then have "\<not> (s \<noteq> [] \<and> s ! 0 = CHR ''['')"
      using plain_host_no_colon [OF h] by (cases s) auto
    then show ?thesis using Host_String h by (auto simp: read_origin_host_def origin_host_def)
  qed (use h in \<open>simp add: origin_host_def\<close>)
qed

lemma host_port_inject:
  assumes a: "origin_host a" and b: "origin_host b"
    and same: "serialize_host a @ port_suffix p = serialize_host b @ port_suffix q"
  shows "a = b \<and> p = q"
proof -
  have "serialize_host a = serialize_host b \<and> port_suffix p = port_suffix q"
  proof (cases "(\<exists>x. a = Host_IPv6 x) \<or> (\<exists>x. b = Host_IPv6 x)")
    case False
    then show ?thesis
      using append_colon_inject [OF _ _ same port_suffix_head port_suffix_head]
        plain_host_no_colon [OF a] plain_host_no_colon [OF b] by blast
  next
    case True
    have open_bracket: "\<exists>x. h = Host_IPv6 x"
      if "origin_host h" "serialize_host h @ port_suffix r = CHR ''['' # t" for h r t
      using that plain_host_no_colon [OF that(1)] port_suffix_head [of r]
      by (cases "serialize_host h") auto
    have "(\<exists>x. a = Host_IPv6 x) \<and> (\<exists>x. b = Host_IPv6 x)"
      using True a b same open_bracket serialize_host_ipv6_form
      by (metis append_Cons host_valid.simps(2) origin_host_def)
    then obtain x y where xy: "a = Host_IPv6 x" "b = Host_IPv6 y" by blast
    obtain t where t: "serialize_host a = CHR ''['' # t @ '']''" "CHR '']'' \<notin> set t"
      using serialize_host_ipv6_form [of x] a xy by (auto simp: origin_host_def)
    obtain u where u: "serialize_host b = CHR ''['' # u @ '']''" "CHR '']'' \<notin> set u"
      using serialize_host_ipv6_form [of y] b xy by (auto simp: origin_host_def)
    show ?thesis using same t u bracket_inject [of t "port_suffix p" u "port_suffix q"] by simp
  qed
  then show ?thesis using a b origin_host.print_inject port_suffix_inject by blast
qed

lemma origin_serialize_tuple:
  "tuple_origin a \<Longrightarrow> origin_serialize a = origin_scheme a @ ''://'' @ serialize_host (m_host a) @ port_suffix (m_port a)"
  by (auto simp: tuple_origin_def origin_serialize_def is_opaque_origin_def port_suffix_def split: option.splits)

lemma tuple_origin_serialize_inject:
  assumes a: "tuple_origin a" and b: "tuple_origin b"
  shows "origin_serialize a = origin_serialize b \<longleftrightarrow> is_same_origin a b"
proof
  assume same: "origin_serialize a = origin_serialize b"
  have "origin_scheme a = origin_scheme b
      \<and> ''://'' @ serialize_host (m_host a) @ port_suffix (m_port a) = ''://'' @ serialize_host (m_host b) @ port_suffix (m_port b)"
  proof (rule append_colon_inject [of "CHR '':''"])
    show "CHR '':'' \<notin> set (origin_scheme a)" "CHR '':'' \<notin> set (origin_scheme b)"
      using a b by (auto simp: tuple_origin_def origin_scheme_def)
  qed (use same a b in \<open>auto simp: origin_serialize_tuple\<close>)
  then show "is_same_origin a b"
    using a b host_port_inject [of "m_host a" "m_host b" "m_port a" "m_port b"]
    by (simp add: is_same_origin_iff tuple_origin_def)
next
  assume "is_same_origin a b"
  then show "origin_serialize a = origin_serialize b"
    using a b by (simp add: origin_serialize_tuple is_same_origin_iff)
qed

lemma origin_serialize_opaque:
  assumes "tuple_origin a" shows "origin_serialize a \<noteq> ''null''"
proof
  assume "origin_serialize a = ''null''"
  then have "CHR '':'' \<in> set ''null''"
    using origin_serialize_tuple [OF assms] by (metis append_Cons in_set_conv_decomp)
  then show False by simp
qed

subsection \<open>Properties\<close>




end
