(* ===== verification/Url.thy ===== *)
theory Url
  imports Origin
begin

text \<open>
  The URL record of \<^verbatim>\<open>LibURL/URL.h\<close> and the operations of \<^verbatim>\<open>LibURL/URL.cpp\<close> that do not call the
  parser: the accessors and setters, the validity test, the default ports, the serializers and
  the comparison.

  The fields of \<^verbatim>\<open>URL::Data\<close> carry the prefix \<open>url_\<close>.  \<^verbatim>\<open>m_data\<close> is copied on write, so a URL is a value.
  Indexing the first segment of an empty path fails an assertion: \<open>None\<close>.
\<close>

subsection \<open>The model\<close>

record blob_url_entry =
  blob_type :: bytes
  blob_byte_buffer :: bytes
  blob_environment_origin :: origin

record url =
  url_valid :: bool
  url_scheme :: bytes
  url_username :: bytes
  url_password :: bytes
  url_host :: host
  url_port :: "u16 option"
  url_paths :: "bytes list"
  url_query :: "bytes option"
  url_fragment :: "bytes option"
  url_cannot_be_a_base_url :: bool
  url_blob_url_entry :: "blob_url_entry option"

definition empty_url :: url where
  "empty_url = \<lparr>url_valid = False, url_scheme = [], url_username = [], url_password = [], url_host = Host_Empty,
     url_port = None, url_paths = [], url_query = None, url_fragment = None, url_cannot_be_a_base_url = False,
     url_blob_url_entry = None\<rparr>"

definition default_port_for_scheme :: "bytes \<Rightarrow> u16 option" where
  "default_port_for_scheme scheme =
     (if scheme = ''ftp'' then Some 21
      else if scheme = ''http'' then Some 80
      else if scheme = ''https'' then Some 443
      else if scheme = ''ws'' then Some 80
      else if scheme = ''wss'' then Some 443
      else if scheme = ''irc'' then Some 6667
      else if scheme = ''ircs'' then Some 6697
      else None)"

definition is_special_scheme :: "bytes \<Rightarrow> bool" where
  "is_special_scheme scheme \<longleftrightarrow> scheme \<in> {''ftp'', ''file'', ''http'', ''https'', ''ws'', ''wss''}"

definition is_special :: "url \<Rightarrow> bool" where
  "is_special u = is_special_scheme (url_scheme u)"

definition port_or_default :: "url \<Rightarrow> u16" where
  "port_or_default u =
     (case url_port u of Some port \<Rightarrow> port
      | None \<Rightarrow> (case default_port_for_scheme (url_scheme u) of Some port \<Rightarrow> port | None \<Rightarrow> 0))"

definition includes_credentials :: "url \<Rightarrow> bool" where
  "includes_credentials u \<longleftrightarrow> url_username u \<noteq> [] \<or> url_password u \<noteq> []"

definition path_segment_count :: "url \<Rightarrow> nat" where
  "path_segment_count u = length (url_paths u)"

definition path_segment_at_index :: "url \<Rightarrow> nat \<Rightarrow> bytes option" where
  "path_segment_at_index u index =
     (if index < path_segment_count u then percent_decode (url_paths u ! index) else None)"

definition url_basename :: "url \<Rightarrow> bytes option" where
  "url_basename u =
     (if \<not> url_valid u then Some []
      else if url_paths u = [] then Some []
      else percent_decode (last (url_paths u)))"

definition cannot_have_a_username_or_password_or_port :: "url \<Rightarrow> bool" where
  "cannot_have_a_username_or_password_or_port u \<longleftrightarrow>
     url_host u = Host_Empty \<or> url_host u = Host_String [] \<or> url_scheme u = ''file''"

definition compute_validity :: "url \<Rightarrow> bool" where
  "compute_validity u =
     (if url_scheme u = [] then False
      else if url_cannot_be_a_base_url u \<and> length (url_paths u) \<noteq> 1 then False
      else if url_cannot_be_a_base_url u \<and> url_paths u ! 0 = [] then False
      else if \<not> url_cannot_be_a_base_url u \<and> url_scheme u \<in> {''about'', ''mailto''} then False
      else if \<not> url_cannot_be_a_base_url u \<and> length (url_paths u) = 0 then False
      else if url_scheme u = ''file'' \<and> url_host u = Host_Empty then False
      else True)"

definition set_scheme :: "url \<Rightarrow> bytes \<Rightarrow> url" where
  "set_scheme u scheme = (let u = u\<lparr>url_scheme := scheme\<rparr> in u\<lparr>url_valid := compute_validity u\<rparr>)"

definition set_username :: "url \<Rightarrow> bytes \<Rightarrow> url option" where
  "set_username u username =
     (case percent_encode username Userinfo False of
        None \<Rightarrow> None
      | Some encoded \<Rightarrow> (let u = u\<lparr>url_username := encoded\<rparr> in Some (u\<lparr>url_valid := compute_validity u\<rparr>)))"

definition set_password :: "url \<Rightarrow> bytes \<Rightarrow> url option" where
  "set_password u password =
     (case percent_encode password Userinfo False of
        None \<Rightarrow> None
      | Some encoded \<Rightarrow> (let u = u\<lparr>url_password := encoded\<rparr> in Some (u\<lparr>url_valid := compute_validity u\<rparr>)))"

definition set_host :: "url \<Rightarrow> host \<Rightarrow> url" where
  "set_host u host = (let u = u\<lparr>url_host := host\<rparr> in u\<lparr>url_valid := compute_validity u\<rparr>)"

definition set_port :: "url \<Rightarrow> u16 option \<Rightarrow> url" where
  "set_port u port =
     (if port = default_port_for_scheme (url_scheme u) then u\<lparr>url_port := None\<rparr>
      else (let u = u\<lparr>url_port := port\<rparr> in u\<lparr>url_valid := compute_validity u\<rparr>))"

fun encode_paths :: "bytes list \<Rightarrow> bytes list option" where
  "encode_paths [] = Some []"
| "encode_paths (segment # segments) =
     (case percent_encode segment Path False of
        None \<Rightarrow> None
      | Some encoded \<Rightarrow> map_option (\<lambda>rest. encoded # rest) (encode_paths segments))"

definition set_paths :: "url \<Rightarrow> bytes list \<Rightarrow> url option" where
  "set_paths u paths =
     (case encode_paths paths of
        None \<Rightarrow> None
      | Some encoded \<Rightarrow> (let u = u\<lparr>url_paths := encoded\<rparr> in Some (u\<lparr>url_valid := compute_validity u\<rparr>)))"

definition set_query :: "url \<Rightarrow> bytes option \<Rightarrow> url" where
  "set_query u query = u\<lparr>url_query := query\<rparr>"

definition set_fragment :: "url \<Rightarrow> bytes option \<Rightarrow> url" where
  "set_fragment u fragment = u\<lparr>url_fragment := fragment\<rparr>"

definition set_cannot_be_a_base_url :: "url \<Rightarrow> bool \<Rightarrow> url" where
  "set_cannot_be_a_base_url u value = u\<lparr>url_cannot_be_a_base_url := value\<rparr>"

definition set_blob_url_entry :: "url \<Rightarrow> blob_url_entry option \<Rightarrow> url" where
  "set_blob_url_entry u entry = u\<lparr>url_blob_url_entry := entry\<rparr>"

definition append_path :: "url \<Rightarrow> bytes \<Rightarrow> url option" where
  "append_path u path =
     (case percent_encode path Path False of
        None \<Rightarrow> None
      | Some encoded \<Rightarrow> Some (u\<lparr>url_paths := url_paths u @ [encoded]\<rparr>))"

definition append_slash :: "url \<Rightarrow> url" where
  "append_slash u = u\<lparr>url_paths := url_paths u @ [[]]\<rparr>"

definition serialize_path :: "url \<Rightarrow> bytes option" where
  "serialize_path u =
     (if url_cannot_be_a_base_url u then (if url_paths u = [] then None else Some (url_paths u ! 0))
      else Some (concat (map (\<lambda>segment. ''/'' @ segment) (url_paths u))))"

definition serialize_port :: "url \<Rightarrow> bytes" where
  "serialize_port u = (case url_port u of Some port \<Rightarrow> '':'' @ format_dec (unat port) | None \<Rightarrow> [])"

definition serialize_rest_of_path :: "url \<Rightarrow> bytes option" where
  "serialize_rest_of_path u =
     (if url_cannot_be_a_base_url u then (if url_paths u = [] then None else Some (url_paths u ! 0))
      else Some ((if url_host u = Host_Empty \<and> length (url_paths u) > 1 \<and> url_paths u ! 0 = [] then ''/.'' else [])
                 @ concat (map (\<lambda>segment. ''/'' @ segment) (url_paths u))))"

definition url_serialize :: "url \<Rightarrow> bool \<Rightarrow> bytes option" where
  "url_serialize u exclude_fragment =
     map_option (\<lambda>path.
         url_scheme u @ '':''
         @ (if url_host u \<noteq> Host_Empty then
              ''//''
              @ (if includes_credentials u then
                   url_username u @ (if url_password u \<noteq> [] then '':'' @ url_password u else []) @ ''@''
                 else [])
              @ serialize_host (url_host u) @ serialize_port u
            else [])
         @ path
         @ (case url_query u of Some query \<Rightarrow> ''?'' @ query | None \<Rightarrow> [])
         @ (case url_fragment u of Some fragment \<Rightarrow> if \<not> exclude_fragment then ''#'' @ fragment else [] | None \<Rightarrow> []))
       (serialize_rest_of_path u)"

definition serialize_for_display :: "url \<Rightarrow> bytes option" where
  "serialize_for_display u =
     (if \<not> url_valid u then None
      else map_option (\<lambda>path.
         url_scheme u @ '':''
         @ (if url_host u \<noteq> Host_Empty then ''//'' @ serialize_host (url_host u) @ serialize_port u else [])
         @ path
         @ (case url_query u of Some query \<Rightarrow> ''?'' @ query | None \<Rightarrow> [])
         @ (case url_fragment u of Some fragment \<Rightarrow> ''#'' @ fragment | None \<Rightarrow> []))
       (serialize_rest_of_path u))"

text \<open>\<^verbatim>\<open>equals\<close> of two URLs that are different objects; a URL always equals itself.\<close>

definition url_equals :: "url \<Rightarrow> url \<Rightarrow> bool \<Rightarrow> bool option" where
  "url_equals a b exclude_fragments =
     (if \<not> url_valid a \<or> \<not> url_valid b then Some False
      else (case (url_serialize a exclude_fragments, url_serialize b exclude_fragments) of
              (Some s, Some t) \<Rightarrow> Some (s = t) | _ \<Rightarrow> None))"

end
