(* ===== verification/UrlParser.thy ===== *)
theory UrlParser
  imports Url
begin

text \<open>
  The basic URL parser (\<^verbatim>\<open>Parser::basic_parse\<close> of \<^verbatim>\<open>LibURL/Parser.cpp\<close>) as a state machine.

  The local variables of the loop are the record \<open>parser\<close>; the arguments and the processed
  input, which the loop does not change, are the record \<open>context\<close>.  The iterator is the suffix of
  the input that it has not passed.  Each case of the switch is one definition that returns an
  \<open>action\<close>: \<^verbatim>\<open>break\<close>, \<^verbatim>\<open>continue\<close>, \<^verbatim>\<open>return *url\<close>, \<^verbatim>\<open>return {}\<close>, or a failing assertion.
  Reports of validation errors only log and are left out.

  The result is the returned URL and the value of \<^verbatim>\<open>*url\<close>, which a caller that passed a URL sees
  change; \<open>None\<close> is a failing assertion.  ToASCII and the text encoder that belongs to the encoding
  argument are parameters.
\<close>

subsection \<open>Path segments\<close>

definition starts_with_windows_drive_letter :: "bytes \<Rightarrow> bool" where
  "starts_with_windows_drive_letter input =
     (if length input < 2 then False
      else if \<not> is_ascii_alpha (ord_of (input ! 0)) \<or> \<not> (input ! 1 = CHR '':'' \<or> input ! 1 = CHR ''|'') then False
      else if length input = 2 then True
      else input ! 2 \<in> {CHR ''/'', CHR 0x5C, CHR ''?'', CHR ''#''})"

definition is_windows_drive_letter :: "bytes \<Rightarrow> bool" where
  "is_windows_drive_letter input \<longleftrightarrow>
     length input = 2 \<and> is_ascii_alpha (ord_of (input ! 0)) \<and> (input ! 1 = CHR '':'' \<or> input ! 1 = CHR ''|'')"

definition is_normalized_windows_drive_letter :: "bytes \<Rightarrow> bool" where
  "is_normalized_windows_drive_letter input \<longleftrightarrow>
     length input = 2 \<and> is_ascii_alpha (ord_of (input ! 0)) \<and> input ! 1 = CHR '':''"

definition is_single_dot_path_segment :: "bytes \<Rightarrow> bool" where
  "is_single_dot_path_segment input \<longleftrightarrow> input = ''.'' \<or> equals_ignoring_ascii_case input ''%2e''"

definition is_double_dot_path_segment :: "bytes \<Rightarrow> bool" where
  "is_double_dot_path_segment input \<longleftrightarrow>
     input = ''..'' \<or> equals_ignoring_ascii_case input ''.%2e'' \<or> equals_ignoring_ascii_case input ''%2e.''
     \<or> equals_ignoring_ascii_case input ''%2e%2e''"

definition shorten_urls_path :: "url \<Rightarrow> url option" where
  "shorten_urls_path u =
     (if url_cannot_be_a_base_url u then None
      else if url_scheme u = ''file'' \<and> length (url_paths u) = 1
              \<and> is_normalized_windows_drive_letter (url_paths u ! 0) then Some u
      else if url_paths u \<noteq> [] then Some (u\<lparr>url_paths := butlast (url_paths u)\<rparr>)
      else Some u)"

subsection \<open>Text encoders\<close>

text \<open>What an encoder does with a string: the bytes and the errors it reports, in order.\<close>

datatype encoder_event = On_byte char | On_error code_point

type_synonym encoder = "bytes \<Rightarrow> encoder_event list"

definition utf8_encoder :: encoder where
  "utf8_encoder input = map On_byte input"

fun percent_encode_event :: "percent_encode_set \<Rightarrow> bool \<Rightarrow> encoder_event \<Rightarrow> bytes" where
  "percent_encode_event enc space_as_plus (On_byte byte) =
     (if space_as_plus \<and> byte = CHR '' '' then ''+''
      else if \<not> code_point_is_in_percent_encode_set (ord_of byte) enc then append_code_point [] (ord_of byte)
      else ''%'' @ format_02X (ord_of byte))"
| "percent_encode_event enc space_as_plus (On_error error) = ''%26%23'' @ format_dec error @ ''%3B''"

definition percent_encode_after_encoding :: "encoder \<Rightarrow> bytes \<Rightarrow> percent_encode_set \<Rightarrow> bool \<Rightarrow> bytes" where
  "percent_encode_after_encoding encoder input enc space_as_plus =
     concat (map (percent_encode_event enc space_as_plus) (encoder input))"

subsection \<open>The state of the parser\<close>

datatype parser_state =
  State_SchemeStart | State_Scheme | State_NoScheme | State_SpecialRelativeOrAuthority | State_PathOrAuthority
| State_Relative | State_RelativeSlash | State_SpecialAuthoritySlashes | State_SpecialAuthorityIgnoreSlashes
| State_Authority | State_Host | State_Hostname | State_Port | State_File | State_FileSlash | State_FileHost
| State_PathStart | State_Path | State_CannotBeABaseUrlPath | State_Query | State_Fragment

record parser =
  the_url :: url
  parser_state :: parser_state
  buffer :: bytes
  at_sign_seen :: bool
  inside_brackets :: bool
  password_token_seen :: bool
  iterator :: utf8_iterator
  the_encoder :: encoder

record parser_context =
  cx_input :: bytes
  cx_base_url :: "url option"
  cx_state_override :: "parser_state option"
  cx_idna :: idna

datatype action = Break parser | Continue parser | Return_url parser | Return_failure parser | Assertion_failed

abbreviation update_url :: "parser \<Rightarrow> (url \<Rightarrow> url) \<Rightarrow> parser" where
  "update_url p f \<equiv> p\<lparr>the_url := f (the_url p)\<rparr>"

text \<open>\<^verbatim>\<open>StringBuilder::append_as_lowercase\<close>, whose argument is narrowed to a byte.\<close>

definition append_as_lowercase :: "bytes \<Rightarrow> code_point \<Rightarrow> bytes" where
  "append_as_lowercase builder ch =
     (let ch = ch mod 256 in
      if ord_of CHR ''A'' \<le> ch \<and> ch \<le> ord_of CHR ''Z'' then builder @ [char_of (ch + 0x20)] else builder @ [char_of ch])"

definition get_remaining :: "utf8_iterator \<Rightarrow> bytes option" where
  "get_remaining it = map_option (\<lambda>n. drop n it) (underlying_code_point_length_in_bytes it)"

text \<open>The end of an authority: EOF, \<^verbatim>\<open>/\<close>, \<^verbatim>\<open>?\<close>, \<^verbatim>\<open>#\<close>, and \<^verbatim>\<open>\\<close> in a special URL.\<close>

definition ends_authority :: "url \<Rightarrow> code_point \<Rightarrow> bool" where
  "ends_authority u code_point \<longleftrightarrow>
     code_point = end_of_file \<or> code_point = ord_of CHR ''/'' \<or> code_point = ord_of CHR ''?'' \<or> code_point = ord_of CHR ''#''
     \<or> is_special u \<and> code_point = ord_of CHR 0x5C"

subsection \<open>The states\<close>

definition scheme_start_state :: "parser_context \<Rightarrow> parser \<Rightarrow> code_point \<Rightarrow> action" where
  "scheme_start_state cx p code_point =
     (if is_ascii_alpha code_point then
        Break (p\<lparr>buffer := append_as_lowercase (buffer p) code_point, parser_state := State_Scheme\<rparr>)
      else if cx_state_override cx = None then Continue (p\<lparr>parser_state := State_NoScheme\<rparr>)
      else Return_failure p)"

definition scheme_state_with_override :: "parser \<Rightarrow> action" where
  "scheme_state_with_override p =
     (let u = the_url p in
      if is_special_scheme (url_scheme u) \<and> \<not> is_special_scheme (buffer p) then Return_url p
      else if \<not> is_special_scheme (url_scheme u) \<and> is_special_scheme (buffer p) then Return_url p
      else if (includes_credentials u \<or> url_port u \<noteq> None) \<and> buffer p = ''file'' then Return_url p
      else if url_scheme u = ''file'' \<and> url_host u = Host_String [] then Return_url p
      else
        let u = u\<lparr>url_scheme := buffer p\<rparr>;
            u = (if url_port u = default_port_for_scheme (url_scheme u) then u\<lparr>url_port := None\<rparr> else u)
        in Return_url (p\<lparr>the_url := u\<rparr>))"

definition scheme_state_without_override :: "parser_context \<Rightarrow> parser \<Rightarrow> action" where
  "scheme_state_without_override cx p =
     (let u = (the_url p)\<lparr>url_scheme := buffer p\<rparr>;
          p = p\<lparr>the_url := u, buffer := []\<rparr>
      in if url_scheme u = ''file'' then
           (case get_remaining (iterator p) of
              None \<Rightarrow> Assertion_failed
            | Some remaining \<Rightarrow> Break (p\<lparr>parser_state := State_File\<rparr>))
         else if is_special u \<and> cx_base_url cx \<noteq> None \<and> url_scheme (the (cx_base_url cx)) = url_scheme u then
           if \<not> is_special (the (cx_base_url cx)) then Assertion_failed
           else Break (p\<lparr>parser_state := State_SpecialRelativeOrAuthority\<rparr>)
         else if is_special u then Break (p\<lparr>parser_state := State_SpecialAuthoritySlashes\<rparr>)
         else
           (case get_remaining (iterator p) of
              None \<Rightarrow> Assertion_failed
            | Some remaining \<Rightarrow>
                if starts_with remaining ''/'' CaseSensitive then
                  (case utf8_next (iterator p) of
                     None \<Rightarrow> Assertion_failed
                   | Some it \<Rightarrow> Break (p\<lparr>parser_state := State_PathOrAuthority, iterator := it\<rparr>))
                else
                  Break (p\<lparr>the_url := append_slash (u\<lparr>url_cannot_be_a_base_url := True\<rparr>),
                           parser_state := State_CannotBeABaseUrlPath\<rparr>)))"

definition scheme_state :: "parser_context \<Rightarrow> parser \<Rightarrow> code_point \<Rightarrow> action" where
  "scheme_state cx p code_point =
     (if is_ascii_alphanumeric code_point \<or> code_point = ord_of CHR ''+'' \<or> code_point = ord_of CHR ''-''
         \<or> code_point = ord_of CHR ''.'' then
        Break (p\<lparr>buffer := append_as_lowercase (buffer p) code_point\<rparr>)
      else if code_point = ord_of CHR '':'' then
        if cx_state_override cx \<noteq> None then scheme_state_with_override p
        else scheme_state_without_override cx p
      else if cx_state_override cx = None then
        Continue (p\<lparr>buffer := [], parser_state := State_NoScheme, iterator := cx_input cx\<rparr>)
      else Return_failure p)"

definition no_scheme_state :: "parser_context \<Rightarrow> parser \<Rightarrow> code_point \<Rightarrow> action" where
  "no_scheme_state cx p code_point =
     (case cx_base_url cx of
        None \<Rightarrow> Return_failure p
      | Some base \<Rightarrow>
          if url_cannot_be_a_base_url base \<and> code_point \<noteq> ord_of CHR ''#'' then Return_failure p
          else if url_cannot_be_a_base_url base \<and> code_point = ord_of CHR ''#'' then
            Break (update_url p (\<lambda>u. u\<lparr>url_scheme := url_scheme base, url_paths := url_paths base,
                     url_query := url_query base, url_fragment := Some [], url_cannot_be_a_base_url := True\<rparr>)
                   \<lparr>parser_state := State_Fragment\<rparr>)
          else if url_scheme base \<noteq> ''file'' then Continue (p\<lparr>parser_state := State_Relative\<rparr>)
          else Continue (p\<lparr>parser_state := State_File\<rparr>))"

definition remaining_starts_with_solidus :: "utf8_iterator \<Rightarrow> bool option" where
  "remaining_starts_with_solidus it = map_option (\<lambda>remaining. starts_with remaining ''/'' CaseSensitive) (get_remaining it)"

definition special_relative_or_authority_state :: "parser_context \<Rightarrow> parser \<Rightarrow> code_point \<Rightarrow> action" where
  "special_relative_or_authority_state cx p code_point =
     (if code_point = ord_of CHR ''/'' then
        (case (remaining_starts_with_solidus (iterator p), utf8_next (iterator p)) of
           (Some True, Some it) \<Rightarrow> Break (p\<lparr>parser_state := State_SpecialAuthorityIgnoreSlashes, iterator := it\<rparr>)
         | (Some False, _) \<Rightarrow> Continue (p\<lparr>parser_state := State_Relative\<rparr>)
         | _ \<Rightarrow> Assertion_failed)
      else Continue (p\<lparr>parser_state := State_Relative\<rparr>))"

definition path_or_authority_state :: "parser_context \<Rightarrow> parser \<Rightarrow> code_point \<Rightarrow> action" where
  "path_or_authority_state cx p code_point =
     (if code_point = ord_of CHR ''/'' then Break (p\<lparr>parser_state := State_Authority\<rparr>)
      else Continue (p\<lparr>parser_state := State_Path\<rparr>))"

definition relative_state_from_base :: "url \<Rightarrow> parser \<Rightarrow> code_point \<Rightarrow> action" where
  "relative_state_from_base base p code_point =
     (let p = update_url p (\<lambda>u. u\<lparr>url_username := url_username base, url_password := url_password base,
                url_host := url_host base, url_port := url_port base, url_paths := url_paths base,
                url_query := url_query base\<rparr>)
      in if code_point = ord_of CHR ''?'' then
           Break (update_url p (\<lambda>u. u\<lparr>url_query := Some []\<rparr>)\<lparr>parser_state := State_Query\<rparr>)
         else if code_point = ord_of CHR ''#'' then
           Break (update_url p (\<lambda>u. u\<lparr>url_fragment := Some []\<rparr>)\<lparr>parser_state := State_Fragment\<rparr>)
         else if code_point \<noteq> end_of_file then
           (case shorten_urls_path ((the_url p)\<lparr>url_query := None\<rparr>) of
              None \<Rightarrow> Assertion_failed
            | Some u \<Rightarrow> Continue (p\<lparr>the_url := u, parser_state := State_Path\<rparr>))
         else Break p)"

definition relative_state :: "parser_context \<Rightarrow> parser \<Rightarrow> code_point \<Rightarrow> action" where
  "relative_state cx p code_point =
     (case cx_base_url cx of
        None \<Rightarrow> Assertion_failed
      | Some base \<Rightarrow>
          if url_scheme base = ''file'' then Assertion_failed
          else
            let p = update_url p (\<lambda>u. u\<lparr>url_scheme := url_scheme base\<rparr>)
            in if code_point = ord_of CHR ''/'' then Break (p\<lparr>parser_state := State_RelativeSlash\<rparr>)
               else if is_special (the_url p) \<and> code_point = ord_of CHR 0x5C then
                 Break (p\<lparr>parser_state := State_RelativeSlash\<rparr>)
               else relative_state_from_base base p code_point)"

definition relative_slash_state :: "parser_context \<Rightarrow> parser \<Rightarrow> code_point \<Rightarrow> action" where
  "relative_slash_state cx p code_point =
     (if is_special (the_url p) \<and> (code_point = ord_of CHR ''/'' \<or> code_point = ord_of CHR 0x5C) then
        Break (p\<lparr>parser_state := State_SpecialAuthorityIgnoreSlashes\<rparr>)
      else if code_point = ord_of CHR ''/'' then Break (p\<lparr>parser_state := State_Authority\<rparr>)
      else (case cx_base_url cx of
              None \<Rightarrow> Assertion_failed
            | Some base \<Rightarrow>
                Continue (update_url p (\<lambda>u. u\<lparr>url_username := url_username base, url_password := url_password base,
                            url_host := url_host base, url_port := url_port base\<rparr>)\<lparr>parser_state := State_Path\<rparr>)))"

definition special_authority_slashes_state :: "parser_context \<Rightarrow> parser \<Rightarrow> code_point \<Rightarrow> action" where
  "special_authority_slashes_state cx p code_point =
     (if code_point = ord_of CHR ''/'' then
        (case (remaining_starts_with_solidus (iterator p), utf8_next (iterator p)) of
           (Some True, Some it) \<Rightarrow> Break (p\<lparr>parser_state := State_SpecialAuthorityIgnoreSlashes, iterator := it\<rparr>)
         | (Some False, _) \<Rightarrow> Continue (p\<lparr>parser_state := State_SpecialAuthorityIgnoreSlashes\<rparr>)
         | _ \<Rightarrow> Assertion_failed)
      else Continue (p\<lparr>parser_state := State_SpecialAuthorityIgnoreSlashes\<rparr>))"

definition special_authority_ignore_slashes_state :: "parser_context \<Rightarrow> parser \<Rightarrow> code_point \<Rightarrow> action" where
  "special_authority_ignore_slashes_state cx p code_point =
     (if code_point \<noteq> ord_of CHR ''/'' \<and> code_point \<noteq> ord_of CHR 0x5C then Continue (p\<lparr>parser_state := State_Authority\<rparr>)
      else Break p)"

text \<open>The loop over the code points of the buffer that builds the user name and the password.\<close>

fun credentials_loop ::
  "url \<Rightarrow> code_point list \<Rightarrow> bool \<Rightarrow> bytes \<Rightarrow> bytes \<Rightarrow> (bool \<times> bytes \<times> bytes) option"
where
  "credentials_loop u [] token_seen username_builder password_builder =
     Some (token_seen, username_builder, password_builder)"
| "credentials_loop u (c # cs) token_seen username_builder password_builder =
     (if c = ord_of CHR '':'' \<and> \<not> token_seen then credentials_loop u cs True username_builder password_builder
      else if token_seen then
        (case append_percent_encoded_if_necessary
                (if password_builder = [] then url_password u else password_builder) c Userinfo of
           None \<Rightarrow> None
         | Some builder \<Rightarrow> credentials_loop u cs token_seen username_builder builder)
      else
        (case append_percent_encoded_if_necessary
                (if username_builder = [] then url_username u else username_builder) c Userinfo of
           None \<Rightarrow> None
         | Some builder \<Rightarrow> credentials_loop u cs token_seen builder password_builder))"

definition authority_at_sign :: "parser \<Rightarrow> action" where
  "authority_at_sign p =
     (let content = (if at_sign_seen p then ''%40'' @ buffer p else buffer p);
          u = the_url p
      in case credentials_loop u (utf8_decode content) (password_token_seen p) [] [] of
           None \<Rightarrow> Assertion_failed
         | Some (token_seen, username_builder, password_builder) \<Rightarrow>
             let u = (if length username_builder > length (url_username u)
                      then u\<lparr>url_username := username_builder\<rparr> else u);
                 u = (if length password_builder > length (url_password u)
                      then u\<lparr>url_password := password_builder\<rparr> else u)
             in Break (p\<lparr>the_url := u, buffer := [], at_sign_seen := True, password_token_seen := token_seen\<rparr>))"

text \<open>\<^verbatim>\<open>iterator - input.begin() - buffer.length() - 1\<close> in \<^verbatim>\<open>size_t\<close>.\<close>

definition authority_rewind_offset :: "parser_context \<Rightarrow> parser \<Rightarrow> nat" where
  "authority_rewind_offset cx p =
     nat ((int (length (cx_input cx)) - int (length (iterator p)) - int (length (buffer p)) - 1) mod 2 ^ 64)"

definition authority_state :: "parser_context \<Rightarrow> parser \<Rightarrow> code_point \<Rightarrow> action" where
  "authority_state cx p code_point =
     (if code_point = ord_of CHR ''@'' then authority_at_sign p
      else if ends_authority (the_url p) code_point then
        if at_sign_seen p \<and> buffer p = [] then Return_failure p
        else Break (p\<lparr>iterator := iterator_at_byte_offset (cx_input cx) (authority_rewind_offset cx p), buffer := [],
                      parser_state := State_Host\<rparr>)
      else Break (p\<lparr>buffer := append_code_point (buffer p) code_point\<rparr>))"

definition host_state :: "parser_context \<Rightarrow> parser \<Rightarrow> code_point \<Rightarrow> action" where
  "host_state cx p code_point =
     (if cx_state_override cx \<noteq> None \<and> url_scheme (the_url p) = ''file'' then
        Continue (p\<lparr>parser_state := State_FileHost\<rparr>)
      else if code_point = ord_of CHR '':'' \<and> \<not> inside_brackets p then
        if buffer p = [] then Return_failure p
        else if cx_state_override cx = Some State_Hostname then Return_url p
        else (case parse_host (cx_idna cx) (buffer p) (\<not> is_special (the_url p)) of
                Crash \<Rightarrow> Assertion_failed
              | Failure \<Rightarrow> Return_failure p
              | Success host \<Rightarrow>
                  Break (update_url p (\<lambda>u. u\<lparr>url_host := host\<rparr>)\<lparr>buffer := [], parser_state := State_Port\<rparr>))
      else if ends_authority (the_url p) code_point then
        if is_special (the_url p) \<and> buffer p = [] then Return_failure p
        else if cx_state_override cx \<noteq> None \<and> buffer p = []
                \<and> (includes_credentials (the_url p) \<or> url_port (the_url p) \<noteq> None) then Return_url p
        else (case parse_host (cx_idna cx) (buffer p) (\<not> is_special (the_url p)) of
                Crash \<Rightarrow> Assertion_failed
              | Failure \<Rightarrow> Return_failure p
              | Success host \<Rightarrow>
                  let p = update_url p (\<lambda>u. u\<lparr>url_host := host\<rparr>)\<lparr>buffer := [], parser_state := State_Port\<rparr>
                  in if cx_state_override cx \<noteq> None then Return_url p else Continue p)
      else
        Break (p\<lparr>inside_brackets :=
                  (if code_point = ord_of CHR ''['' then True
                   else if code_point = ord_of CHR '']'' then False else inside_brackets p),
                buffer := append_code_point (buffer p) code_point\<rparr>))"

definition port_state :: "parser_context \<Rightarrow> parser \<Rightarrow> code_point \<Rightarrow> action" where
  "port_state cx p code_point =
     (if is_ascii_digit code_point then Break (p\<lparr>buffer := append_code_point (buffer p) code_point\<rparr>)
      else if ends_authority (the_url p) code_point \<or> cx_state_override cx \<noteq> None then
        if buffer p \<noteq> [] \<and> convert_to_uint 65535 (buffer p) True = None then Return_failure p
        else
          let p = (if buffer p \<noteq> [] then
                     let port = of_nat (the (convert_to_uint 65535 (buffer p) True))
                     in update_url p (\<lambda>u. u\<lparr>url_port :=
                          (if default_port_for_scheme (url_scheme u) = Some port then None else Some port)\<rparr>)
                        \<lparr>buffer := []\<rparr>
                   else p)
          in if cx_state_override cx \<noteq> None then Return_url p else Continue (p\<lparr>parser_state := State_PathStart\<rparr>)
      else Return_failure p)"

definition file_state :: "parser_context \<Rightarrow> parser \<Rightarrow> code_point \<Rightarrow> action" where
  "file_state cx p code_point =
     (let p = update_url p (\<lambda>u. u\<lparr>url_scheme := ''file'', url_host := Host_String []\<rparr>)
      in if code_point = ord_of CHR ''/'' \<or> code_point = ord_of CHR 0x5C then Break (p\<lparr>parser_state := State_FileSlash\<rparr>)
         else (case cx_base_url cx of
             None \<Rightarrow> Continue (p\<lparr>parser_state := State_Path\<rparr>)
           | Some base \<Rightarrow>
               if url_scheme base = ''file'' then
                 let p = update_url p (\<lambda>u. u\<lparr>url_host := url_host base, url_paths := url_paths base,
                           url_query := url_query base\<rparr>)
                 in if code_point = ord_of CHR ''?'' then
                      Break (update_url p (\<lambda>u. u\<lparr>url_query := Some []\<rparr>)\<lparr>parser_state := State_Query\<rparr>)
                    else if code_point = ord_of CHR ''#'' then
                      Break (update_url p (\<lambda>u. u\<lparr>url_fragment := Some []\<rparr>)\<lparr>parser_state := State_Fragment\<rparr>)
                    else if code_point \<noteq> end_of_file then
                      let u = (the_url p)\<lparr>url_query := None\<rparr>
                      in (case (if \<not> starts_with_windows_drive_letter (iterator p) then shorten_urls_path u
                                else Some (u\<lparr>url_paths := []\<rparr>)) of
                            None \<Rightarrow> Assertion_failed
                          | Some u \<Rightarrow> Continue (p\<lparr>the_url := u, parser_state := State_Path\<rparr>))
                    else Break p
               else Continue (p\<lparr>parser_state := State_Path\<rparr>)))"

definition file_slash_state :: "parser_context \<Rightarrow> parser \<Rightarrow> code_point \<Rightarrow> action" where
  "file_slash_state cx p code_point =
     (if code_point = ord_of CHR ''/'' \<or> code_point = ord_of CHR 0x5C then Break (p\<lparr>parser_state := State_FileHost\<rparr>)
      else (case cx_base_url cx of
          None \<Rightarrow> Continue (p\<lparr>parser_state := State_Path\<rparr>)
        | Some base \<Rightarrow>
            if url_scheme base = ''file'' then
              let p = update_url p (\<lambda>u. u\<lparr>url_host := url_host base\<rparr>)
              in if \<not> starts_with_windows_drive_letter (iterator p) then
                   if url_paths base = [] then Assertion_failed
                   else if is_normalized_windows_drive_letter (url_paths base ! 0) then
                     Continue (update_url p (\<lambda>u. u\<lparr>url_paths := url_paths u @ [url_paths base ! 0]\<rparr>)
                               \<lparr>parser_state := State_Path\<rparr>)
                   else Continue (p\<lparr>parser_state := State_Path\<rparr>)
                 else Continue (p\<lparr>parser_state := State_Path\<rparr>)
            else Continue (p\<lparr>parser_state := State_Path\<rparr>)))"

definition file_host_state :: "parser_context \<Rightarrow> parser \<Rightarrow> code_point \<Rightarrow> action" where
  "file_host_state cx p code_point =
     (if code_point = end_of_file \<or> code_point = ord_of CHR ''/'' \<or> code_point = ord_of CHR 0x5C
         \<or> code_point = ord_of CHR ''?'' \<or> code_point = ord_of CHR ''#'' then
        if cx_state_override cx = None \<and> is_windows_drive_letter (buffer p) then
          Continue (p\<lparr>parser_state := State_Path\<rparr>)
        else if buffer p = [] then
          let p = update_url p (\<lambda>u. u\<lparr>url_host := Host_String []\<rparr>)
          in if cx_state_override cx \<noteq> None then Return_url p else Continue (p\<lparr>parser_state := State_PathStart\<rparr>)
        else (case parse_host (cx_idna cx) (buffer p) (\<not> is_special (the_url p)) of
                Crash \<Rightarrow> Assertion_failed
              | Failure \<Rightarrow> Return_failure p
              | Success host \<Rightarrow>
                  let host = (if host = Host_String ''localhost'' then Host_String [] else host);
                      p = update_url p (\<lambda>u. u\<lparr>url_host := host\<rparr>)
                  in if cx_state_override cx \<noteq> None then Return_url p
                     else Continue (p\<lparr>buffer := [], parser_state := State_PathStart\<rparr>))
      else Break (p\<lparr>buffer := append_code_point (buffer p) code_point\<rparr>))"

definition path_start_state :: "parser_context \<Rightarrow> parser \<Rightarrow> code_point \<Rightarrow> action" where
  "path_start_state cx p code_point =
     (if is_special (the_url p) then
        let p = p\<lparr>parser_state := State_Path\<rparr>
        in if code_point \<noteq> ord_of CHR ''/'' \<and> code_point \<noteq> ord_of CHR 0x5C then Continue p else Break p
      else if cx_state_override cx = None \<and> code_point = ord_of CHR ''?'' then
        Break (update_url p (\<lambda>u. u\<lparr>url_query := Some []\<rparr>)\<lparr>parser_state := State_Query\<rparr>)
      else if cx_state_override cx = None \<and> code_point = ord_of CHR ''#'' then
        Break (update_url p (\<lambda>u. u\<lparr>url_fragment := Some []\<rparr>)\<lparr>parser_state := State_Fragment\<rparr>)
      else if code_point \<noteq> end_of_file then
        let p = p\<lparr>parser_state := State_Path\<rparr>
        in if code_point \<noteq> ord_of CHR ''/'' then Continue p else Break p
      else if cx_state_override cx \<noteq> None \<and> url_host (the_url p) = Host_Empty then Break (update_url p append_slash)
      else Break p)"

text \<open>Adding the segment in the buffer to the path, at the end of the segment.\<close>

definition add_path_segment :: "url \<Rightarrow> bytes \<Rightarrow> code_point \<Rightarrow> url option" where
  "add_path_segment u segment code_point =
     (let slash = (code_point = ord_of CHR ''/'' \<or> is_special u \<and> code_point = ord_of CHR 0x5C)
      in if is_double_dot_path_segment segment then
           map_option (\<lambda>u. if \<not> slash then append_slash u else u) (shorten_urls_path u)
         else if is_single_dot_path_segment segment \<and> \<not> slash then Some (append_slash u)
         else if \<not> is_single_dot_path_segment segment then
           let segment = (if url_scheme u = ''file'' \<and> url_paths u = [] \<and> is_windows_drive_letter segment
                          then [segment ! 0] @ '':'' else segment)
           in Some (u\<lparr>url_paths := url_paths u @ [segment]\<rparr>)
         else Some u)"

definition path_state :: "parser_context \<Rightarrow> parser \<Rightarrow> code_point \<Rightarrow> action" where
  "path_state cx p code_point =
     (if (code_point = end_of_file \<or> code_point = ord_of CHR ''/'')
         \<or> (is_special (the_url p) \<and> code_point = ord_of CHR 0x5C)
         \<or> (cx_state_override cx = None \<and> (code_point = ord_of CHR ''?'' \<or> code_point = ord_of CHR ''#'')) then
        (case add_path_segment (the_url p) (buffer p) code_point of
           None \<Rightarrow> Assertion_failed
         | Some u \<Rightarrow>
             let p = p\<lparr>the_url := u, buffer := []\<rparr>
             in if code_point = ord_of CHR ''?'' then
                  Break (update_url p (\<lambda>u. u\<lparr>url_query := Some []\<rparr>)\<lparr>parser_state := State_Query\<rparr>)
                else if code_point = ord_of CHR ''#'' then
                  Break (update_url p (\<lambda>u. u\<lparr>url_fragment := Some []\<rparr>)\<lparr>parser_state := State_Fragment\<rparr>)
                else Break p)
      else (case append_percent_encoded_if_necessary (buffer p) code_point Path of
              None \<Rightarrow> Assertion_failed
            | Some encoded \<Rightarrow> Break (p\<lparr>buffer := encoded\<rparr>)))"

definition cannot_be_a_base_url_path_state :: "parser_context \<Rightarrow> parser \<Rightarrow> code_point \<Rightarrow> action" where
  "cannot_be_a_base_url_path_state cx p code_point =
     (if \<not> (length (url_paths (the_url p)) = 1 \<and> url_paths (the_url p) ! 0 = []) then Assertion_failed
      else if code_point = ord_of CHR ''?'' then
        Break (update_url p (\<lambda>u. u\<lparr>url_paths := (url_paths u)[0 := buffer p], url_query := Some []\<rparr>)
               \<lparr>buffer := [], parser_state := State_Query\<rparr>)
      else if code_point = ord_of CHR ''#'' then
        Break (update_url p (\<lambda>u. u\<lparr>url_paths := (url_paths u)[0 := buffer p], url_fragment := Some []\<rparr>)
               \<lparr>buffer := [], parser_state := State_Fragment\<rparr>)
      else if code_point \<noteq> end_of_file then
        (case append_percent_encoded_if_necessary (buffer p) code_point C0Control of
           None \<Rightarrow> Assertion_failed
         | Some encoded \<Rightarrow> Break (p\<lparr>buffer := encoded\<rparr>))
      else Break (update_url p (\<lambda>u. u\<lparr>url_paths := (url_paths u)[0 := buffer p]\<rparr>)\<lparr>buffer := []\<rparr>))"

definition query_state :: "parser_context \<Rightarrow> parser \<Rightarrow> code_point \<Rightarrow> action" where
  "query_state cx p code_point =
     (let p = (if \<not> is_special (the_url p) \<or> url_scheme (the_url p) = ''ws'' \<or> url_scheme (the_url p) = ''wss''
               then p\<lparr>the_encoder := utf8_encoder\<rparr> else p)
      in if cx_state_override cx = None \<and> code_point = ord_of CHR ''#'' \<or> code_point = end_of_file then
           let enc = (if is_special (the_url p) then SpecialQuery else Query);
               p = update_url p (\<lambda>u. u\<lparr>url_query :=
                     Some (percent_encode_after_encoding (the_encoder p) (buffer p) enc False)\<rparr>)\<lparr>buffer := []\<rparr>
           in if code_point = ord_of CHR ''#'' then
                Break (update_url p (\<lambda>u. u\<lparr>url_fragment := Some []\<rparr>)\<lparr>parser_state := State_Fragment\<rparr>)
              else Break p
         else Break (p\<lparr>buffer := append_code_point (buffer p) code_point\<rparr>))"

definition fragment_state :: "parser_context \<Rightarrow> parser \<Rightarrow> code_point \<Rightarrow> action" where
  "fragment_state cx p code_point =
     (if code_point \<noteq> end_of_file then Break (p\<lparr>buffer := append_code_point (buffer p) code_point\<rparr>)
      else Break (update_url p (\<lambda>u. u\<lparr>url_fragment :=
                    Some (percent_encode_after_encoding utf8_encoder (buffer p) Fragment False)\<rparr>)\<lparr>buffer := []\<rparr>))"

fun run_state :: "parser_state \<Rightarrow> parser_context \<Rightarrow> parser \<Rightarrow> code_point \<Rightarrow> action" where
  "run_state State_SchemeStart = scheme_start_state"
| "run_state State_Scheme = scheme_state"
| "run_state State_NoScheme = no_scheme_state"
| "run_state State_SpecialRelativeOrAuthority = special_relative_or_authority_state"
| "run_state State_PathOrAuthority = path_or_authority_state"
| "run_state State_Relative = relative_state"
| "run_state State_RelativeSlash = relative_slash_state"
| "run_state State_SpecialAuthoritySlashes = special_authority_slashes_state"
| "run_state State_SpecialAuthorityIgnoreSlashes = special_authority_ignore_slashes_state"
| "run_state State_Authority = authority_state"
| "run_state State_Host = host_state"
| "run_state State_Hostname = host_state"
| "run_state State_Port = port_state"
| "run_state State_File = file_state"
| "run_state State_FileSlash = file_slash_state"
| "run_state State_FileHost = file_host_state"
| "run_state State_PathStart = path_start_state"
| "run_state State_Path = path_state"
| "run_state State_CannotBeABaseUrlPath = cannot_be_a_base_url_path_state"
| "run_state State_Query = query_state"
| "run_state State_Fragment = fragment_state"

subsection \<open>The loop\<close>

definition code_point_at :: "utf8_iterator \<Rightarrow> code_point" where
  "code_point_at it = (case utf8_deref it of Some c \<Rightarrow> c | None \<Rightarrow> end_of_file)"

text \<open>The returned URL and the value of \<^verbatim>\<open>*url\<close> at the end.\<close>

type_synonym parse_result = "(url \<times> url) option"

definition finish_parse :: "parser \<Rightarrow> parse_result" where
  "finish_parse p = (let u = (the_url p)\<lparr>url_valid := True\<rparr> in Some (u, u))"

definition basic_parse_step :: "parser_context \<Rightarrow> parser \<Rightarrow> parser + parse_result" where
  "basic_parse_step cx p =
     (case run_state (parser_state p) cx p (code_point_at (iterator p)) of
        Continue p \<Rightarrow> Inl p
      | Break p \<Rightarrow>
          (case utf8_next (iterator p) of
             None \<Rightarrow> Inr (finish_parse p)
           | Some it \<Rightarrow> Inl (p\<lparr>iterator := it\<rparr>))
      | Return_url p \<Rightarrow> Inr (Some (the_url p, the_url p))
      | Return_failure p \<Rightarrow> Inr (Some (empty_url, the_url p))
      | Assertion_failed \<Rightarrow> Inr None)"

text \<open>
  The states in the order of their declaration: whenever a case changes the state, it moves to a
  later one.
\<close>

fun state_index :: "parser_state \<Rightarrow> nat" where
  "state_index State_SchemeStart = 0"
| "state_index State_Scheme = 1"
| "state_index State_NoScheme = 2"
| "state_index State_SpecialRelativeOrAuthority = 3"
| "state_index State_PathOrAuthority = 4"
| "state_index State_Relative = 5"
| "state_index State_RelativeSlash = 6"
| "state_index State_SpecialAuthoritySlashes = 7"
| "state_index State_SpecialAuthorityIgnoreSlashes = 8"
| "state_index State_Authority = 9"
| "state_index State_Host = 10"
| "state_index State_Hostname = 11"
| "state_index State_Port = 12"
| "state_index State_File = 13"
| "state_index State_FileSlash = 14"
| "state_index State_FileHost = 15"
| "state_index State_PathStart = 16"
| "state_index State_Path = 17"
| "state_index State_CannotBeABaseUrlPath = 18"
| "state_index State_Query = 19"
| "state_index State_Fragment = 20"

definition parser_rel :: "(parser \<times> parser) set" where
  "parser_rel = measures [\<lambda>p. 20 - state_index (parser_state p), \<lambda>p. length (iterator p)]"

lemma wf_parser_rel: "wf parser_rel"
  by (simp add: parser_rel_def)

lemma state_index_bound: "state_index s \<le> 20"
  by (cases s) simp_all

text \<open>Progress of one case: it moves to a later state, or stays and does not move the iterator back.\<close>

fun progresses :: "parser \<Rightarrow> action \<Rightarrow> bool" where
  "progresses p (Continue q) \<longleftrightarrow> state_index (parser_state p) < state_index (parser_state q)"
| "progresses p (Break q) \<longleftrightarrow>
     state_index (parser_state p) < state_index (parser_state q)
     \<or> parser_state q = parser_state p \<and> length (iterator q) \<le> length (iterator p)"
| "progresses p _ \<longleftrightarrow> True"

lemma progresses_scheme_state:
  "parser_state p = State_Scheme \<Longrightarrow> progresses p (scheme_state cx p c)"
  by (simp add: scheme_state_def scheme_state_with_override_def scheme_state_without_override_def Let_def
      split: option.split)

lemma progresses_relative_state:
  "parser_state p = State_Relative \<Longrightarrow> progresses p (relative_state cx p c)"
  by (simp add: relative_state_def relative_state_from_base_def Let_def split: option.split)

lemma progresses_authority_state:
  "parser_state p = State_Authority \<Longrightarrow> progresses p (authority_state cx p c)"
  by (simp add: authority_state_def authority_at_sign_def Let_def split: option.split)

lemma progresses_host_state:
  "parser_state p = State_Host \<or> parser_state p = State_Hostname \<Longrightarrow> progresses p (host_state cx p c)"
  by (elim disjE; simp add: host_state_def Let_def split: outcome.split)

lemma progresses_port_state:
  "parser_state p = State_Port \<Longrightarrow> progresses p (port_state cx p c)"
  by (simp add: port_state_def Let_def)

lemma progresses_file_state:
  "parser_state p = State_File \<Longrightarrow> progresses p (file_state cx p c)"
  by (simp add: file_state_def Let_def split: option.split)

lemma progresses_file_slash_state:
  "parser_state p = State_FileSlash \<Longrightarrow> progresses p (file_slash_state cx p c)"
  by (simp add: file_slash_state_def Let_def split: option.split)

lemma progresses_file_host_state:
  "parser_state p = State_FileHost \<Longrightarrow> progresses p (file_host_state cx p c)"
  by (simp add: file_host_state_def Let_def split: outcome.split)

lemma progresses_path_state:
  "parser_state p = State_Path \<Longrightarrow> progresses p (path_state cx p c)"
  by (simp add: path_state_def Let_def split: option.split)

lemma progresses_short_states:
  "parser_state p = State_SchemeStart \<Longrightarrow> progresses p (scheme_start_state cx p c)"
  "parser_state p = State_NoScheme \<Longrightarrow> progresses p (no_scheme_state cx p c)"
  "parser_state p = State_SpecialRelativeOrAuthority \<Longrightarrow> progresses p (special_relative_or_authority_state cx p c)"
  "parser_state p = State_PathOrAuthority \<Longrightarrow> progresses p (path_or_authority_state cx p c)"
  "parser_state p = State_RelativeSlash \<Longrightarrow> progresses p (relative_slash_state cx p c)"
  "parser_state p = State_SpecialAuthoritySlashes \<Longrightarrow> progresses p (special_authority_slashes_state cx p c)"
  "parser_state p = State_SpecialAuthorityIgnoreSlashes \<Longrightarrow>
     progresses p (special_authority_ignore_slashes_state cx p c)"
  "parser_state p = State_PathStart \<Longrightarrow> progresses p (path_start_state cx p c)"
  "parser_state p = State_CannotBeABaseUrlPath \<Longrightarrow> progresses p (cannot_be_a_base_url_path_state cx p c)"
  "parser_state p = State_Query \<Longrightarrow> progresses p (query_state cx p c)"
  "parser_state p = State_Fragment \<Longrightarrow> progresses p (fragment_state cx p c)"
  by (simp_all add: scheme_start_state_def no_scheme_state_def special_relative_or_authority_state_def
      path_or_authority_state_def relative_slash_state_def special_authority_slashes_state_def
      special_authority_ignore_slashes_state_def path_start_state_def cannot_be_a_base_url_path_state_def
      query_state_def fragment_state_def Let_def split: option.split bool.split)

lemma progresses_run_state: "progresses p (run_state (parser_state p) cx p c)"
  by (cases "parser_state p")
    (simp_all add: progresses_short_states progresses_scheme_state progresses_relative_state
      progresses_authority_state progresses_host_state progresses_port_state progresses_file_state
      progresses_file_slash_state progresses_file_host_state progresses_path_state)

lemma basic_parse_step_rel:
  assumes "basic_parse_step cx p = Inl q"
  shows "(q, p) \<in> parser_rel"
proof -
  have prog: "progresses p (run_state (parser_state p) cx p (code_point_at (iterator p)))"
    by (rule progresses_run_state)
  have bound: "state_index (parser_state q) \<le> 20" by (rule state_index_bound)
  show ?thesis
  proof (cases "run_state (parser_state p) cx p (code_point_at (iterator p))")
    case (Break r)
    with assms obtain it where it: "utf8_next (iterator r) = Some it" "q = r\<lparr>iterator := it\<rparr>"
      by (auto simp: basic_parse_step_def split: option.splits)
    then have "length (iterator q) < length (iterator r)" using utf8_next_shorter by simp
    then show ?thesis using prog Break it bound by (auto simp: parser_rel_def)
  next
    case (Continue r)
    then show ?thesis using prog assms bound by (auto simp: parser_rel_def basic_parse_step_def)
  qed (use assms in \<open>simp_all add: basic_parse_step_def\<close>)
qed

function basic_parse_loop :: "parser_context \<Rightarrow> parser \<Rightarrow> parse_result" where
  "basic_parse_loop cx p = (case basic_parse_step cx p of Inl q \<Rightarrow> basic_parse_loop cx q | Inr r \<Rightarrow> r)"
  by pat_completeness auto
termination
  by (relation "inv_image parser_rel snd") (auto simp: wf_parser_rel basic_parse_step_rel)

declare basic_parse_loop.simps [simp del]

interpretation url_parser: loop "basic_parse_step cx" "basic_parse_loop cx" parser_rel for cx
  by unfold_locales (simp_all add: basic_parse_loop.simps wf_parser_rel basic_parse_step_rel)

subsection \<open>The entry point\<close>

definition strip_c0_control_or_space :: "bytes \<Rightarrow> bytes" where
  "strip_c0_control_or_space raw_input =
     (let drop_leading = dropWhile (\<lambda>c. is_ascii_c0_control_or_space (ord_of c))
      in rev (drop_leading (rev (drop_leading raw_input))))"

definition remove_tab_and_newline :: "bytes \<Rightarrow> bytes option" where
  "remove_tab_and_newline input =
     (if list_ex (\<lambda>ch. ch = CHR 0x09 \<or> ch = CHR 0x0A \<or> ch = CHR 0x0D) input then
        (case replace input [CHR 0x09] [] ReplaceAll of
           None \<Rightarrow> None
         | Some input \<Rightarrow>
             (case replace input [CHR 0x0A] [] ReplaceAll of
                None \<Rightarrow> None
              | Some input \<Rightarrow> replace input [CHR 0x0D] [] ReplaceAll))
      else Some input)"

definition basic_parse ::
  "idna \<Rightarrow> bytes \<Rightarrow> url option \<Rightarrow> url option \<Rightarrow> parser_state option \<Rightarrow> encoder option \<Rightarrow> parse_result"
where
  "basic_parse idna raw_input base_url url state_override encoding =
     (case remove_tab_and_newline (case url of None \<Rightarrow> strip_c0_control_or_space raw_input | Some _ \<Rightarrow> raw_input) of
        None \<Rightarrow> None
      | Some processed_input \<Rightarrow>
          basic_parse_loop
            \<lparr>cx_input = processed_input, cx_base_url = base_url, cx_state_override = state_override, cx_idna = idna\<rparr>
            \<lparr>the_url = (case url of None \<Rightarrow> empty_url | Some u \<Rightarrow> u),
             parser_state = (case state_override of Some s \<Rightarrow> s | None \<Rightarrow> State_SchemeStart),
             buffer = [], at_sign_seen = False, inside_brackets = False, password_token_seen = False,
             iterator = processed_input,
             the_encoder = (case encoding of Some e \<Rightarrow> e | None \<Rightarrow> utf8_encoder)\<rparr>)"

text \<open>\<^verbatim>\<open>URL::URL(StringView)\<close> and \<^verbatim>\<open>URL::complete_url\<close>.\<close>

definition parse_url :: "idna \<Rightarrow> bytes \<Rightarrow> url option" where
  "parse_url idna string = map_option fst (basic_parse idna string None None None None)"

definition complete_url :: "idna \<Rightarrow> url \<Rightarrow> bytes \<Rightarrow> url option" where
  "complete_url idna u relative_url =
     (if \<not> url_valid u then Some empty_url
      else map_option fst (basic_parse idna relative_url (Some u) None None None))"

end
