(* ===== verification/UrlInvariant.thy ===== *)
theory UrlInvariant
  imports UrlParser
begin

text \<open>
  The invariant of URL records (\<open>url_ok\<close>) and the proof that the parser establishes it: without a
  state override the parser runs into no failing assertion and returns the empty URL or a URL
  that satisfies the invariant, when the base URL does.
\<close>

subsection \<open>The invariant\<close>

definition encoded_by :: "percent_encode_set \<Rightarrow> bytes \<Rightarrow> bool" where
  "encoded_by enc s \<longleftrightarrow>
     list_all (\<lambda>b. b = CHR ''%'' \<or> \<not> code_point_is_in_percent_encode_set (ord_of b) enc) s"

definition scheme_byte :: "char \<Rightarrow> bool" where
  "scheme_byte b \<longleftrightarrow> is_ascii_lower_alpha (ord_of b) \<or> is_ascii_digit (ord_of b)
     \<or> b = CHR ''+'' \<or> b = CHR ''-'' \<or> b = CHR ''.''"

definition scheme_ok :: "bytes \<Rightarrow> bool" where
  "scheme_ok s \<longleftrightarrow> s \<noteq> [] \<and> is_ascii_lower_alpha (ord_of (s ! 0)) \<and> list_all scheme_byte s"

definition segment_bytes :: "bool \<Rightarrow> bytes \<Rightarrow> bool" where
  "segment_bytes special s \<longleftrightarrow> encoded_by Path s \<and> CHR ''/'' \<notin> set s \<and> (special \<longrightarrow> CHR 0x5C \<notin> set s)"

definition segment_ok :: "bool \<Rightarrow> bytes \<Rightarrow> bool" where
  "segment_ok special s \<longleftrightarrow>
     segment_bytes special s \<and> \<not> is_single_dot_path_segment s \<and> \<not> is_double_dot_path_segment s"

definition opaque_path_bytes :: "bytes \<Rightarrow> bool" where
  "opaque_path_bytes s \<longleftrightarrow> encoded_by C0Control s \<and> CHR ''?'' \<notin> set s \<and> CHR ''#'' \<notin> set s"

text \<open>The scheme, the credentials, the host and the port.\<close>

definition head_ok :: "url \<Rightarrow> bool" where
  "head_ok u \<longleftrightarrow> scheme_ok (url_scheme u)
     \<and> encoded_by Userinfo (url_username u) \<and> encoded_by Userinfo (url_password u)
     \<and> (url_host u = Host_Empty \<or> url_host u = Host_String [] \<or> host_valid (\<not> is_special u) (url_host u))
     \<and> (url_port u = None \<or> url_port u \<noteq> default_port_for_scheme (url_scheme u))"

definition path_ok :: "url \<Rightarrow> bool" where
  "path_ok u \<longleftrightarrow>
     (if url_cannot_be_a_base_url u
      then \<not> is_special u \<and> (\<exists>s. url_paths u = [s] \<and> opaque_path_bytes s)
      else list_all (segment_ok (is_special u)) (url_paths u))
     \<and> (url_scheme u = ''file'' \<longrightarrow> url_paths u \<noteq> [])"

definition url_ok :: "url \<Rightarrow> bool" where
  "url_ok u \<longleftrightarrow> head_ok u \<and> path_ok u
     \<and> (\<forall>q. url_query u = Some q \<longrightarrow> encoded_by (if is_special u then SpecialQuery else Query) q)
     \<and> (\<forall>f. url_fragment u = Some f \<longrightarrow> encoded_by Fragment f)"

subsection \<open>Percent-encoded strings\<close>

declare code_point_is_in_percent_encode_set.simps [simp del]

lemma encoded_by_Nil [simp]: "encoded_by enc []"
  by (simp add: encoded_by_def)

lemma encoded_by_append [simp]: "encoded_by enc (s @ t) \<longleftrightarrow> encoded_by enc s \<and> encoded_by enc t"
  by (simp add: encoded_by_def)

lemma encoded_by_alphanumeric:
  "\<forall>c\<in>set s. is_ascii_alphanumeric (ord_of c) \<Longrightarrow> encoded_by enc s"
  using alphanumeric_not_in_set by (auto simp: encoded_by_def list_all_iff)

lemma encoded_code_point_bytes:
  assumes "x \<in> set (encoded_code_point enc c)"
  shows "x = CHR ''%'' \<or> is_ascii_uppercase_hex_digit (ord_of x)
    \<or> ord_of x = c \<and> \<not> code_point_is_in_percent_encode_set c enc"
proof (cases "code_point_is_in_percent_encode_set c enc")
  case True
  with assms show ?thesis by (auto simp: encoded_code_point_def dest: format_02X_chars)
next
  case False
  with assms not_in_set_printable [OF False] show ?thesis by (simp add: encoded_code_point_plain)
qed

lemma uppercase_hex_not_in_set:
  "is_ascii_uppercase_hex_digit c \<Longrightarrow> \<not> code_point_is_in_percent_encode_set c enc"
  using alphanumeric_not_in_set hex_alphanumeric by (simp add: is_ascii_hex_digit_def)

lemma encoded_by_code_point [simp]: "encoded_by enc (encoded_code_point enc c)"
  using encoded_code_point_bytes uppercase_hex_not_in_set
  by (fastforce simp: encoded_by_def list_all_iff)

lemma encoded_code_point_not_in:
  assumes "ord_of x \<noteq> c" "x \<noteq> CHR ''%''" "\<not> is_ascii_uppercase_hex_digit (ord_of x)"
  shows "x \<notin> set (encoded_code_point enc c)"
  using assms encoded_code_point_bytes by blast

lemma encoded_by_event [simp]: "encoded_by enc (percent_encode_event enc False e)"
proof (cases e)
  case (On_byte b)
  show ?thesis
  proof (cases "code_point_is_in_percent_encode_set (ord_of b) enc")
    case True
    then show ?thesis
      using On_byte format_02X_chars [of _ b] uppercase_hex_not_in_set [of _ enc]
      by (auto simp: encoded_by_def list_all_iff)
  next
    case False
    then show ?thesis
      using On_byte not_in_set_printable [OF False] by (simp add: encoded_by_def append_code_point_def)
  qed
next
  case (On_error c)
  have "encoded_by enc ''26''" "encoded_by enc ''23''" "encoded_by enc ''3B''" "encoded_by enc (format_dec c)"
    using format_dec_digit [of _ c]
    by (intro encoded_by_alphanumeric; auto simp: is_ascii_alphanumeric_def is_ascii_alpha_def is_ascii_digit_def
        is_ascii_upper_alpha_def)+
  then show ?thesis
    using On_error by (simp add: encoded_by_def)
qed

lemma encoded_by_after_encoding [simp]:
  "encoded_by enc (percent_encode_after_encoding encoder s enc False)"
proof -
  have "encoded_by enc (concat (map (percent_encode_event enc False) es))" for es
    by (induction es) simp_all
  then show ?thesis by (simp add: percent_encode_after_encoding_def)
qed

lemma credentials_loop_encoded:
  assumes "list_all (\<lambda>c. c \<le> 0x10FFFF) cs" "encoded_by Userinfo (url_username u)" "encoded_by Userinfo (url_password u)"
    "encoded_by Userinfo ub" "encoded_by Userinfo pb"
  shows "\<exists>seen' ub' pb'. credentials_loop u cs seen ub pb = Some (seen', ub', pb')
    \<and> encoded_by Userinfo ub' \<and> encoded_by Userinfo pb'"
  using assms
  by (induction u cs seen ub pb rule: credentials_loop.induct)
    (auto simp: append_percent_encoded_if_necessary_eq)

subsection \<open>Path segments\<close>

lemma segment_bytes_code_point:
  assumes "segment_bytes special s" "c \<noteq> ord_of CHR ''/''" "\<not> (special \<and> c = ord_of CHR 0x5C)"
  shows "segment_bytes special (s @ encoded_code_point Path c)"
  using assms encoded_code_point_not_in [of "CHR ''/''" c Path] encoded_code_point_not_in [of "CHR 0x5C" c Path]
  by (auto simp: segment_bytes_def is_ascii_uppercase_hex_digit_def is_ascii_digit_def)

lemma opaque_path_bytes_code_point:
  assumes "opaque_path_bytes s" "c \<noteq> ord_of CHR ''?''" "c \<noteq> ord_of CHR ''#''"
  shows "opaque_path_bytes (s @ encoded_code_point C0Control c)"
  using assms encoded_code_point_not_in [of "CHR ''?''" c C0Control] encoded_code_point_not_in [of "CHR ''#''" c C0Control]
  by (auto simp: opaque_path_bytes_def is_ascii_uppercase_hex_digit_def is_ascii_digit_def)

lemma segment_ok_Nil [simp]: "segment_ok special []"
  by (simp add: segment_ok_def segment_bytes_def is_single_dot_path_segment_def is_double_dot_path_segment_def
      equals_ignoring_ascii_case_def)

lemma segment_ok_drive_letter:
  assumes "is_ascii_alpha (ord_of c)"
  shows "segment_ok special [c, CHR '':'']"
proof -
  have "\<not> code_point_is_in_percent_encode_set (ord_of c) Path"
    using assms by (intro alphanumeric_not_in_set) (simp add: is_ascii_alphanumeric_def)
  moreover have "\<not> code_point_is_in_percent_encode_set (ord_of CHR '':'') Path"
    by (simp add: sv_contains_ord code_point_is_in_percent_encode_set.simps)
  ultimately have "encoded_by Path [c, CHR '':'']"
    by (simp add: encoded_by_def del: ord_ascii)
  moreover have "c \<noteq> CHR ''/''" "c \<noteq> CHR 0x5C" "c \<noteq> CHR ''.''" "to_ascii_lowercase (ord_of c) \<noteq> 46" "to_ascii_lowercase (ord_of c) \<noteq> 37"
    using assms by (auto simp: is_ascii_alpha_def is_ascii_upper_alpha_def is_ascii_lower_alpha_def to_ascii_lowercase_def)
  ultimately show ?thesis
    by (auto simp: segment_ok_def segment_bytes_def is_single_dot_path_segment_def
        is_double_dot_path_segment_def equals_ignoring_ascii_case_def)
qed

lemma url_paths_update_same [simp]: "u = u\<lparr>url_paths := ps\<rparr> \<longleftrightarrow> ps = url_paths (u :: url)"
  by (cases u) auto

lemma shorten_urls_path_ok:
  assumes "\<not> url_cannot_be_a_base_url u"
  shows "\<exists>ps. shorten_urls_path u = Some (u\<lparr>url_paths := ps\<rparr>) \<and> set ps \<subseteq> set (url_paths u)"
  using assms by (auto simp: shorten_urls_path_def dest: in_set_butlastD)

lemma add_path_segment_ok:
  assumes "\<not> url_cannot_be_a_base_url u" "segment_bytes (is_special u) s" "list_all (segment_ok (is_special u)) (url_paths u)"
  shows "\<exists>ps. add_path_segment u s c = Some (u\<lparr>url_paths := ps\<rparr>) \<and> list_all (segment_ok (is_special u)) ps
    \<and> (c \<noteq> ord_of CHR ''/'' \<and> c \<noteq> ord_of CHR 0x5C \<longrightarrow> ps \<noteq> [])"
proof -
  let ?slash = "c = ord_of CHR ''/'' \<or> is_special u \<and> c = ord_of CHR 0x5C"
  obtain ps where ps: "shorten_urls_path u = Some (u\<lparr>url_paths := ps\<rparr>)" "set ps \<subseteq> set (url_paths u)"
    using shorten_urls_path_ok [OF assms(1)] by blast
  have ok: "list_all (segment_ok (is_special u)) ps" using ps assms(3) by (auto simp: list_all_iff)
  consider (double) "is_double_dot_path_segment s"
    | (single) "\<not> is_double_dot_path_segment s" "is_single_dot_path_segment s"
    | (other) "\<not> is_double_dot_path_segment s" "\<not> is_single_dot_path_segment s" by blast
  then show ?thesis
  proof cases
    case double
    then have "add_path_segment u s c = Some (u\<lparr>url_paths := if ?slash then ps else ps @ [[]]\<rparr>)"
      using ps by (auto simp: add_path_segment_def append_slash_def)
    then show ?thesis using ok by auto
  next
    case single
    then have "add_path_segment u s c = Some (u\<lparr>url_paths := if ?slash then url_paths u else url_paths u @ [[]]\<rparr>)"
      by (auto simp: add_path_segment_def append_slash_def)
    then show ?thesis using assms(3) by auto
  next
    case other
    let ?s = "if url_scheme u = ''file'' \<and> url_paths u = [] \<and> is_windows_drive_letter s then [s ! 0, CHR '':''] else s"
    have "segment_ok (is_special u) ?s"
      using other assms(2) segment_ok_drive_letter [of "s ! 0"]
      by (simp add: segment_ok_def [of _ s]) (simp add: is_windows_drive_letter_def)
    moreover have "add_path_segment u s c = Some (u\<lparr>url_paths := url_paths u @ [?s]\<rparr>)"
      using other by (simp add: add_path_segment_def Let_def)
    ultimately show ?thesis using assms(3) by auto
  qed
qed

subsection \<open>The invariant of the state machine\<close>

definition no_tail :: "url \<Rightarrow> bool" where
  "no_tail u \<longleftrightarrow> url_paths u = [] \<and> url_query u = None \<and> url_fragment u = None \<and> \<not> url_cannot_be_a_base_url u"

definition blank :: "url \<Rightarrow> bool" where
  "blank u \<longleftrightarrow> url_username u = [] \<and> url_password u = [] \<and> url_host u = Host_Empty \<and> url_port u = None \<and> no_tail u"

fun state_inv :: "parser_state \<Rightarrow> parser_context \<Rightarrow> parser \<Rightarrow> bool" where
  "state_inv State_SchemeStart cx p \<longleftrightarrow> blank (the_url p) \<and> buffer p = []"
| "state_inv State_Scheme cx p \<longleftrightarrow> blank (the_url p) \<and> scheme_ok (buffer p)"
| "state_inv State_NoScheme cx p \<longleftrightarrow> blank (the_url p) \<and> buffer p = []"
| "state_inv State_SpecialRelativeOrAuthority cx p \<longleftrightarrow>
     blank (the_url p) \<and> buffer p = [] \<and> scheme_ok (url_scheme (the_url p)) \<and> is_special (the_url p)
     \<and> url_scheme (the_url p) \<noteq> ''file'' \<and> (\<exists>b. cx_base_url cx = Some b \<and> url_scheme b = url_scheme (the_url p))"
| "state_inv State_PathOrAuthority cx p \<longleftrightarrow>
     blank (the_url p) \<and> buffer p = [] \<and> scheme_ok (url_scheme (the_url p)) \<and> \<not> is_special (the_url p)"
| "state_inv State_Relative cx p \<longleftrightarrow>
     blank (the_url p) \<and> buffer p = []
     \<and> (\<exists>b. cx_base_url cx = Some b \<and> url_scheme b \<noteq> ''file'' \<and> \<not> url_cannot_be_a_base_url b)"
| "state_inv State_RelativeSlash cx p \<longleftrightarrow>
     blank (the_url p) \<and> buffer p = [] \<and> url_scheme (the_url p) \<noteq> ''file''
     \<and> (\<exists>b. cx_base_url cx = Some b \<and> url_scheme b = url_scheme (the_url p))"
| "state_inv State_SpecialAuthoritySlashes cx p \<longleftrightarrow>
     blank (the_url p) \<and> buffer p = [] \<and> scheme_ok (url_scheme (the_url p)) \<and> url_scheme (the_url p) \<noteq> ''file''"
| "state_inv State_SpecialAuthorityIgnoreSlashes cx p \<longleftrightarrow>
     blank (the_url p) \<and> buffer p = [] \<and> scheme_ok (url_scheme (the_url p)) \<and> url_scheme (the_url p) \<noteq> ''file''"
| "state_inv State_Authority cx p \<longleftrightarrow>
     head_ok (the_url p) \<and> no_tail (the_url p) \<and> url_scheme (the_url p) \<noteq> ''file''"
| "state_inv State_Host cx p \<longleftrightarrow>
     head_ok (the_url p) \<and> no_tail (the_url p) \<and> url_scheme (the_url p) \<noteq> ''file''"
| "state_inv State_Hostname cx p \<longleftrightarrow> False"
| "state_inv State_Port cx p \<longleftrightarrow>
     head_ok (the_url p) \<and> no_tail (the_url p) \<and> url_scheme (the_url p) \<noteq> ''file''"
| "state_inv State_File cx p \<longleftrightarrow> blank (the_url p) \<and> buffer p = []"
| "state_inv State_FileSlash cx p \<longleftrightarrow>
     head_ok (the_url p) \<and> no_tail (the_url p) \<and> url_scheme (the_url p) = ''file'' \<and> buffer p = []"
| "state_inv State_FileHost cx p \<longleftrightarrow>
     head_ok (the_url p) \<and> no_tail (the_url p) \<and> url_scheme (the_url p) = ''file''"
| "state_inv State_PathStart cx p \<longleftrightarrow> head_ok (the_url p) \<and> no_tail (the_url p) \<and> buffer p = []"
| "state_inv State_Path cx p \<longleftrightarrow>
     head_ok (the_url p) \<and> \<not> url_cannot_be_a_base_url (the_url p)
     \<and> list_all (segment_ok (is_special (the_url p))) (url_paths (the_url p))
     \<and> url_query (the_url p) = None \<and> url_fragment (the_url p) = None
     \<and> segment_bytes (is_special (the_url p)) (buffer p)"
| "state_inv State_CannotBeABaseUrlPath cx p \<longleftrightarrow>
     head_ok (the_url p) \<and> \<not> is_special (the_url p) \<and> url_cannot_be_a_base_url (the_url p)
     \<and> url_paths (the_url p) = [[]] \<and> url_query (the_url p) = None \<and> url_fragment (the_url p) = None
     \<and> opaque_path_bytes (buffer p)"
| "state_inv State_Query cx p \<longleftrightarrow> url_ok (the_url p)"
| "state_inv State_Fragment cx p \<longleftrightarrow> url_ok (the_url p)"

definition context_ok :: "parser_context \<Rightarrow> bool" where
  "context_ok cx \<longleftrightarrow> cx_state_override cx = None \<and> (\<forall>b. cx_base_url cx = Some b \<longrightarrow> url_ok b)"

text \<open>What the loop does with an action keeps the invariant or ends well.\<close>

fun action_inv :: "parser_context \<Rightarrow> action \<Rightarrow> bool" where
  "action_inv cx (Break q) \<longleftrightarrow>
     (if iterator q = [] then url_ok (the_url q) else state_inv (parser_state q) cx q)"
| "action_inv cx (Continue q) \<longleftrightarrow> state_inv (parser_state q) cx q"
| "action_inv cx (Return_url q) \<longleftrightarrow> False"
| "action_inv cx (Return_failure q) \<longleftrightarrow> True"
| "action_inv cx Assertion_failed \<longleftrightarrow> False"

text \<open>The code point under the iterator.\<close>

definition at_code_point :: "parser \<Rightarrow> code_point \<Rightarrow> bool" where
  "at_code_point p c \<longleftrightarrow> (if iterator p = [] then c = end_of_file else c \<le> 0x10FFFF)"

lemma utf8_Nil [simp]: "utf8_deref [] = None" "utf8_next [] = None"
  by simp_all

lemma at_code_point_deref: "at_code_point p (code_point_at (iterator p))"
proof (cases "utf8_deref (iterator p)")
  case None
  then show ?thesis by (simp add: at_code_point_def code_point_at_def)
next
  case (Some c)
  then show ?thesis
    using utf8_deref_range [OF Some] utf8_deref_None [of "iterator p"] by (simp add: at_code_point_def code_point_at_def)
qed

lemma end_of_file_big [simp]: "\<not> end_of_file \<le> 0x10FFFF"
  by (simp add: end_of_file_def)

lemma at_code_point_iff:
  "at_code_point p c \<Longrightarrow> iterator p = [] \<longleftrightarrow> c = end_of_file"
  "at_code_point p c \<Longrightarrow> c \<noteq> end_of_file \<Longrightarrow> c \<le> 0x10FFFF"
  by (auto simp: at_code_point_def split: if_splits)

lemmas url_simps = head_ok_def path_ok_def url_ok_def no_tail_def blank_def is_special_def

lemma url_ok_valid [simp]: "url_ok (u\<lparr>url_valid := v\<rparr>) = url_ok u"
  by (simp add: url_simps)

lemma special_base:
  "url_ok b \<Longrightarrow> is_special b \<Longrightarrow> \<not> url_cannot_be_a_base_url b"
  by (simp add: url_simps split: if_splits)

lemma is_special_updates [simp]:
  "is_special (u\<lparr>url_scheme := s\<rparr>) = is_special_scheme s"
  "is_special (u\<lparr>url_username := x1\<rparr>) = is_special u" "is_special (u\<lparr>url_password := x2\<rparr>) = is_special u"
  "is_special (u\<lparr>url_host := x3\<rparr>) = is_special u" "is_special (u\<lparr>url_port := x4\<rparr>) = is_special u"
  "is_special (u\<lparr>url_paths := x5\<rparr>) = is_special u" "is_special (u\<lparr>url_query := x6\<rparr>) = is_special u"
  "is_special (u\<lparr>url_fragment := x7\<rparr>) = is_special u"
  "is_special (u\<lparr>url_cannot_be_a_base_url := x8\<rparr>) = is_special u" "is_special_scheme ''file''"
  by (simp_all add: is_special_def is_special_scheme_def)

lemma not_special_not_file: "\<not> is_special u \<Longrightarrow> url_scheme u \<noteq> ''file''"
  by (auto simp: is_special_def)

lemma blank_simps [simp]:
  "blank (u\<lparr>url_scheme := s\<rparr>) = blank u"
  "blank u \<Longrightarrow> head_ok u = scheme_ok (url_scheme u)"
  "blank u \<Longrightarrow> no_tail u"
  by (simp_all add: blank_def head_ok_def no_tail_def)

lemma head_ok_updates [simp]:
  "head_ok (u\<lparr>url_paths := x5\<rparr>) = head_ok u" "head_ok (u\<lparr>url_query := x6\<rparr>) = head_ok u"
  "head_ok (u\<lparr>url_fragment := x7\<rparr>) = head_ok u" "head_ok (u\<lparr>url_cannot_be_a_base_url := x8\<rparr>) = head_ok u"
  by (simp_all add: head_ok_def is_special_def)

lemma path_ok_updates [simp]:
  "path_ok (u\<lparr>url_query := x6\<rparr>) = path_ok u" "path_ok (u\<lparr>url_fragment := x7\<rparr>) = path_ok u"
  by (simp_all add: path_ok_def)

lemma url_ok_query:
  "url_ok u \<Longrightarrow> encoded_by (if is_special u then SpecialQuery else Query) q \<Longrightarrow> url_ok (u\<lparr>url_query := Some q\<rparr>)"
  by (simp add: url_ok_def)

lemma url_ok_fragment: "url_ok u \<Longrightarrow> encoded_by Fragment f \<Longrightarrow> url_ok (u\<lparr>url_fragment := Some f\<rparr>)"
  by (simp add: url_ok_def)

lemma no_tail_updates [simp]:
  "no_tail (u\<lparr>url_scheme := s\<rparr>) = no_tail u"
  "no_tail (u\<lparr>url_username := x1\<rparr>) = no_tail u" "no_tail (u\<lparr>url_password := x2\<rparr>) = no_tail u"
  "no_tail (u\<lparr>url_host := x3\<rparr>) = no_tail u" "no_tail (u\<lparr>url_port := x4\<rparr>) = no_tail u"
  by (simp_all add: no_tail_def)

lemma url_ok_no_tail: "head_ok u \<Longrightarrow> no_tail u \<Longrightarrow> url_scheme u \<noteq> ''file'' \<Longrightarrow> url_ok u"
  by (simp add: url_ok_def path_ok_def no_tail_def)

lemma opaque_path_bytes_Nil [simp]: "opaque_path_bytes []"
  by (simp add: opaque_path_bytes_def)

lemma segment_bytes_Nil [simp]: "segment_bytes special []"
  by (simp add: segment_bytes_def)

lemma scheme_ok_file [simp]: "scheme_ok ''file''"
  by (simp add: scheme_ok_def scheme_byte_def is_ascii_lower_alpha_def)

lemma default_port_file [simp]: "default_port_for_scheme ''file'' = None"
  by (simp add: default_port_for_scheme_def)

lemma scheme_ok_append:
  assumes "scheme_ok s" "is_ascii_alphanumeric c \<or> c = 43 \<or> c = 45 \<or> c = 46"
  shows "scheme_ok (append_as_lowercase s c)"
  using assms
  by (auto simp: scheme_ok_def append_as_lowercase_def Let_def nth_append scheme_byte_def is_ascii_alphanumeric_def
      is_ascii_alpha_def is_ascii_upper_alpha_def is_ascii_lower_alpha_def is_ascii_digit_def char_eq_iff_ord)

lemma scheme_ok_start:
  "is_ascii_alpha c \<Longrightarrow> scheme_ok (append_as_lowercase [] c)"
  by (auto simp: scheme_ok_def append_as_lowercase_def scheme_byte_def
      is_ascii_alpha_def is_ascii_upper_alpha_def is_ascii_lower_alpha_def)

lemma get_remaining_Some: "it \<noteq> [] \<Longrightarrow> \<exists>r. get_remaining it = Some r"
  using underlying_length_exists [of it] by (auto simp: get_remaining_def)

lemma scheme_start_state_inv:
  assumes "context_ok cx" "state_inv State_SchemeStart cx p" "at_code_point p c"
  shows "action_inv cx (scheme_start_state cx p c)"
  using assms at_code_point_iff [OF assms(3)]
  by (auto simp: scheme_start_state_def context_ok_def scheme_ok_start is_ascii_alpha_def is_ascii_lower_alpha_def
      is_ascii_upper_alpha_def end_of_file_def)

lemma scheme_state_without_override_inv:
  assumes "context_ok cx" "state_inv State_Scheme cx p" "iterator p \<noteq> []"
  shows "action_inv cx (scheme_state_without_override cx p)"
proof -
  obtain r where r: "get_remaining (iterator p) = Some r" using get_remaining_Some [OF assms(3)] by blast
  obtain it where it: "utf8_next (iterator p) = Some it" using assms(3) by (cases "utf8_next (iterator p)") auto
  have nt: "url_paths (the_url p) = []" "url_query (the_url p) = None" "url_fragment (the_url p) = None"
    using assms(2) by (simp_all add: blank_def no_tail_def)
  have "is_special b" if "cx_base_url cx = Some b" "url_scheme b = buffer p" "is_special_scheme (buffer p)" for b
    using that by (simp add: is_special_def)
  then show ?thesis
    using assms r it nt
    by (auto simp: scheme_state_without_override_def Let_def url_ok_no_tail append_slash_def)
qed

lemma scheme_state_inv:
  assumes "context_ok cx" "state_inv State_Scheme cx p" "at_code_point p c" "parser_state p = State_Scheme"
  shows "action_inv cx (scheme_state cx p c)"
  using assms at_code_point_iff [OF assms(3)] scheme_state_without_override_inv [OF assms(1,2)] scheme_ok_append [of "buffer p" c]
  by (auto simp: scheme_state_def context_ok_def class_defs end_of_file_def)

lemma no_scheme_state_inv:
  assumes "context_ok cx" "state_inv State_NoScheme cx p" "at_code_point p c"
  shows "action_inv cx (no_scheme_state cx p c)"
proof (cases "cx_base_url cx")
  case (Some b)
  then have b: "url_ok b" using assms(1) by (simp add: context_ok_def)
  have "url_ok ((the_url p)\<lparr>url_scheme := url_scheme b, url_paths := url_paths b, url_query := url_query b,
      url_fragment := Some [], url_cannot_be_a_base_url := True\<rparr>)" if "url_cannot_be_a_base_url b"
    using assms(2) b that by (auto simp: url_simps)
  then show ?thesis
    using assms at_code_point_iff [OF assms(3)] Some by (simp add: no_scheme_state_def end_of_file_def)
qed (simp add: no_scheme_state_def)

lemma remaining_starts_with_solidus_Some: "it \<noteq> [] \<Longrightarrow> \<exists>r. remaining_starts_with_solidus it = Some r"
  using get_remaining_Some [of it] by (auto simp: remaining_starts_with_solidus_def)

lemma special_relative_or_authority_state_inv:
  assumes "context_ok cx" "state_inv State_SpecialRelativeOrAuthority cx p" "at_code_point p c"
  shows "action_inv cx (special_relative_or_authority_state cx p c)"
proof -
  obtain b where b: "cx_base_url cx = Some b" "url_scheme b = url_scheme (the_url p)" using assms(2) by auto
  then have "\<not> url_cannot_be_a_base_url b"
    using assms(1,2) special_base [of b] by (simp add: context_ok_def is_special_def)
  moreover have "iterator p \<noteq> [] \<Longrightarrow> \<exists>it. utf8_next (iterator p) = Some it" by (cases "utf8_next (iterator p)") auto
  ultimately show ?thesis
    using assms at_code_point_iff [OF assms(3)] b remaining_starts_with_solidus_Some [of "iterator p"]
    by (auto simp: special_relative_or_authority_state_def end_of_file_def url_ok_no_tail split: bool.splits)
qed

lemma path_or_authority_state_inv:
  assumes "context_ok cx" "state_inv State_PathOrAuthority cx p" "at_code_point p c"
  shows "action_inv cx (path_or_authority_state cx p c)"
  using assms at_code_point_iff [OF assms(3)]
  by (auto simp: path_or_authority_state_def end_of_file_def not_special_not_file) (auto simp: blank_def no_tail_def)

lemma relative_state_from_base_inv:
  assumes "context_ok cx" "blank (the_url p)" "buffer p = []" "at_code_point p c" "cx_base_url cx = Some b"
    "url_scheme b \<noteq> ''file''" "\<not> url_cannot_be_a_base_url b" "url_scheme (the_url p) = url_scheme b"
  shows "action_inv cx (relative_state_from_base b p c)"
proof -
  let ?u = "(the_url p)\<lparr>url_username := url_username b, url_password := url_password b,
    url_host := url_host b, url_port := url_port b, url_paths := url_paths b, url_query := url_query b\<rparr>"
  have b: "url_ok b" using assms by (simp add: context_ok_def)
  have u: "url_ok ?u" "head_ok ?u" "\<not> url_cannot_be_a_base_url ?u" "url_fragment ?u = None"
      "list_all (segment_ok (is_special ?u)) (url_paths ?u)"
    using b assms by (simp_all add: url_simps)
  have query: "url_ok (?u\<lparr>url_query := Some []\<rparr>)" and fragment: "url_ok (?u\<lparr>url_fragment := Some []\<rparr>)"
    using url_ok_query [OF u(1), of "[]"] url_ok_fragment [OF u(1), of "[]"] by simp_all
  obtain ps where ps: "shorten_urls_path (?u\<lparr>url_query := None\<rparr>) = Some (?u\<lparr>url_query := None, url_paths := ps\<rparr>)"
      "set ps \<subseteq> set (url_paths b)"
    using shorten_urls_path_ok [of "?u\<lparr>url_query := None\<rparr>"] u(3) by auto
  have "list_all (segment_ok (is_special ?u)) ps" using ps(2) u(5) by (auto simp: list_all_iff)
  then show ?thesis
    using assms(3) u query fragment ps at_code_point_iff [OF assms(4)]
    by (simp add: relative_state_from_base_def Let_def)
qed

lemma relative_state_inv:
  assumes "context_ok cx" "state_inv State_Relative cx p" "at_code_point p c"
  shows "action_inv cx (relative_state cx p c)"
proof -
  obtain b where b: "cx_base_url cx = Some b" "url_scheme b \<noteq> ''file''" "\<not> url_cannot_be_a_base_url b"
    using assms(2) by auto
  let ?p = "update_url p (\<lambda>u. u\<lparr>url_scheme := url_scheme b\<rparr>)"
  have "action_inv cx (relative_state_from_base b ?p c)"
    using assms b by (intro relative_state_from_base_inv) (simp_all add: at_code_point_def)
  then show ?thesis
    using assms at_code_point_iff [OF assms(3)] b by (simp add: relative_state_def Let_def end_of_file_def)
qed

lemma relative_slash_state_inv:
  assumes "context_ok cx" "state_inv State_RelativeSlash cx p" "at_code_point p c"
  shows "action_inv cx (relative_slash_state cx p c)"
proof -
  obtain b where b: "cx_base_url cx = Some b" "url_scheme b = url_scheme (the_url p)" using assms(2) by auto
  then have "head_ok b" using assms(1) by (simp add: context_ok_def url_ok_def)
  then have "head_ok ((the_url p)\<lparr>url_username := url_username b, url_password := url_password b,
      url_host := url_host b, url_port := url_port b\<rparr>)" "scheme_ok (url_scheme (the_url p))"
    using b by (simp_all add: head_ok_def is_special_def)
  then show ?thesis
    using assms at_code_point_iff [OF assms(3)] b
    by (auto simp: relative_slash_state_def end_of_file_def) (auto simp: blank_def no_tail_def)
qed

lemma special_authority_slashes_state_inv:
  assumes "context_ok cx" "state_inv State_SpecialAuthoritySlashes cx p" "at_code_point p c"
  shows "action_inv cx (special_authority_slashes_state cx p c)"
proof -
  have "iterator p \<noteq> [] \<Longrightarrow> \<exists>it. utf8_next (iterator p) = Some it" by (cases "utf8_next (iterator p)") auto
  then show ?thesis
    using assms at_code_point_iff [OF assms(3)] remaining_starts_with_solidus_Some [of "iterator p"]
    by (auto simp: special_authority_slashes_state_def end_of_file_def url_ok_no_tail split: bool.splits)
qed

lemma special_authority_ignore_slashes_state_inv:
  assumes "context_ok cx" "state_inv State_SpecialAuthorityIgnoreSlashes cx p" "at_code_point p c"
    "parser_state p = State_SpecialAuthorityIgnoreSlashes"
  shows "action_inv cx (special_authority_ignore_slashes_state cx p c)"
  using assms at_code_point_iff [OF assms(3)]
  by (auto simp: special_authority_ignore_slashes_state_def url_simps end_of_file_def)

lemma authority_at_sign_inv:
  assumes "state_inv State_Authority cx p" "iterator p \<noteq> []" "parser_state p = State_Authority"
  shows "action_inv cx (authority_at_sign p)"
proof -
  let ?content = "if at_sign_seen p then ''%40'' @ buffer p else buffer p"
  have "encoded_by Userinfo (url_username (the_url p))" "encoded_by Userinfo (url_password (the_url p))"
    using assms(1) by (simp_all add: head_ok_def)
  from credentials_loop_encoded [OF utf8_decode_range this encoded_by_Nil encoded_by_Nil]
  obtain seen ub pb where loop:
      "credentials_loop (the_url p) (utf8_decode ?content) (password_token_seen p) [] [] = Some (seen, ub, pb)"
      "encoded_by Userinfo ub" "encoded_by Userinfo pb"
    by blast
  have "head_ok (u\<lparr>url_username := x, url_password := y\<rparr>)"
    if "head_ok u" "encoded_by Userinfo x" "encoded_by Userinfo y" for u x y
    using that by (simp add: head_ok_def is_special_def)
  moreover have "head_ok (u\<lparr>url_username := x\<rparr>)" "head_ok (u\<lparr>url_password := x\<rparr>)"
    if "head_ok u" "encoded_by Userinfo x" for u x
    using that by (simp_all add: head_ok_def is_special_def)
  ultimately show ?thesis
    using assms loop by (simp add: authority_at_sign_def Let_def del: action_inv.simps) simp
qed

lemma authority_state_inv:
  assumes "context_ok cx" "state_inv State_Authority cx p" "at_code_point p c" "parser_state p = State_Authority"
  shows "action_inv cx (authority_state cx p c)"
  using assms at_code_point_iff [OF assms(3)] authority_at_sign_inv [OF assms(2) _ assms(4)]
  by (auto simp: authority_state_def end_of_file_def ends_authority_def url_ok_no_tail)

lemma head_ok_host:
  "head_ok u \<Longrightarrow> host_valid (\<not> is_special u) h \<Longrightarrow> head_ok (u\<lparr>url_host := h\<rparr>)"
  by (simp add: head_ok_def is_special_def)

lemma head_ok_empty_host: "head_ok u \<Longrightarrow> head_ok (u\<lparr>url_host := Host_String []\<rparr>)"
  by (simp add: head_ok_def is_special_def)

lemma host_state_inv:
  assumes "context_ok cx" "state_inv State_Host cx p" "at_code_point p c" "parser_state p = State_Host"
  shows "action_inv cx (host_state cx p c)"
proof -
  have "parse_host (cx_idna cx) (buffer p) (\<not> is_special (the_url p)) = Crash \<longleftrightarrow> buffer p = [] \<and> is_special (the_url p)"
    and "\<And>h. parse_host (cx_idna cx) (buffer p) (\<not> is_special (the_url p)) = Success h \<Longrightarrow> host_valid (\<not> is_special (the_url p)) h"
    using parse_host_valid [of "cx_idna cx" "buffer p" "\<not> is_special (the_url p)"] by auto
  then show ?thesis
    using assms at_code_point_iff [OF assms(3)]
    by (auto simp: host_state_def context_ok_def Let_def end_of_file_def ends_authority_def head_ok_host
        simp del: blank_simps split: outcome.split)
qed

lemma head_ok_port:
  "head_ok u \<Longrightarrow> head_ok (u\<lparr>url_port := (if default_port_for_scheme (url_scheme u) = Some port then None else Some port)\<rparr>)"
  by (simp add: head_ok_def is_special_def)

lemma port_state_inv:
  assumes "context_ok cx" "state_inv State_Port cx p" "at_code_point p c" "parser_state p = State_Port"
  shows "action_inv cx (port_state cx p c)"
proof -
  have digit: "is_ascii_digit c \<Longrightarrow> iterator p \<noteq> []"
    using at_code_point_iff [OF assms(3)] by (auto simp: is_ascii_digit_def end_of_file_def)
  show ?thesis
    using assms digit head_ok_port [of "the_url p"]
    by (simp add: port_state_def context_ok_def Let_def)
qed

lemma file_base:
  assumes "context_ok cx" "cx_base_url cx = Some b" "url_scheme b = ''file''"
  shows "url_ok b" "head_ok b" "\<not> url_cannot_be_a_base_url b" "list_all (segment_ok True) (url_paths b)" "url_paths b \<noteq> []"
proof -
  show b: "url_ok b" using assms by (simp add: context_ok_def)
  then show "\<not> url_cannot_be_a_base_url b" using assms special_base [of b] by (simp add: is_special_def)
  then show "list_all (segment_ok True) (url_paths b)" "url_paths b \<noteq> []" "head_ok b"
    using b assms(3) by (simp_all add: url_ok_def path_ok_def is_special_def)
qed

lemma file_state_from_base_inv:
  assumes "context_ok cx" "blank u" "cx_base_url cx = Some b" "url_scheme b = ''file''"
  defines "v \<equiv> u\<lparr>url_scheme := ''file'', url_host := url_host b, url_paths := url_paths b, url_query := url_query b\<rparr>"
  shows "url_ok v" "\<exists>ps. shorten_urls_path (v\<lparr>url_query := None\<rparr>) = Some (v\<lparr>url_query := None, url_paths := ps\<rparr>)
    \<and> list_all (segment_ok True) ps" "head_ok v"
proof -
  note b = file_base [OF assms(1,3,4)]
  show "head_ok v" using b(2) assms(2,4) by (simp add: v_def head_ok_def is_special_def blank_def)
  then show "url_ok v"
    using b assms(2,4) by (auto simp: v_def url_ok_def path_ok_def is_special_def blank_def no_tail_def)
  have "\<not> url_cannot_be_a_base_url (v\<lparr>url_query := None\<rparr>)" using assms(2) by (simp add: v_def blank_def no_tail_def)
  from shorten_urls_path_ok [OF this]
  show "\<exists>ps. shorten_urls_path (v\<lparr>url_query := None\<rparr>) = Some (v\<lparr>url_query := None, url_paths := ps\<rparr>)
    \<and> list_all (segment_ok True) ps"
    using b(4) by (fastforce simp: v_def list_all_iff)
qed

lemma file_state_inv:
  assumes "context_ok cx" "state_inv State_File cx p" "at_code_point p c"
  shows "action_inv cx (file_state cx p c)"
proof -
  let ?u = "(the_url p)\<lparr>url_scheme := ''file'', url_host := Host_String []\<rparr>"
  have u: "head_ok ?u" "no_tail ?u" using assms(2) by (simp_all add: head_ok_def is_special_def blank_def)
  show ?thesis
  proof (cases "cx_base_url cx")
    case None
    then show ?thesis
      using assms u at_code_point_iff [OF assms(3)]
      by (auto simp: file_state_def Let_def end_of_file_def no_tail_def)
  next
    case (Some b)
    show ?thesis
    proof (cases "url_scheme b = ''file''")
      case True
      let ?v = "(the_url p)\<lparr>url_scheme := ''file'', url_host := url_host b, url_paths := url_paths b, url_query := url_query b\<rparr>"
      have blank: "blank (the_url p)" "buffer p = []" using assms(2) by simp_all
      note v = file_state_from_base_inv [OF assms(1) blank(1) Some True]
      obtain ps where ps: "shorten_urls_path (?v\<lparr>url_query := None\<rparr>) = Some (?v\<lparr>url_query := None, url_paths := ps\<rparr>)"
        "list_all (segment_ok True) ps" using v(2) by blast
      have nf: "url_fragment (the_url p) = None" "\<not> url_cannot_be_a_base_url (the_url p)"
        using blank by (simp_all add: blank_def no_tail_def)
      show ?thesis
        using u v(1,3) ps blank nf Some True at_code_point_iff [OF assms(3)]
          url_ok_query [OF v(1), of "[]"] url_ok_fragment [OF v(1), of "[]"]
        by (simp add: file_state_def Let_def end_of_file_def head_ok_def)
    next
      case False
      then show ?thesis
        using assms u Some at_code_point_iff [OF assms(3)]
        by (auto simp: file_state_def Let_def end_of_file_def no_tail_def)
    qed
  qed
qed

lemma head_ok_file_host:
  "head_ok u \<Longrightarrow> url_scheme u = ''file'' \<Longrightarrow> head_ok b \<Longrightarrow> url_scheme b = ''file'' \<Longrightarrow> head_ok (u\<lparr>url_host := url_host b\<rparr>)"
  by (simp add: head_ok_def is_special_def)

lemma segment_ok_normalized_drive_letter:
  "is_normalized_windows_drive_letter s \<Longrightarrow> segment_ok special s"
  using segment_ok_drive_letter [of "s ! 0" special]
  by (cases s rule: list.exhaust [OF _ list.exhaust]) (auto simp: is_normalized_windows_drive_letter_def length_Suc_conv)

lemma file_slash_state_inv:
  assumes "context_ok cx" "state_inv State_FileSlash cx p" "at_code_point p c"
  shows "action_inv cx (file_slash_state cx p c)"
proof (cases "\<exists>b. cx_base_url cx = Some b \<and> url_scheme b = ''file''")
  case True
  then obtain b where b: "cx_base_url cx = Some b" "url_scheme b = ''file''" by blast
  note facts = file_base [OF assms(1) b]
  have "head_ok ((the_url p)\<lparr>url_host := url_host b\<rparr>)"
    using assms(2) facts(2) b by (intro head_ok_file_host) auto
  then show ?thesis
    using assms facts b at_code_point_iff [OF assms(3)] segment_ok_normalized_drive_letter [of "url_paths b ! 0"]
    by (auto simp: file_slash_state_def Let_def end_of_file_def no_tail_def is_special_def)
next
  case False
  then show ?thesis
    using assms at_code_point_iff [OF assms(3)]
    by (auto simp: file_slash_state_def end_of_file_def no_tail_def split: option.splits)
qed

lemma segment_bytes_drive_letter:
  assumes "is_windows_drive_letter s" shows "segment_bytes special s"
proof -
  obtain c d where s: "s = [c, d]" "is_ascii_alpha (ord_of c)" "d = CHR '':'' \<or> d = CHR ''|''"
    using assms by (auto simp: is_windows_drive_letter_def length_Suc_conv numeral_2_eq_2)
  have "\<not> code_point_is_in_percent_encode_set (ord_of c) Path"
    using s(2) by (intro alphanumeric_not_in_set) (simp add: is_ascii_alphanumeric_def)
  moreover have "\<not> code_point_is_in_percent_encode_set (ord_of d) Path"
    using s(3) by (auto simp: sv_contains_ord code_point_is_in_percent_encode_set.simps)
  moreover have "c \<noteq> CHR ''/''" "c \<noteq> CHR 0x5C"
    using s(2) by (auto simp: is_ascii_alpha_def is_ascii_upper_alpha_def is_ascii_lower_alpha_def)
  ultimately show ?thesis using s by (auto simp: segment_bytes_def encoded_by_def)
qed

lemma file_host_state_inv:
  assumes "context_ok cx" "state_inv State_FileHost cx p" "at_code_point p c" "parser_state p = State_FileHost"
  shows "action_inv cx (file_host_state cx p c)"
proof -
  have special: "is_special (the_url p)" using assms(2) by (simp add: is_special_def)
  have parse: "parse_host (cx_idna cx) (buffer p) False = Crash \<longleftrightarrow> buffer p = []"
    "\<And>h. parse_host (cx_idna cx) (buffer p) False = Success h \<Longrightarrow> head_ok ((the_url p)\<lparr>url_host := h\<rparr>)"
    using parse_host_valid [of "cx_idna cx" "buffer p" False] assms(2) special by (auto intro: head_ok_host)
  have "head_ok ((the_url p)\<lparr>url_host := Host_String []\<rparr>)" using assms(2) by (simp add: head_ok_empty_host)
  then show ?thesis
    using assms special parse at_code_point_iff [OF assms(3)] segment_bytes_drive_letter [of "buffer p"]
    by (simp add: file_host_state_def context_ok_def Let_def split: outcome.split) (auto simp: no_tail_def)
qed

lemma path_start_state_inv:
  assumes "context_ok cx" "state_inv State_PathStart cx p" "at_code_point p c" "parser_state p = State_PathStart"
  shows "action_inv cx (path_start_state cx p c)"
proof -
  have "\<not> is_special (the_url p) \<Longrightarrow> url_ok (the_url p)"
    using assms(2) by (simp add: url_ok_no_tail not_special_not_file)
  then have "\<not> is_special (the_url p) \<Longrightarrow> url_ok ((the_url p)\<lparr>url_query := Some []\<rparr>)"
    "\<not> is_special (the_url p) \<Longrightarrow> url_ok ((the_url p)\<lparr>url_fragment := Some []\<rparr>)"
    by (simp_all add: url_ok_query url_ok_fragment)
  then show ?thesis
    using assms at_code_point_iff [OF assms(3)] \<open>\<not> is_special (the_url p) \<Longrightarrow> url_ok (the_url p)\<close>
    by (auto simp: path_start_state_def context_ok_def Let_def end_of_file_def no_tail_def)
qed

lemma path_state_inv:
  assumes "context_ok cx" "state_inv State_Path cx p" "at_code_point p c" "parser_state p = State_Path"
  shows "action_inv cx (path_state cx p c)"
proof (cases "(c = end_of_file \<or> c = 47) \<or> (is_special (the_url p) \<and> c = 92) \<or> c = 63 \<or> c = 35")
  case True
  obtain ps where ps: "add_path_segment (the_url p) (buffer p) c = Some ((the_url p)\<lparr>url_paths := ps\<rparr>)"
      "list_all (segment_ok (is_special (the_url p))) ps" "c \<noteq> 47 \<and> c \<noteq> 92 \<longrightarrow> ps \<noteq> []"
    using add_path_segment_ok [of "the_url p" "buffer p" c] assms(2) by auto
  have "url_ok ((the_url p)\<lparr>url_paths := ps\<rparr>)" if "c \<noteq> 47" "c \<noteq> 92"
    using assms(2) ps that by (simp add: url_ok_def path_ok_def)
  then have "url_ok ((the_url p)\<lparr>url_paths := ps\<rparr>)" "url_ok ((the_url p)\<lparr>url_paths := ps, url_query := Some []\<rparr>)"
    "url_ok ((the_url p)\<lparr>url_paths := ps, url_fragment := Some []\<rparr>)" if "c \<noteq> 47" "c \<noteq> 92"
    using that by (simp_all add: url_ok_query url_ok_fragment)
  then show ?thesis
    using assms True ps at_code_point_iff [OF assms(3)]
    by (auto simp: path_state_def context_ok_def Let_def end_of_file_def)
next
  case False
  then have "segment_bytes (is_special (the_url p)) (buffer p @ encoded_code_point Path c)"
    using assms(2) by (intro segment_bytes_code_point) auto
  then show ?thesis
    using assms False at_code_point_iff [OF assms(3)]
    by (auto simp: path_state_def context_ok_def append_percent_encoded_if_necessary_eq)
qed

lemma cannot_be_a_base_url_path_state_inv:
  assumes "context_ok cx" "state_inv State_CannotBeABaseUrlPath cx p" "at_code_point p c"
    "parser_state p = State_CannotBeABaseUrlPath"
  shows "action_inv cx (cannot_be_a_base_url_path_state cx p c)"
proof -
  have "url_ok ((the_url p)\<lparr>url_paths := [buffer p], url_query := Some []\<rparr>)"
    "url_ok ((the_url p)\<lparr>url_paths := [buffer p], url_fragment := Some []\<rparr>)" "url_ok ((the_url p)\<lparr>url_paths := [buffer p]\<rparr>)"
    using assms(2) by (simp_all add: url_ok_def path_ok_def)
  then show ?thesis
    using assms at_code_point_iff [OF assms(3)] opaque_path_bytes_code_point [of "buffer p" c]
    by (auto simp: cannot_be_a_base_url_path_state_def append_percent_encoded_if_necessary_eq)
qed

lemma query_state_inv:
  assumes "context_ok cx" "state_inv State_Query cx p" "at_code_point p c" "parser_state p = State_Query"
  shows "action_inv cx (query_state cx p c)"
proof -
  have "url_ok ((the_url p)\<lparr>url_query := Some q\<rparr>)" "url_ok ((the_url p)\<lparr>url_query := Some q, url_fragment := Some []\<rparr>)"
    if "encoded_by (if is_special (the_url p) then SpecialQuery else Query) q" for q
    using assms(2) that by (simp_all add: url_ok_query url_ok_fragment)
  then show ?thesis
    using assms at_code_point_iff [OF assms(3)]
    by (simp add: query_state_def context_ok_def Let_def end_of_file_def)
qed

lemma fragment_state_inv:
  assumes "context_ok cx" "state_inv State_Fragment cx p" "at_code_point p c" "parser_state p = State_Fragment"
  shows "action_inv cx (fragment_state cx p c)"
  using assms by (simp add: fragment_state_def url_ok_fragment)

lemma run_state_inv:
  assumes "context_ok cx" "state_inv (parser_state p) cx p"
  shows "action_inv cx (run_state (parser_state p) cx p (code_point_at (iterator p)))"
proof -
  note c = at_code_point_deref [of p]
  show ?thesis
    using assms(2)
    by (cases "parser_state p")
      (simp_all only: run_state.simps,
       simp_all only: assms(1) c scheme_start_state_inv scheme_state_inv no_scheme_state_inv
         special_relative_or_authority_state_inv path_or_authority_state_inv relative_state_inv
         relative_slash_state_inv special_authority_slashes_state_inv special_authority_ignore_slashes_state_inv
         authority_state_inv host_state_inv port_state_inv file_state_inv file_slash_state_inv file_host_state_inv
         path_start_state_inv path_state_inv cannot_be_a_base_url_path_state_inv query_state_inv fragment_state_inv
         state_inv.simps(12))
qed

lemma state_inv_iterator [simp]: "state_inv s cx (p\<lparr>iterator := it\<rparr>) = state_inv s cx p"
  by (cases s) simp_all

lemma basic_parse_loop_ok:
  assumes "context_ok cx" "state_inv (parser_state p) cx p"
  shows "\<exists>u v. basic_parse_loop cx p = Some (u, v) \<and> (u = empty_url \<or> url_valid u \<and> url_ok u)"
proof (rule url_parser.run_invariant [where invar = "\<lambda>p. state_inv (parser_state p) cx p"])
  show "state_inv (parser_state p) cx p" by (rule assms)
next
  fix p q assume "state_inv (parser_state p) cx p" "basic_parse_step cx p = Inl q"
  then show "state_inv (parser_state q) cx q"
    using run_state_inv [OF assms(1), of p] 
    by (auto simp: basic_parse_step_def split: action.splits option.splits if_splits)
next
  fix p r assume "state_inv (parser_state p) cx p" "basic_parse_step cx p = Inr r"
  then show "\<exists>u v. r = Some (u, v) \<and> (u = empty_url \<or> url_valid u \<and> url_ok u)"
    using run_state_inv [OF assms(1), of p]
    by (auto simp: basic_parse_step_def finish_parse_def Let_def split: action.splits option.splits)
qed

subsection \<open>The entry point\<close>

lemma filter_join_with:
  "\<forall>p\<in>set parts. c \<notin> set p \<Longrightarrow> filter (\<lambda>d. d \<noteq> c) (join_with [c] parts) = join_with [] parts"
proof (induction "[c]" parts rule: join_with.induct)
  case (2 x)
  then show ?case by (auto simp: filter_id_conv)
next
  case (3 x y zs)
  moreover have "filter (\<lambda>d. d \<noteq> c) x = x" using 3(2) by (auto simp: filter_id_conv)
  ultimately show ?case by simp
qed simp

lemma replace_byte_by_nothing: "replace s [c] [] ReplaceAll = Some (filter (\<lambda>d. d \<noteq> c) s)"
proof (cases "c \<in> set s")
  case True
  then obtain p rest where s: "s = p @ c # rest" "c \<notin> set p" by (auto dest: split_list_first)
  have find: "find_string s [c] 0 = Some (length p)"
    using s by (simp add: find_string_first_occurrence first_occurrence_byte)
  have "sublist [c] q \<longleftrightarrow> c \<in> set q" for q
    by (metis in_set_conv_decomp list.set_intros(1) set_mono_sublist subsetD sublist_appendI append_Cons append_Nil)
  then have "\<forall>q\<in>set (split_loop [c] Split_KeepEmpty rest). c \<notin> set q"
    and join: "join_with [c] (split_loop [c] Split_KeepEmpty rest) = rest"
    using split_loop_parts [of "[c]" rest] by auto
  then have "join_with [] (split_loop [c] Split_KeepEmpty rest) = filter (\<lambda>d. d \<noteq> c) rest"
    using filter_join_with by metis
  moreover have "filter (\<lambda>d. d \<noteq> c) p = p" using s(2) by (auto simp: filter_id_conv)
  ultimately show ?thesis
    using s find by (simp add: replace_def replace_into_builder_def replace_loop_split)
next
  case False
  then have "filter (\<lambda>d. d \<noteq> c) s = s" by (auto simp: filter_id_conv)
  then show ?thesis
    using False by (simp add: replace_def find_string_first_occurrence first_occurrence_byte_None)
qed

lemma remove_tab_and_newline_filter:
  "remove_tab_and_newline s = Some (filter (\<lambda>d. d \<notin> {CHR 0x09, CHR 0x0A, CHR 0x0D}) s)"
proof (cases "list_ex (\<lambda>d. d \<in> {CHR 0x09, CHR 0x0A, CHR 0x0D}) s")
  case True
  then show ?thesis by (simp add: remove_tab_and_newline_def replace_byte_by_nothing)
next
  case False
  then have "filter (\<lambda>d. d \<notin> {CHR 0x09, CHR 0x0A, CHR 0x0D}) s = s"
    by (auto simp: filter_id_conv list_ex_iff)
  then show ?thesis using False by (simp add: remove_tab_and_newline_def)
qed

lemma basic_parse_url_ok:
  assumes "\<forall>b. base_url = Some b \<longrightarrow> url_ok b"
  shows "\<exists>u v. basic_parse idna raw_input base_url None None encoding = Some (u, v)
    \<and> (u = empty_url \<or> url_valid u \<and> url_ok u)"
proof -
  obtain input where "remove_tab_and_newline (strip_c0_control_or_space raw_input) = Some input"
    using remove_tab_and_newline_filter by blast
  moreover have "blank empty_url" by (simp add: blank_def no_tail_def empty_url_def)
  ultimately show ?thesis
    unfolding basic_parse_def using assms
    by (simp only: option.case) (rule basic_parse_loop_ok; simp add: context_ok_def)
qed

lemma basic_parse_Some_ok:
  assumes "map_option fst (basic_parse idna s base_url None None encoding) = Some u" "url_valid u"
    "\<forall>b. base_url = Some b \<longrightarrow> url_ok b"
  shows "url_ok u"
  using basic_parse_url_ok [OF assms(3), of idna s encoding] assms(1,2) by (auto simp: empty_url_def)

lemma head_ok_valid [simp]: "head_ok (u\<lparr>url_valid := v\<rparr>) = head_ok u"
  by (simp add: head_ok_def is_special_def)

lemma path_ok_head_updates [simp]:
  "path_ok (u\<lparr>url_username := x1\<rparr>) = path_ok u" "path_ok (u\<lparr>url_password := x2\<rparr>) = path_ok u"
  "path_ok (u\<lparr>url_host := x3\<rparr>) = path_ok u" "path_ok (u\<lparr>url_port := x4\<rparr>) = path_ok u"
  by (simp_all add: path_ok_def)

lemma encoded_by_percent_encoded [simp]: "encoded_by enc (percent_encoded s enc False)"
  using percent_encoded_chars [of _ s enc False] by (auto simp: encoded_by_def list_all_iff)

lemma setters_ok:
  assumes "url_ok u"
  shows "set_username u s = Some v \<Longrightarrow> url_ok v"
    and "set_password u s = Some v \<Longrightarrow> url_ok v"
    and "url_ok (set_port u port)"
    and "host_valid (\<not> is_special u) h \<Longrightarrow> url_ok (set_host u h)"
proof -
  have "url_ok (u\<lparr>url_username := percent_encoded s Userinfo False\<rparr>)" "url_ok (u\<lparr>url_password := percent_encoded s Userinfo False\<rparr>)"
    using assms by (simp_all add: url_ok_def head_ok_def is_special_def)
  then show "set_username u s = Some v \<Longrightarrow> url_ok v" "set_password u s = Some v \<Longrightarrow> url_ok v"
    by (auto simp: set_username_def set_password_def Let_def)
  have "url_ok (u\<lparr>url_port := if port = default_port_for_scheme (url_scheme u) then None else port\<rparr>)"
    using assms by (simp add: url_ok_def head_ok_def is_special_def)
  then show "url_ok (set_port u port)" by (auto simp: set_port_def Let_def)
  show "url_ok (set_host u h)" if "host_valid (\<not> is_special u) h"
  proof -
    have "url_ok (u\<lparr>url_host := h\<rparr>)" using assms that by (simp add: url_ok_def head_ok_host)
    then show ?thesis by (simp add: set_host_def Let_def)
  qed
qed

text \<open>URLs that the program can obtain: by parsing, by completing, and with the setters that encode.\<close>

inductive url_reachable :: "idna \<Rightarrow> url \<Rightarrow> bool" for idna where
  parse: "parse_url idna s = Some u \<Longrightarrow> url_valid u \<Longrightarrow> url_reachable idna u"
| complete: "url_reachable idna b \<Longrightarrow> complete_url idna b s = Some u \<Longrightarrow> url_valid u \<Longrightarrow> url_reachable idna u"
| username: "url_reachable idna u \<Longrightarrow> set_username u s = Some v \<Longrightarrow> url_reachable idna v"
| password: "url_reachable idna u \<Longrightarrow> set_password u s = Some v \<Longrightarrow> url_reachable idna v"
| port: "url_reachable idna u \<Longrightarrow> url_reachable idna (set_port u port)"
| host: "url_reachable idna u \<Longrightarrow> parse_host idna s (\<not> is_special u) = Success h \<Longrightarrow> url_reachable idna (set_host u h)"

lemma url_reachable_ok: "url_reachable idna u \<Longrightarrow> url_ok u"
proof (induction rule: url_reachable.induct)
  case (parse s u)
  then show ?case unfolding parse_url_def by (rule basic_parse_Some_ok) simp
next
  case (complete b s u)
  then have "map_option fst (basic_parse idna s (Some b) None None None) = Some u"
    by (auto simp: complete_url_def empty_url_def split: if_splits)
  then show ?case by (rule basic_parse_Some_ok) (use complete in auto)
next
  case (host u s h)
  then have "host_valid (\<not> is_special u) h" using parse_host_valid by blast
  with host show ?case using setters_ok(4) by blast
next
  case (username u s v)
  then show ?case using setters_ok(1) by blast
next
  case (password u s v)
  then show ?case using setters_ok(2) by blast
next
  case (port u port)
  then show ?case using setters_ok(3) by blast
qed

subsection \<open>Properties\<close>

text \<open>
  C2.  Without a state override the URL parser ends on every input without running into a
  failing assertion, whatever ToASCII and the encoder do, when the base URL satisfies the
  invariant.  It returns the empty URL or a valid one that satisfies the invariant: a
  well-formed lowercase scheme; percent-encoded credentials, path, query and fragment; a port
  that is not the scheme's default; no separators or dot segments in the path; an opaque path
  only in a URL that is not special; a nonempty path in a file URL.
\<close>

theorem basic_parse_safe_and_ok:
  assumes "\<forall>b. base_url = Some b \<longrightarrow> url_ok b"
  shows "\<exists>u v. basic_parse idna raw_input base_url None None encoding = Some (u, v)
    \<and> (u = empty_url \<or> url_valid u \<and> url_ok u)"
  using assms by (rule basic_parse_url_ok)

theorem basic_parse_safe_and_ok_witness:
  "\<exists>u v. basic_parse (\<lambda>d opts. None) ''../c?d'' (Some \<lparr>url_valid = True, url_scheme = ''http'', url_username = [],
        url_password = [], url_host = Host_String ''a.org'', url_port = None, url_paths = [''a'', ''b''], url_query = None,
        url_fragment = None, url_cannot_be_a_base_url = False, url_blob_url_entry = None\<rparr>) None None None = Some (u, v)
    \<and> (u = empty_url \<or> url_valid u \<and> url_ok u)"
proof (rule basic_parse_safe_and_ok)
  have "host_valid False (Host_String ''a.org'')" by code_simp
  moreover have "segment_ok True ''a''" "segment_ok True ''b''" by code_simp+
  ultimately show "\<forall>b. Some \<lparr>url_valid = True, url_scheme = ''http'', url_username = [],
        url_password = [], url_host = Host_String ''a.org'', url_port = None, url_paths = [''a'', ''b''], url_query = None,
        url_fragment = None, url_cannot_be_a_base_url = False, url_blob_url_entry = None\<rparr> = Some b \<longrightarrow> url_ok b"
    by (simp add: url_ok_def head_ok_def path_ok_def is_special_def is_special_scheme_def scheme_ok_def
        scheme_byte_def is_ascii_lower_alpha_def)
qed



end
