(* ===== verification/UrlCanonical.thy ===== *)
theory UrlCanonical
  imports UrlInvariant
begin

text \<open>
  What the parser guarantees beyond \<open>url_ok\<close> when its input is well-formed UTF-8: a special URL has
  a host and a path, credentials and a port come with a host, the host is one that the host
  parser returned, and an opaque path can be told from the rest of a serialized URL.
\<close>

subsection \<open>Canonical URLs\<close>

definition host_nonempty :: "host \<Rightarrow> bool" where
  "host_nonempty h \<longleftrightarrow> h \<noteq> Host_Empty \<and> h \<noteq> Host_String []"

definition host_parsed :: "idna \<Rightarrow> bool \<Rightarrow> host \<Rightarrow> bool" where
  "host_parsed idna special h \<longleftrightarrow> (\<exists>s. parse_host idna s (\<not> special) = Success h)"

definition head_canonical :: "idna \<Rightarrow> url \<Rightarrow> bool" where
  "head_canonical idna u \<longleftrightarrow>
     (url_host u = Host_Empty \<or> url_host u = Host_String [] \<or> host_parsed idna (is_special u) (url_host u))
     \<and> (is_special u \<and> url_scheme u \<noteq> ''file'' \<longrightarrow> host_nonempty (url_host u))
     \<and> (url_scheme u = ''file'' \<longrightarrow> url_host u \<noteq> Host_Empty \<and> url_host u \<noteq> Host_String ''localhost'')
     \<and> (includes_credentials u \<or> url_port u \<noteq> None \<longrightarrow> host_nonempty (url_host u) \<and> url_scheme u \<noteq> ''file'')"

definition drive_letter_normalized :: "url \<Rightarrow> bool" where
  "drive_letter_normalized u \<longleftrightarrow>
     (url_scheme u = ''file'' \<and> url_paths u \<noteq> [] \<and> is_windows_drive_letter (url_paths u ! 0)
        \<longrightarrow> is_normalized_windows_drive_letter (url_paths u ! 0))"

definition tail_canonical :: "url \<Rightarrow> bool" where
  "tail_canonical u \<longleftrightarrow>
     (if url_cannot_be_a_base_url u
      then url_host u = Host_Empty
        \<and> (url_paths u ! 0 \<noteq> [] \<longrightarrow> hd (url_paths u ! 0) \<noteq> CHR ''/'')
        \<and> (url_paths u ! 0 \<noteq> [] \<and> url_query u = None \<and> url_fragment u = None \<longrightarrow> last (url_paths u ! 0) \<noteq> CHR '' '')
      else (is_special u \<or> url_host u = Host_Empty \<longrightarrow> url_paths u \<noteq> []) \<and> drive_letter_normalized u)"

definition url_canonical :: "idna \<Rightarrow> url \<Rightarrow> bool" where
  "url_canonical idna u \<longleftrightarrow> url_ok u \<and> head_canonical idna u \<and> tail_canonical u"

subsection \<open>Positions in a well-formed input\<close>

definition code_points :: "code_point list \<Rightarrow> bool" where
  "code_points cps \<longleftrightarrow> list_all (\<lambda>c. c \<le> 0x10FFFF) cps"

definition valid_utf8 :: "bytes \<Rightarrow> bool" where
  "valid_utf8 s \<longleftrightarrow> (\<exists>cps. code_points cps \<and> s = utf8_encode_all cps)"

definition positioned :: "parser_context \<Rightarrow> utf8_iterator \<Rightarrow> code_point list \<Rightarrow> code_point list \<Rightarrow> bool" where
  "positioned cx it passed rest \<longleftrightarrow>
     code_points (passed @ rest) \<and> cx_input cx = utf8_encode_all (passed @ rest) \<and> it = utf8_encode_all rest"

definition at_position :: "parser_context \<Rightarrow> utf8_iterator \<Rightarrow> bool" where
  "at_position cx it \<longleftrightarrow> (\<exists>d t. positioned cx it d t)"

definition after_ascii :: "parser_context \<Rightarrow> utf8_iterator \<Rightarrow> bool" where
  "after_ascii cx it \<longleftrightarrow> (\<exists>d sep t. sep < 128 \<and> positioned cx it (d @ [sep]) t)"

text \<open>The buffer of the authority state is the input since the last ASCII byte before it.\<close>

definition in_authority :: "parser_context \<Rightarrow> url \<Rightarrow> utf8_iterator \<Rightarrow> bytes \<Rightarrow> bool" where
  "in_authority cx u it buf \<longleftrightarrow>
     (\<exists>d sep b t. sep < 128 \<and> positioned cx it (d @ sep # b) t \<and> buf = utf8_encode_all b
        \<and> (\<forall>c\<in>set b. \<not> ends_authority u c))"

lemma positioned_cases:
  assumes "positioned cx it passed rest"
  obtains (finished) "rest = []" "it = []" "code_point_at it = end_of_file"
    | (step) c cs where "rest = c # cs" "it \<noteq> []" "code_point_at it = c" "c \<le> 0x10FFFF"
        "utf8_next it = Some (utf8_encode_all cs)" "positioned cx (utf8_encode_all cs) (passed @ [c]) cs"
proof (cases rest)
  case Nil
  then show thesis using assms finished by (simp add: positioned_def code_point_at_def)
next
  case (Cons c cs)
  then have "c \<le> 0x10FFFF" using assms by (simp add: positioned_def code_points_def)
  then show thesis
    using assms Cons step [of c cs] by (simp add: positioned_def code_point_at_def utf8_deref_encode)
qed

lemma after_ascii_at_position: "after_ascii cx it \<Longrightarrow> at_position cx it"
  by (auto simp: after_ascii_def at_position_def)

lemma at_position_input: "at_position cx it \<Longrightarrow> at_position cx (cx_input cx)"
  unfolding at_position_def positioned_def by (metis append_Nil)

lemma at_position_next:
  assumes "at_position cx it" "it \<noteq> []"
  shows "\<exists>it'. utf8_next it = Some it' \<and> at_position cx it' \<and> (code_point_at it < 128 \<longrightarrow> after_ascii cx it')"
proof -
  obtain d t where "positioned cx it d t" using assms(1) by (auto simp: at_position_def)
  then show ?thesis
    using assms(2) by (cases rule: positioned_cases) (auto simp: at_position_def after_ascii_def)
qed

lemma code_point_at_EOF: "code_point_at it = end_of_file \<longleftrightarrow> it = []"
  using utf8_deref_range [of it] by (cases "utf8_deref it") (auto simp: code_point_at_def)

text \<open>The rewinding of the authority state ends at the byte before the buffer.\<close>

lemma authority_rewind:
  assumes "positioned cx (iterator p) (d @ sep # b) t" "buffer p = utf8_encode_all b" "sep < 128" "length (cx_input cx) < 2 ^ 64"
  shows "iterator_at_byte_offset (cx_input cx) (authority_rewind_offset cx p) = utf8_encode_all (sep # b @ t)"
proof -
  have input: "cx_input cx = utf8_encode_all (d @ sep # b @ t)" "iterator p = utf8_encode_all t"
    "code_points (d @ sep # b @ t)"
    using assms(1) by (simp_all add: positioned_def)
  have "length (utf8_encode sep) = 1" using assms(3) by (simp add: utf8_encode_bytes)
  then have "int (length (cx_input cx)) - int (length (iterator p)) - int (length (buffer p)) - 1
      = int (length (utf8_encode_all d))"
    using input assms(2) by simp
  moreover have "length (utf8_encode_all d) < 2 ^ 64" using input(1) assms(4) by simp
  ultimately have "authority_rewind_offset cx p = length (utf8_encode_all d)"
    by (simp add: authority_rewind_offset_def nat_mod_distrib)
  then show ?thesis
    using iterator_at_byte_offset_loop_encode [of "d @ sep # b @ t" "length d" 0] input
    by (simp add: iterator_at_byte_offset_def code_points_def)
qed

subsection \<open>The invariant\<close>

definition context_canonical :: "parser_context \<Rightarrow> bool" where
  "context_canonical cx \<longleftrightarrow> context_ok cx \<and> length (cx_input cx) < 2 ^ 64
     \<and> (cx_input cx \<noteq> [] \<longrightarrow> last (cx_input cx) \<noteq> CHR '' '')
     \<and> (\<forall>b. cx_base_url cx = Some b \<longrightarrow> url_canonical (cx_idna cx) b)"

definition no_credentials_or_port :: "url \<Rightarrow> bool" where
  "no_credentials_or_port u \<longleftrightarrow> url_username u = [] \<and> url_password u = [] \<and> url_port u = None"

fun canonical_inv :: "parser_state \<Rightarrow> parser_context \<Rightarrow> parser \<Rightarrow> bool" where
  "canonical_inv State_SchemeStart cx p \<longleftrightarrow> at_position cx (iterator p)"
| "canonical_inv State_Scheme cx p \<longleftrightarrow> at_position cx (iterator p)"
| "canonical_inv State_NoScheme cx p \<longleftrightarrow> at_position cx (iterator p)"
| "canonical_inv State_Relative cx p \<longleftrightarrow> at_position cx (iterator p)"
| "canonical_inv State_SpecialRelativeOrAuthority cx p \<longleftrightarrow> after_ascii cx (iterator p)"
| "canonical_inv State_PathOrAuthority cx p \<longleftrightarrow> after_ascii cx (iterator p)"
| "canonical_inv State_RelativeSlash cx p \<longleftrightarrow> after_ascii cx (iterator p)"
| "canonical_inv State_SpecialAuthoritySlashes cx p \<longleftrightarrow> after_ascii cx (iterator p)"
| "canonical_inv State_SpecialAuthorityIgnoreSlashes cx p \<longleftrightarrow> after_ascii cx (iterator p)"
| "canonical_inv State_Authority cx p \<longleftrightarrow>
     in_authority cx (the_url p) (iterator p) (buffer p)
     \<and> url_port (the_url p) = None \<and> (includes_credentials (the_url p) \<longrightarrow> at_sign_seen p)"
| "canonical_inv State_Host cx p \<longleftrightarrow>
     url_port (the_url p) = None
     \<and> (includes_credentials (the_url p) \<longrightarrow>
          buffer p \<noteq> [] \<or> \<not> ends_authority (the_url p) (code_point_at (iterator p)))"
| "canonical_inv State_Hostname cx p \<longleftrightarrow> False"
| "canonical_inv State_Port cx p \<longleftrightarrow>
     url_port (the_url p) = None \<and> host_parsed (cx_idna cx) (is_special (the_url p)) (url_host (the_url p))
     \<and> (host_nonempty (url_host (the_url p))
        \<or> buffer p = [] \<and> ends_authority (the_url p) (code_point_at (iterator p))
          \<and> \<not> includes_credentials (the_url p) \<and> \<not> is_special (the_url p) \<and> url_host (the_url p) \<noteq> Host_Empty)"
| "canonical_inv State_File cx p \<longleftrightarrow> True"
| "canonical_inv State_FileSlash cx p \<longleftrightarrow> head_canonical (cx_idna cx) (the_url p)"
| "canonical_inv State_FileHost cx p \<longleftrightarrow> head_canonical (cx_idna cx) (the_url p)"
| "canonical_inv State_PathStart cx p \<longleftrightarrow>
     head_canonical (cx_idna cx) (the_url p) \<and> url_host (the_url p) \<noteq> Host_Empty"
| "canonical_inv State_Path cx p \<longleftrightarrow>
     head_canonical (cx_idna cx) (the_url p) \<and> drive_letter_normalized (the_url p)"
| "canonical_inv State_CannotBeABaseUrlPath cx p \<longleftrightarrow>
     url_host (the_url p) = Host_Empty \<and> no_credentials_or_port (the_url p)
     \<and> (if buffer p = [] then code_point_at (iterator p) \<noteq> ord_of CHR ''/'' else hd (buffer p) \<noteq> CHR ''/'')
     \<and> (\<exists>d t. positioned cx (iterator p) d t \<and> (buffer p \<noteq> [] \<and> last (buffer p) = CHR '' '' \<longrightarrow> d \<noteq> [] \<and> last d = 32))"
| "canonical_inv State_Query cx p \<longleftrightarrow> url_canonical (cx_idna cx) (the_url p) \<and> url_query (the_url p) \<noteq> None"
| "canonical_inv State_Fragment cx p \<longleftrightarrow> url_canonical (cx_idna cx) (the_url p) \<and> url_fragment (the_url p) \<noteq> None"

fun canonical_action :: "parser_context \<Rightarrow> action \<Rightarrow> bool" where
  "canonical_action cx (Break q) \<longleftrightarrow>
     (case utf8_next (iterator q) of
        None \<Rightarrow> url_canonical (cx_idna cx) (the_url q)
      | Some it \<Rightarrow> canonical_inv (parser_state q) cx (q\<lparr>iterator := it\<rparr>))"
| "canonical_action cx (Continue q) \<longleftrightarrow> canonical_inv (parser_state q) cx q"
| "canonical_action cx _ \<longleftrightarrow> True"

subsection \<open>The head\<close>

lemma encoded_code_point_not_Nil [simp]: "encoded_code_point enc c \<noteq> []"
  using utf8_encode_not_Nil [of c] by (cases "utf8_encode c") (auto simp: encoded_code_point_def)

lemma percent_encoded_eq_Nil: "percent_encoded s enc False = [] \<longleftrightarrow> s = []"
  by (cases s rule: utf8_iterator_cases) (auto simp: percent_encoded_def)

lemma host_parsed_nonempty:
  assumes "parse_host idna s (\<not> special) = Success h" "s \<noteq> [] \<or> special"
  shows "host_nonempty h"
proof (cases special)
  case True
  then show ?thesis
    using parse_host_valid [of idna s False] assms(1) by (cases h) (auto simp: host_nonempty_def)
next
  case False
  show ?thesis
  proof (cases "s \<noteq> [] \<and> s ! 0 = CHR ''[''")
    case True
    then show ?thesis
      using assms by (auto simp: parse_host_def outcome_bind_Success host_nonempty_def split: if_splits)
  next
    case nb: False
    then have "parse_opaque_host s = Success h" using assms(1) False by (auto simp: parse_host_def)
    then show ?thesis
      using assms(2) False percent_encoded_eq_Nil [of s C0Control]
      by (auto simp: parse_opaque_host_def host_nonempty_def split: if_splits)
  qed
qed

lemma head_canonical_updates [simp]:
  "head_canonical idna (u\<lparr>url_paths := x5\<rparr>) = head_canonical idna u"
  "head_canonical idna (u\<lparr>url_query := x6\<rparr>) = head_canonical idna u"
  "head_canonical idna (u\<lparr>url_fragment := x7\<rparr>) = head_canonical idna u"
  "head_canonical idna (u\<lparr>url_valid := x9\<rparr>) = head_canonical idna u"
  by (simp_all add: head_canonical_def is_special_def includes_credentials_def)

lemma url_canonical_query:
  assumes "url_canonical idna u" "encoded_by (if is_special u then SpecialQuery else Query) q"
  shows "url_canonical idna (u\<lparr>url_query := Some q\<rparr>)"
  using assms
  by (simp add: url_canonical_def url_ok_query) (simp add: tail_canonical_def drive_letter_normalized_def split: if_splits)

lemma url_canonical_fragment:
  assumes "url_canonical idna u" "encoded_by Fragment f"
  shows "url_canonical idna (u\<lparr>url_fragment := Some f\<rparr>)"
  using assms
  by (simp add: url_canonical_def url_ok_fragment) (simp add: tail_canonical_def drive_letter_normalized_def split: if_splits)

lemma url_None_update [simp]:
  "url_query u = None \<Longrightarrow> u\<lparr>url_query := None\<rparr> = (u :: url)"
  "url_fragment u = None \<Longrightarrow> u\<lparr>url_fragment := None\<rparr> = (u :: url)"
  by (cases u; simp)+

lemma url_canonical_valid [simp]: "url_canonical idna (u\<lparr>url_valid := v\<rparr>) = url_canonical idna u"
  by (simp add: url_canonical_def tail_canonical_def drive_letter_normalized_def is_special_def)

subsection \<open>The states\<close>

abbreviation at_point :: "parser \<Rightarrow> code_point" where
  "at_point p \<equiv> code_point_at (iterator p)"

lemma canonical_scheme_start_state:
  assumes "context_canonical cx" "canonical_inv State_SchemeStart cx p"
  shows "canonical_action cx (scheme_start_state cx p (at_point p))"
  using assms at_position_next [of cx "iterator p"] code_point_at_EOF [of "iterator p"]
  by (auto simp: scheme_start_state_def is_ascii_alpha_def is_ascii_lower_alpha_def is_ascii_upper_alpha_def
        end_of_file_def split: option.split)

lemma ascii_head:
  assumes "at_position cx it" "code_point_at it < 128"
  shows "\<exists>rest. it = char_of (code_point_at it) # rest \<and> utf8_next it = Some rest \<and> get_remaining it = Some rest
    \<and> after_ascii cx rest"
proof -
  obtain d t where "positioned cx it d t" using assms(1) by (auto simp: at_position_def)
  then show ?thesis
  proof (cases rule: positioned_cases)
    case finished
    then show ?thesis using assms(2) by (simp add: end_of_file_def)
  next
    case (step c cs)
    then have "it = char_of c # utf8_encode_all cs"
      using assms(2) \<open>positioned cx it d t\<close> by (simp add: positioned_def utf8_encode_bytes)
    then show ?thesis
      using step assms(2) utf8_ascii_Cons [of "char_of c"] by (auto simp: get_remaining_def after_ascii_def)
  qed
qed

lemma starts_with_solidus_iff:
  assumes "at_position cx it"
  shows "starts_with it ''/'' CaseSensitive \<longleftrightarrow> code_point_at it = 47"
proof
  assume "starts_with it ''/'' CaseSensitive"
  then obtain rest where "it = CHR ''/'' # rest" by (auto simp: starts_with_prefix prefix_def)
  then show "code_point_at it = 47" using utf8_ascii_Cons [of "CHR ''/''" rest] by (simp add: code_point_at_def)
next
  assume "code_point_at it = 47"
  then show "starts_with it ''/'' CaseSensitive"
    using ascii_head [OF assms] by (auto simp: starts_with_prefix char_of_eval)
qed

lemma canonical_scheme_state_without_override:
  assumes "context_canonical cx" "state_inv State_Scheme cx p" "at_position cx (iterator p)" "at_point p = 58"
  shows "canonical_action cx (scheme_state_without_override cx p)"
proof -
  obtain rest where rest: "utf8_next (iterator p) = Some rest" "get_remaining (iterator p) = Some rest" "after_ascii cx rest"
    using ascii_head [OF assms(3)] assms(4) by auto
  note pos = after_ascii_at_position [OF rest(3)]
  have "\<exists>it. utf8_next rest = Some it \<and> after_ascii cx it" if "starts_with rest ''/'' CaseSensitive"
    using that starts_with_solidus_iff [OF pos] ascii_head [OF pos] by auto
  moreover have "\<exists>d t. positioned cx rest d t" using pos by (simp add: at_position_def)
  moreover have "blank (the_url p)" using assms(2) by simp
  ultimately show ?thesis
    using rest pos starts_with_solidus_iff [OF pos]
    by (auto simp: scheme_state_without_override_def Let_def append_slash_def blank_def no_credentials_or_port_def)
qed

lemma canonical_scheme_state:
  assumes "context_canonical cx" "state_inv State_Scheme cx p" "canonical_inv State_Scheme cx p" "parser_state p = State_Scheme"
  shows "canonical_action cx (scheme_state cx p (at_point p))"
proof -
  have pos: "at_position cx (iterator p)" using assms(3) by simp
  have "iterator p \<noteq> []" if "is_ascii_alphanumeric (at_point p) \<or> at_point p = 43 \<or> at_point p = 45 \<or> at_point p = 46"
    using that code_point_at_EOF [of "iterator p"] by (auto simp: class_defs end_of_file_def)
  then show ?thesis
    using assms pos at_position_next [OF pos] at_position_input [OF pos] canonical_scheme_state_without_override [OF assms(1,2) pos]
    by (auto simp: scheme_state_def context_canonical_def context_ok_def)
qed

lemma canonical_no_scheme_state:
  assumes "context_canonical cx" "state_inv State_NoScheme cx p" "canonical_inv State_NoScheme cx p"
  shows "canonical_action cx (no_scheme_state cx p (at_point p))"
proof (cases "cx_base_url cx")
  case (Some b)
  then have b: "url_canonical (cx_idna cx) b" using assms(1) by (simp add: context_canonical_def)
  have pos: "at_position cx (iterator p)" using assms(3) by simp
  have blank: "blank (the_url p)" using assms(2) by simp
  let ?u = "(the_url p)\<lparr>url_scheme := url_scheme b, url_paths := url_paths b, url_query := url_query b,
      url_fragment := Some [], url_cannot_be_a_base_url := True\<rparr>"
  have "url_canonical (cx_idna cx) ?u" if "url_cannot_be_a_base_url b"
  proof -
    have "url_ok ?u" using b blank that by (auto simp: url_canonical_def url_simps)
    moreover have "head_canonical (cx_idna cx) ?u"
      using b blank that
      by (auto simp: url_canonical_def head_canonical_def tail_canonical_def blank_def includes_credentials_def
          is_special_def url_ok_def path_ok_def)
    moreover have "tail_canonical ?u"
      using b blank that by (simp add: url_canonical_def tail_canonical_def blank_def)
    ultimately show ?thesis by (simp add: url_canonical_def)
  qed
  then show ?thesis
    using Some pos ascii_head [OF pos] by (auto simp: no_scheme_state_def)
qed (simp add: no_scheme_state_def)

lemma solidus_next:
  assumes "at_position cx it" "code_point_at it = 47"
  shows "\<exists>rest. utf8_next it = Some rest \<and> after_ascii cx rest
    \<and> remaining_starts_with_solidus it = Some (starts_with rest ''/'' CaseSensitive)
    \<and> (starts_with rest ''/'' CaseSensitive \<longrightarrow> (\<exists>rest'. utf8_next rest = Some rest' \<and> after_ascii cx rest'))"
proof -
  obtain rest where rest: "utf8_next it = Some rest" "get_remaining it = Some rest" "after_ascii cx rest"
    using ascii_head [OF assms(1)] assms(2) by auto
  note pos = after_ascii_at_position [OF rest(3)]
  have "\<exists>rest'. utf8_next rest = Some rest' \<and> after_ascii cx rest'" if "starts_with rest ''/'' CaseSensitive"
    using that ascii_head [OF pos] starts_with_solidus_iff [OF pos] by auto
  then show ?thesis using rest by (simp add: remaining_starts_with_solidus_def)
qed

lemma canonical_special_relative_or_authority_state:
  assumes "canonical_inv State_SpecialRelativeOrAuthority cx p"
  shows "canonical_action cx (special_relative_or_authority_state cx p (at_point p))"
proof -
  have pos: "at_position cx (iterator p)" using assms after_ascii_at_position by simp
  show ?thesis
    using pos solidus_next [OF pos] by (auto simp: special_relative_or_authority_state_def split: bool.split)
qed

lemma canonical_special_authority_slashes_state:
  assumes "canonical_inv State_SpecialAuthoritySlashes cx p"
  shows "canonical_action cx (special_authority_slashes_state cx p (at_point p))"
proof -
  have pos: "at_position cx (iterator p)" using assms after_ascii_at_position by simp
  show ?thesis
    using assms pos solidus_next [OF pos] by (auto simp: special_authority_slashes_state_def split: bool.split)
qed

text \<open>Entering the authority state.\<close>

lemma after_ascii_authority: "after_ascii cx it \<Longrightarrow> in_authority cx u it []"
  unfolding after_ascii_def in_authority_def by force

lemma in_authority_step:
  assumes "in_authority cx u it buf" "\<not> ends_authority u (code_point_at it)"
  shows "\<exists>it'. utf8_next it = Some it' \<and> in_authority cx u it' (append_code_point buf (code_point_at it))"
proof -
  obtain d sep b t where pos: "sep < 128" "positioned cx it (d @ sep # b) t" "buf = utf8_encode_all b"
      "\<forall>c\<in>set b. \<not> ends_authority u c"
    using assms(1) by (auto simp: in_authority_def)
  from pos(2) show ?thesis
  proof (cases rule: positioned_cases)
    case finished
    then show ?thesis using assms(2) by (simp add: ends_authority_def)
  next
    case (step c cs)
    then have "positioned cx (utf8_encode_all cs) (d @ sep # (b @ [c])) cs"
      "append_code_point buf c = utf8_encode_all (b @ [c])" "\<forall>x\<in>set (b @ [c]). \<not> ends_authority u x"
      using pos assms(2) by (auto simp: append_code_point_encode)
    then show ?thesis using step pos(1) unfolding in_authority_def by blast
  qed
qed

lemma canonical_enter_authority:
  assumes "after_ascii cx it" "blank u" "p = q\<lparr>iterator := it\<rparr>" "the_url q = u" "buffer q = []"
  shows "canonical_inv State_Authority cx p"
  using assms(2-) after_ascii_authority [OF assms(1)] by (simp add: blank_def includes_credentials_def)

lemma canonical_path_or_authority_state:
  assumes "context_canonical cx" "state_inv State_PathOrAuthority cx p" "canonical_inv State_PathOrAuthority cx p"
  shows "canonical_action cx (path_or_authority_state cx p (at_point p))"
proof -
  have pos: "at_position cx (iterator p)" using assms(3) after_ascii_at_position by simp
  have u: "blank (the_url p)" "buffer p = []" "\<not> is_special (the_url p)" using assms(2) by simp_all
  have "head_canonical (cx_idna cx) (the_url p)" "drive_letter_normalized (the_url p)"
    using u not_special_not_file [OF u(3)]
    by (auto simp: head_canonical_def drive_letter_normalized_def blank_def includes_credentials_def)
  moreover have "canonical_inv State_Authority cx (p\<lparr>parser_state := State_Authority, iterator := it\<rparr>)"
    if "after_ascii cx it" for it
    using that u by (intro canonical_enter_authority [where q = "p\<lparr>parser_state := State_Authority\<rparr>"]) simp_all
  ultimately show ?thesis
    using solidus_next [OF pos] by (auto simp: path_or_authority_state_def simp del: canonical_inv.simps(10))
qed

lemma canonical_from_base:
  assumes b: "url_canonical idna b" "\<not> url_cannot_be_a_base_url b"
    and u: "url_scheme u = url_scheme b" "url_username u = url_username b" "url_password u = url_password b"
      "url_host u = url_host b" "url_port u = url_port b"
  shows "head_canonical idna u"
    and "url_ok u \<Longrightarrow> \<not> url_cannot_be_a_base_url u \<Longrightarrow> url_paths u = url_paths b \<Longrightarrow> url_canonical idna u"
proof -
  show head: "head_canonical idna u"
    using b u by (simp add: url_canonical_def head_canonical_def is_special_def includes_credentials_def)
  assume "url_ok u" "\<not> url_cannot_be_a_base_url u" "url_paths u = url_paths b"
  moreover from this have "tail_canonical u"
    using b u by (simp add: url_canonical_def tail_canonical_def drive_letter_normalized_def is_special_def)
  ultimately show "url_canonical idna u" using head by (simp add: url_canonical_def)
qed

lemma canonical_relative_state_from_base:
  assumes "context_canonical cx" "blank (the_url p)" "cx_base_url cx = Some b"
    "url_scheme b \<noteq> ''file''" "\<not> url_cannot_be_a_base_url b" "url_scheme (the_url p) = url_scheme b"
  shows "canonical_action cx (relative_state_from_base b p (at_point p))"
proof -
  let ?u = "(the_url p)\<lparr>url_username := url_username b, url_password := url_password b,
    url_host := url_host b, url_port := url_port b, url_paths := url_paths b, url_query := url_query b\<rparr>"
  have b: "url_canonical (cx_idna cx) b" using assms by (simp add: context_canonical_def)
  then have "url_ok b" by (simp add: url_canonical_def)
  then have "url_ok ?u" using assms by (simp add: url_simps)
  then have can: "url_canonical (cx_idna cx) ?u"
    using assms by (intro canonical_from_base(2) [OF b]) (simp_all add: blank_def no_tail_def)
  have head: "head_canonical (cx_idna cx) ?u" using can by (simp add: url_canonical_def)
  obtain ps where ps: "shorten_urls_path (?u\<lparr>url_query := None\<rparr>) = Some (?u\<lparr>url_query := None, url_paths := ps\<rparr>)"
    using shorten_urls_path_ok [of "?u\<lparr>url_query := None\<rparr>"] assms(2) by (auto simp: blank_def no_tail_def)
  have nx: "utf8_next (iterator p) = None \<longleftrightarrow> at_point p = end_of_file" by (simp add: code_point_at_EOF)
  show ?thesis
    using can head ps nx assms url_canonical_query [OF can, of "[]"] url_canonical_fragment [OF can, of "[]"]
    by (auto simp: relative_state_from_base_def Let_def end_of_file_def drive_letter_normalized_def split: option.split)
qed

lemma canonical_relative_state:
  assumes "context_canonical cx" "state_inv State_Relative cx p" "canonical_inv State_Relative cx p"
  shows "canonical_action cx (relative_state cx p (at_point p))"
proof -
  obtain b where b: "cx_base_url cx = Some b" "url_scheme b \<noteq> ''file''" "\<not> url_cannot_be_a_base_url b"
    using assms(2) by auto
  have pos: "at_position cx (iterator p)" using assms(3) by simp
  have "canonical_action cx (relative_state_from_base b (update_url p (\<lambda>u. u\<lparr>url_scheme := url_scheme b\<rparr>))
      (at_point (update_url p (\<lambda>u. u\<lparr>url_scheme := url_scheme b\<rparr>))))"
    using assms b by (intro canonical_relative_state_from_base) simp_all
  then show ?thesis
    using b ascii_head [OF pos] by (auto simp: relative_state_def Let_def)
qed

lemma canonical_relative_slash_state:
  assumes "context_canonical cx" "state_inv State_RelativeSlash cx p" "canonical_inv State_RelativeSlash cx p"
  shows "canonical_action cx (relative_slash_state cx p (at_point p))"
proof -
  obtain b where b: "cx_base_url cx = Some b" "url_scheme b = url_scheme (the_url p)" using assms(2) by auto
  have u: "blank (the_url p)" "buffer p = []" "url_scheme (the_url p) \<noteq> ''file''" using assms(2) by simp_all
  have pos: "at_position cx (iterator p)" using assms(3) after_ascii_at_position by simp
  have "head_canonical (cx_idna cx) b" using assms(1) b by (simp add: context_canonical_def url_canonical_def)
  then have "head_canonical (cx_idna cx) ((the_url p)\<lparr>url_username := url_username b, url_password := url_password b,
      url_host := url_host b, url_port := url_port b\<rparr>)"
    using b by (simp add: head_canonical_def is_special_def includes_credentials_def)
  then show ?thesis
    using ascii_head [OF pos] b u
    by (auto simp: relative_slash_state_def drive_letter_normalized_def blank_def includes_credentials_def
        after_ascii_authority)
qed

lemma canonical_special_authority_ignore_slashes_state:
  assumes "state_inv State_SpecialAuthorityIgnoreSlashes cx p" "canonical_inv State_SpecialAuthorityIgnoreSlashes cx p"
    "parser_state p = State_SpecialAuthorityIgnoreSlashes"
  shows "canonical_action cx (special_authority_ignore_slashes_state cx p (at_point p))"
proof -
  have pos: "at_position cx (iterator p)" using assms(2) after_ascii_at_position by simp
  have "canonical_inv State_Authority cx (p\<lparr>parser_state := State_Authority\<rparr>)"
    using assms(1,2) by (simp add: blank_def includes_credentials_def after_ascii_authority)
  then show ?thesis
    using assms(3) ascii_head [OF pos]
    by (auto simp: special_authority_ignore_slashes_state_def simp del: canonical_inv.simps(10))
qed

lemma canonical_authority_state:
  assumes "context_canonical cx" "state_inv State_Authority cx p" "canonical_inv State_Authority cx p"
    "parser_state p = State_Authority"
  shows "canonical_action cx (authority_state cx p (at_point p))"
proof -
  have auth: "in_authority cx (the_url p) (iterator p) (buffer p)"
    and u: "url_port (the_url p) = None" "includes_credentials (the_url p) \<longrightarrow> at_sign_seen p"
    using assms(3) by auto
  obtain d sep b t where pos: "sep < 128" "positioned cx (iterator p) (d @ sep # b) t" "buffer p = utf8_encode_all b"
      "\<forall>c\<in>set b. \<not> ends_authority (the_url p) c"
    using auth by (auto simp: in_authority_def)
  have ap: "at_position cx (iterator p)" using pos(2) by (auto simp: at_position_def)
  consider (at_sign) "at_point p = 64" | (ends) "at_point p \<noteq> 64" "ends_authority (the_url p) (at_point p)"
    | (other) "at_point p \<noteq> 64" "\<not> ends_authority (the_url p) (at_point p)" by blast
  then show ?thesis
  proof cases
    case at_sign
    then obtain rest where rest: "utf8_next (iterator p) = Some rest" "after_ascii cx rest"
      using ascii_head [OF ap] by auto
    show ?thesis
      using at_sign rest u assms(4)
      by (simp add: authority_state_def authority_at_sign_def Let_def after_ascii_authority split: option.split)
  next
    case ends
    have len: "length (cx_input cx) < 2 ^ 64" using assms(1) by (simp add: context_canonical_def)
    have points: "code_points (sep # b @ t)" using pos(2) by (simp add: positioned_def code_points_def)
    have nx: "utf8_next (iterator_at_byte_offset (cx_input cx) (authority_rewind_offset cx p)) = Some (utf8_encode_all (b @ t))"
      using points by (simp add: authority_rewind [OF pos(2,3,1) len] code_points_def utf8_deref_encode)
    have "\<not> ends_authority (the_url p) (code_point_at (utf8_encode_all (b @ t)))" if "b \<noteq> []"
      using that points pos(4) by (cases b) (auto simp: code_point_at_def code_points_def utf8_deref_encode)
    then show ?thesis
      using ends nx u pos(3) by (auto simp: authority_state_def)
  next
    case other
    then show ?thesis
      using in_authority_step [OF auth other(2)] u assms(4) by (auto simp: authority_state_def)
  qed
qed

lemma canonical_host_state:
  assumes "context_canonical cx" "state_inv State_Host cx p" "canonical_inv State_Host cx p" "parser_state p = State_Host"
  shows "canonical_action cx (host_state cx p (at_point p))"
proof -
  let ?h = "parse_host (cx_idna cx) (buffer p) (\<not> is_special (the_url p))"
  have u: "url_port (the_url p) = None"
    "includes_credentials (the_url p) \<longrightarrow> buffer p \<noteq> [] \<or> \<not> ends_authority (the_url p) (at_point p)"
    using assms(3) by simp_all
  have nx: "utf8_next (iterator p) = None \<longleftrightarrow> at_point p = end_of_file" by (simp add: code_point_at_EOF)
  have parsed: "host_parsed (cx_idna cx) (is_special (the_url p)) h" "h \<noteq> Host_Empty" if "?h = Success h" for h
    using that parse_host_valid [of "cx_idna cx" "buffer p" "\<not> is_special (the_url p)"] by (auto simp: host_parsed_def)
  have nonempty: "host_nonempty h" if "?h = Success h" "buffer p \<noteq> [] \<or> is_special (the_url p)" for h
    using that host_parsed_nonempty by blast
  have override: "cx_state_override cx = None" using assms(1) by (simp add: context_canonical_def context_ok_def)
  consider (colon) "at_point p = 58" "\<not> inside_brackets p"
    | (ends) "\<not> (at_point p = 58 \<and> \<not> inside_brackets p)" "ends_authority (the_url p) (at_point p)"
    | (other) "\<not> (at_point p = 58 \<and> \<not> inside_brackets p)" "\<not> ends_authority (the_url p) (at_point p)" by blast
  then show ?thesis
  proof cases
    case colon
    then show ?thesis
      using u override parsed nonempty nx
      by (auto simp: host_state_def end_of_file_def includes_credentials_def is_special_def
          split: outcome.split option.split)
  next
    case ends
    then show ?thesis
      using u override parsed nonempty
      by (auto simp: host_state_def Let_def includes_credentials_def is_special_def ends_authority_def
          split: outcome.split)
  next
    case other
    then have "at_point p \<noteq> end_of_file" by (auto simp: ends_authority_def)
    then obtain it where it: "utf8_next (iterator p) = Some it" using nx by (cases "utf8_next (iterator p)") auto
    have "append_code_point (buffer p) c \<noteq> []" for c by (simp add: append_code_point_encode)
    then show ?thesis
      using other u override it assms(4) by (cases "at_point p = 58") (simp_all add: host_state_def)
  qed
qed

lemma canonical_port_state:
  assumes "context_canonical cx" "state_inv State_Port cx p" "canonical_inv State_Port cx p" "parser_state p = State_Port"
  shows "canonical_action cx (port_state cx p (at_point p))"
proof -
  have u: "url_port (the_url p) = None" "host_parsed (cx_idna cx) (is_special (the_url p)) (url_host (the_url p))"
    "host_nonempty (url_host (the_url p))
      \<or> buffer p = [] \<and> ends_authority (the_url p) (at_point p) \<and> \<not> includes_credentials (the_url p)
        \<and> \<not> is_special (the_url p) \<and> url_host (the_url p) \<noteq> Host_Empty"
    using assms(3) by simp_all
  have not_file: "url_scheme (the_url p) \<noteq> ''file''" using assms(2) by simp
  have override: "cx_state_override cx = None" using assms(1) by (simp add: context_canonical_def context_ok_def)
  show ?thesis
  proof (cases "is_ascii_digit (at_point p)")
    case True
    then have "\<not> ends_authority (the_url p) (at_point p)" "at_point p \<noteq> end_of_file"
      by (auto simp: ends_authority_def is_ascii_digit_def end_of_file_def)
    then show ?thesis
      using True u assms(4) code_point_at_EOF [of "iterator p"]
      by (auto simp: port_state_def split: option.split)
  next
    case False
    have "head_canonical (cx_idna cx) ((the_url p)\<lparr>url_port := port\<rparr>)" if "host_nonempty (url_host (the_url p))" for port
      using that u not_file by (auto simp: head_canonical_def is_special_def)
    moreover have "head_canonical (cx_idna cx) (the_url p)" "url_host (the_url p) \<noteq> Host_Empty"
      using u not_file by (auto simp: head_canonical_def host_nonempty_def)
    ultimately show ?thesis
      using False u override by (auto simp: port_state_def Let_def)
  qed
qed

lemma drive_letter_normalized_shorten:
  assumes "drive_letter_normalized u" "shorten_urls_path u = Some v"
  shows "drive_letter_normalized v"
proof -
  have "butlast (url_paths u) \<noteq> [] \<Longrightarrow> butlast (url_paths u) ! 0 = url_paths u ! 0"
    using nth_butlast [of 0 "url_paths u"] by (cases "butlast (url_paths u)") simp_all
  then show ?thesis
    using assms by (auto simp: drive_letter_normalized_def shorten_urls_path_def split: if_splits)
qed

lemma canonical_file_base:
  assumes "context_canonical cx" "cx_base_url cx = Some b" "url_scheme b = ''file''"
  shows "url_canonical (cx_idna cx) b" "\<not> url_cannot_be_a_base_url b" "no_credentials_or_port b"
    "drive_letter_normalized b"
proof -
  show b: "url_canonical (cx_idna cx) b" using assms by (simp add: context_canonical_def)
  show "\<not> url_cannot_be_a_base_url b"
    using assms file_base [of cx b] by (simp add: context_canonical_def)
  then show "drive_letter_normalized b" using b by (simp add: url_canonical_def tail_canonical_def)
  show "no_credentials_or_port b"
    using b assms(3) by (auto simp: url_canonical_def head_canonical_def no_credentials_or_port_def includes_credentials_def)
qed

lemma head_canonical_file:
  assumes "blank u"
  shows "head_canonical idna (u\<lparr>url_scheme := ''file'', url_host := Host_String []\<rparr>)"
  using assms by (simp add: head_canonical_def blank_def includes_credentials_def)

lemma canonical_file_state:
  assumes "context_canonical cx" "state_inv State_File cx p"
  shows "canonical_action cx (file_state cx p (at_point p))"
proof -
  let ?u = "(the_url p)\<lparr>url_scheme := ''file'', url_host := Host_String []\<rparr>"
  have blank: "blank (the_url p)" using assms(2) by simp
  have u: "head_canonical (cx_idna cx) ?u" "drive_letter_normalized ?u"
    using blank head_canonical_file by (simp_all add: drive_letter_normalized_def blank_def no_tail_def)
  have eof: "utf8_next (iterator p) = None \<longleftrightarrow> at_point p = end_of_file" by (simp add: code_point_at_EOF)
  show ?thesis
  proof (cases "\<exists>b. cx_base_url cx = Some b \<and> url_scheme b = ''file''")
    case True
    then obtain b where b: "cx_base_url cx = Some b" "url_scheme b = ''file''" by blast
    note facts = canonical_file_base [OF assms(1) b]
    have ctx: "context_ok cx" using assms(1) by (simp add: context_canonical_def)
    let ?v = "(the_url p)\<lparr>url_scheme := ''file'', url_host := url_host b, url_paths := url_paths b, url_query := url_query b\<rparr>"
    note v = file_state_from_base_inv [OF ctx blank b]
    have can: "url_canonical (cx_idna cx) ?v"
      using facts b blank v(1)
      by (intro canonical_from_base(2) [OF facts(1,2)]) (simp_all add: blank_def no_tail_def no_credentials_or_port_def)
    obtain ps where ps: "shorten_urls_path (?v\<lparr>url_query := None\<rparr>) = Some (?v\<lparr>url_query := None, url_paths := ps\<rparr>)"
      using v(2) by blast
    have "drive_letter_normalized (?v\<lparr>url_query := None\<rparr>)"
      using facts(4) b by (simp add: drive_letter_normalized_def)
    from drive_letter_normalized_shorten [OF this ps]
    have dps: "drive_letter_normalized (?v\<lparr>url_query := None, url_paths := ps\<rparr>)" .
    have head: "head_canonical (cx_idna cx) ?v" using can by (simp add: url_canonical_def)
    have clear: "drive_letter_normalized (?v\<lparr>url_query := None, url_paths := []\<rparr>)"
      by (simp add: drive_letter_normalized_def)
    show ?thesis
      using b u can head ps dps clear eof url_canonical_query [OF can, of "[]"] url_canonical_fragment [OF can, of "[]"]
      by (auto simp: file_state_def Let_def end_of_file_def split: option.split)
  next
    case False
    then show ?thesis
      using u eof by (auto simp: file_state_def Let_def end_of_file_def split: option.splits)
  qed
qed

lemma canonical_file_slash_state:
  assumes "context_canonical cx" "state_inv State_FileSlash cx p" "canonical_inv State_FileSlash cx p"
  shows "canonical_action cx (file_slash_state cx p (at_point p))"
proof -
  have eof: "utf8_next (iterator p) = None \<longleftrightarrow> at_point p = end_of_file" by (simp add: code_point_at_EOF)
  have u: "head_canonical (cx_idna cx) (the_url p)" "no_tail (the_url p)" "url_scheme (the_url p) = ''file''"
    using assms(2,3) by simp_all
  show ?thesis
  proof (cases "\<exists>b. cx_base_url cx = Some b \<and> url_scheme b = ''file''")
    case True
    then obtain b where b: "cx_base_url cx = Some b" "url_scheme b = ''file''" by blast
    note facts = canonical_file_base [OF assms(1) b]
    have "head_canonical (cx_idna cx) ((the_url p)\<lparr>url_host := url_host b\<rparr>)"
      using u facts(1) b
      by (auto simp: url_canonical_def head_canonical_def is_special_def includes_credentials_def)
    then show ?thesis
      using b u eof
      by (auto simp: file_slash_state_def Let_def end_of_file_def drive_letter_normalized_def no_tail_def
          split: option.split)
  next
    case False
    then show ?thesis
      using u eof
      by (auto simp: file_slash_state_def end_of_file_def drive_letter_normalized_def no_tail_def split: option.splits)
  qed
qed

lemma canonical_file_host_state:
  assumes "context_canonical cx" "state_inv State_FileHost cx p" "canonical_inv State_FileHost cx p"
    "parser_state p = State_FileHost"
  shows "canonical_action cx (file_host_state cx p (at_point p))"
proof -
  have eof: "utf8_next (iterator p) = None \<longleftrightarrow> at_point p = end_of_file" by (simp add: code_point_at_EOF)
  have u: "head_canonical (cx_idna cx) (the_url p)" "no_tail (the_url p)" "url_scheme (the_url p) = ''file''"
    using assms(2,3) by simp_all
  have host: "head_canonical (cx_idna cx) ((the_url p)\<lparr>url_host := h\<rparr>)"
    if "h = Host_String [] \<or> host_parsed (cx_idna cx) True h \<and> h \<noteq> Host_Empty \<and> h \<noteq> Host_String ''localhost''" for h
    using u that by (auto simp: head_canonical_def is_special_def includes_credentials_def)
  have parsed: "host_parsed (cx_idna cx) True h" "h \<noteq> Host_Empty"
    if "parse_host (cx_idna cx) (buffer p) False = Success h" for h
    using that parse_host_valid [of "cx_idna cx" "buffer p" False] by (auto simp: host_parsed_def)
  have special: "is_special (the_url p)" using u(3) by (simp add: is_special_def)
  show ?thesis
    using u host parsed special eof assms(4)
    by (auto simp: file_host_state_def Let_def drive_letter_normalized_def no_tail_def
        split: outcome.split option.split)
qed

lemma canonical_path_start_state:
  assumes "context_canonical cx" "state_inv State_PathStart cx p" "canonical_inv State_PathStart cx p"
    "parser_state p = State_PathStart"
  shows "canonical_action cx (path_start_state cx p (at_point p))"
proof -
  have eof: "utf8_next (iterator p) = None \<longleftrightarrow> at_point p = end_of_file" by (simp add: code_point_at_EOF)
  have u: "head_canonical (cx_idna cx) (the_url p)" "no_tail (the_url p)" "url_host (the_url p) \<noteq> Host_Empty" "head_ok (the_url p)"
    using assms(2,3) by simp_all
  have can: "url_canonical (cx_idna cx) (the_url p)" if "\<not> is_special (the_url p)"
    using that u url_ok_no_tail not_special_not_file
    by (auto simp: url_canonical_def tail_canonical_def drive_letter_normalized_def no_tail_def)
  have override: "cx_state_override cx = None" using assms(1) by (simp add: context_canonical_def context_ok_def)
  show ?thesis
    using u can eof override url_canonical_query [OF can, of "[]"] url_canonical_fragment [OF can, of "[]"]
    by (auto simp: path_start_state_def Let_def end_of_file_def drive_letter_normalized_def no_tail_def
        split: option.split)
qed

lemma drive_letter_normalized_segment:
  assumes "drive_letter_normalized u" "add_path_segment u s c = Some v"
  shows "drive_letter_normalized v"
proof -
  have slash: "drive_letter_normalized (append_slash w)" if "drive_letter_normalized w" for w
    using that by (auto simp: drive_letter_normalized_def append_slash_def is_windows_drive_letter_def nth_append)
  have "drive_letter_normalized (u\<lparr>url_paths := url_paths u @
      [if url_scheme u = ''file'' \<and> url_paths u = [] \<and> is_windows_drive_letter s then [s ! 0, CHR '':''] else s]\<rparr>)"
    using assms(1)
    by (auto simp: drive_letter_normalized_def nth_append is_windows_drive_letter_def is_normalized_windows_drive_letter_def)
  then show ?thesis
    using assms slash drive_letter_normalized_shorten [OF assms(1)]
    by (auto simp: add_path_segment_def Let_def split: if_splits)
qed

lemma canonical_path_state:
  assumes "context_canonical cx" "state_inv State_Path cx p" "canonical_inv State_Path cx p" "parser_state p = State_Path"
  shows "canonical_action cx (path_state cx p (at_point p))"
proof -
  let ?c = "at_point p"
  have u: "head_canonical (cx_idna cx) (the_url p)" "drive_letter_normalized (the_url p)" using assms(3) by simp_all
  have override: "cx_state_override cx = None" using assms(1) by (simp add: context_canonical_def context_ok_def)
  have nx: "utf8_next (iterator p) = None \<longleftrightarrow> ?c = end_of_file" by (simp add: code_point_at_EOF)
  show ?thesis
  proof (cases "(?c = end_of_file \<or> ?c = 47) \<or> (is_special (the_url p) \<and> ?c = 92) \<or> ?c = 63 \<or> ?c = 35")
    case True
    obtain ps where ps: "add_path_segment (the_url p) (buffer p) ?c = Some ((the_url p)\<lparr>url_paths := ps\<rparr>)"
        "list_all (segment_ok (is_special (the_url p))) ps" "?c \<noteq> 47 \<and> ?c \<noteq> 92 \<longrightarrow> ps \<noteq> []"
      using add_path_segment_ok [of "the_url p" "buffer p" ?c] assms(2) by auto
    note dl = drive_letter_normalized_segment [OF u(2) ps(1)]
    have can: "url_canonical (cx_idna cx) ((the_url p)\<lparr>url_paths := ps\<rparr>)" if "?c \<noteq> 47" "?c \<noteq> 92"
      using assms(2) ps u dl that by (simp add: url_canonical_def url_ok_def path_ok_def tail_canonical_def)
    then have "url_canonical (cx_idna cx) ((the_url p)\<lparr>url_paths := ps, url_query := Some []\<rparr>)"
      "url_canonical (cx_idna cx) ((the_url p)\<lparr>url_paths := ps, url_fragment := Some []\<rparr>)" if "?c \<noteq> 47" "?c \<noteq> 92"
      using that by (simp_all add: url_canonical_query url_canonical_fragment)
    then show ?thesis
      using assms(4) override True ps(1) can u dl nx
      by (cases "utf8_next (iterator p)") (auto simp: path_state_def Let_def end_of_file_def)
  next
    case False
    then show ?thesis
      using assms(4) override u nx at_code_point_iff [OF at_code_point_deref [of p]]
      by (cases "utf8_next (iterator p)") (auto simp: path_state_def append_percent_encoded_if_necessary_eq)
  qed
qed

lemma encoded_code_point_ends:
  "hd (encoded_code_point C0Control c) = CHR ''/'' \<Longrightarrow> c = 47"
  "last (encoded_code_point C0Control c) = CHR '' '' \<Longrightarrow> c = 32"
proof -
  have "CHR ''/'' \<in> set (encoded_code_point C0Control c) \<Longrightarrow> c = 47"
    "CHR '' '' \<in> set (encoded_code_point C0Control c) \<Longrightarrow> c = 32"
    using encoded_code_point_bytes [of _ C0Control c]
    by (fastforce simp: is_ascii_uppercase_hex_digit_def is_ascii_digit_def)+
  then show "hd (encoded_code_point C0Control c) = CHR ''/'' \<Longrightarrow> c = 47"
    "last (encoded_code_point C0Control c) = CHR '' '' \<Longrightarrow> c = 32"
    using hd_in_set [of "encoded_code_point C0Control c"] last_in_set [of "encoded_code_point C0Control c"] by auto
qed

lemma canonical_cannot_be_a_base_url_path_state:
  assumes "context_canonical cx" "state_inv State_CannotBeABaseUrlPath cx p" "canonical_inv State_CannotBeABaseUrlPath cx p"
    "parser_state p = State_CannotBeABaseUrlPath"
  shows "canonical_action cx (cannot_be_a_base_url_path_state cx p (at_point p))"
proof -
  let ?c = "at_point p"
  have u: "url_host (the_url p) = Host_Empty" "no_credentials_or_port (the_url p)"
    and first: "if buffer p = [] then ?c \<noteq> 47 else hd (buffer p) \<noteq> CHR ''/''"
    using assms(3) by (auto split: if_splits)
  have v: "head_ok (the_url p)" "\<not> is_special (the_url p)" "url_cannot_be_a_base_url (the_url p)"
    "url_paths (the_url p) = [[]]" "url_query (the_url p) = None" "url_fragment (the_url p) = None"
    "opaque_path_bytes (buffer p)" using assms(2) by simp_all
  obtain d t where pos: "positioned cx (iterator p) d t" "buffer p \<noteq> [] \<and> last (buffer p) = CHR '' '' \<longrightarrow> d \<noteq> [] \<and> last d = 32"
    using assms(3) by auto
  have head: "head_canonical (cx_idna cx) (the_url p)"
    using u v not_special_not_file [OF v(2)] by (auto simp: head_canonical_def no_credentials_or_port_def includes_credentials_def)
  have ok: "url_canonical (cx_idna cx) ((the_url p)\<lparr>url_paths := [buffer p], url_query := q, url_fragment := f\<rparr>)"
    if "?c \<noteq> 47" "q = Some [] \<and> f = None \<or> q = None \<and> f = Some [] \<or>
      q = None \<and> f = None \<and> (buffer p \<noteq> [] \<longrightarrow> last (buffer p) \<noteq> CHR '' '')" for q f
    using that first head u v
    by (auto simp: url_canonical_def url_ok_def path_ok_def tail_canonical_def split: if_splits)
  from pos(1) show ?thesis
  proof (cases rule: positioned_cases)
    case finished
    then have "last (buffer p) \<noteq> CHR '' ''" if "buffer p \<noteq> []"
      using pos that assms(1) by (cases d rule: rev_cases) (auto simp: context_canonical_def positioned_def utf8_encode_bytes char_of_eval)
    then have "url_canonical (cx_idna cx) ((the_url p)\<lparr>url_paths := [buffer p], url_query := None, url_fragment := None\<rparr>)"
      using finished by (intro ok) (auto simp: end_of_file_def)
    then show ?thesis
      using finished v by (simp add: cannot_be_a_base_url_path_state_def end_of_file_def)
  next
    case (step c cs)
    then have e: "append_percent_encoded_if_necessary (buffer p) c C0Control = Some (buffer p @ encoded_code_point C0Control c)"
      by (simp add: append_percent_encoded_if_necessary_eq)
    have "positioned cx (utf8_encode_all cs) (d @ [c]) cs" using step by simp
    moreover have "last (buffer p @ encoded_code_point C0Control c) = CHR '' '' \<longrightarrow> c = 32"
      using encoded_code_point_ends(2) by simp
    moreover have "hd (buffer p @ encoded_code_point C0Control c) \<noteq> CHR ''/''"
      using first step(3) encoded_code_point_ends(1) [of c] by (cases "buffer p = []") auto
    ultimately have "canonical_inv State_CannotBeABaseUrlPath cx
        (p\<lparr>buffer := buffer p @ encoded_code_point C0Control c, iterator := utf8_encode_all cs\<rparr>)"
      using u by simp (metis append_is_Nil_conv last_snoc not_Cons_self2)
    then show ?thesis
      using step ok [of "Some []" None] ok [of None "Some []"] v assms(4) e
      by (cases "c = end_of_file") (simp_all add: cannot_be_a_base_url_path_state_def del: canonical_inv.simps(19))
  qed
qed

lemma canonical_query_state:
  assumes "context_canonical cx" "canonical_inv State_Query cx p" "parser_state p = State_Query"
  shows "canonical_action cx (query_state cx p (at_point p))"
proof -
  have u: "url_canonical (cx_idna cx) (the_url p)" "url_query (the_url p) \<noteq> None" using assms(2) by simp_all
  have q: "url_canonical (cx_idna cx) ((the_url p)\<lparr>url_query := Some q\<rparr>)"
    "url_canonical (cx_idna cx) ((the_url p)\<lparr>url_query := Some q, url_fragment := Some []\<rparr>)"
    if "encoded_by (if is_special (the_url p) then SpecialQuery else Query) q" for q
    using url_canonical_query [OF u(1) that] url_canonical_fragment [OF url_canonical_query [OF u(1) that], of "[]"]
    by simp_all
  have override: "cx_state_override cx = None" using assms(1) by (simp add: context_canonical_def context_ok_def)
  show ?thesis
    using u q assms(3) override code_point_at_EOF [of "iterator p"]
    by (simp add: query_state_def Let_def end_of_file_def split: option.split)
qed

lemma canonical_fragment_state:
  assumes "canonical_inv State_Fragment cx p" "parser_state p = State_Fragment"
  shows "canonical_action cx (fragment_state cx p (at_point p))"
  using assms code_point_at_EOF [of "iterator p"] url_canonical_fragment
  by (simp add: fragment_state_def split: option.split)

lemma canonical_run_state:
  assumes "context_canonical cx" "state_inv (parser_state p) cx p" "canonical_inv (parser_state p) cx p"
  shows "canonical_action cx (run_state (parser_state p) cx p (code_point_at (iterator p)))"
  using assms(2,3)
  by (cases "parser_state p")
    (simp_all only: run_state.simps,
     simp_all only: assms(1) canonical_scheme_start_state canonical_scheme_state canonical_no_scheme_state
       canonical_special_relative_or_authority_state canonical_path_or_authority_state canonical_relative_state
       canonical_relative_slash_state canonical_special_authority_slashes_state
       canonical_special_authority_ignore_slashes_state canonical_authority_state canonical_host_state
       canonical_port_state canonical_file_state canonical_file_slash_state canonical_file_host_state
       canonical_path_start_state canonical_path_state canonical_cannot_be_a_base_url_path_state
       canonical_query_state canonical_fragment_state canonical_inv.simps(12))

subsection \<open>The loop and the entry point\<close>

lemma basic_parse_loop_canonical:
  assumes "context_canonical cx" "state_inv (parser_state p) cx p" "canonical_inv (parser_state p) cx p"
  shows "\<exists>u v. basic_parse_loop cx p = Some (u, v) \<and> (u = empty_url \<or> url_valid u \<and> url_canonical (cx_idna cx) u)"
proof (rule url_parser.run_invariant
    [where invar = "\<lambda>p. state_inv (parser_state p) cx p \<and> canonical_inv (parser_state p) cx p"])
  have ok: "context_ok cx" using assms(1) by (simp add: context_canonical_def)
  show "state_inv (parser_state p) cx p \<and> canonical_inv (parser_state p) cx p" using assms by simp
  fix p q
  assume inv: "state_inv (parser_state p) cx p \<and> canonical_inv (parser_state p) cx p"
  assume "basic_parse_step cx p = Inl q"
  then show "state_inv (parser_state q) cx q \<and> canonical_inv (parser_state q) cx q"
    using inv run_state_inv [OF ok, of p] canonical_run_state [OF assms(1), of p]
    by (auto simp: basic_parse_step_def split: action.splits option.splits if_splits)
next
  have ok: "context_ok cx" using assms(1) by (simp add: context_canonical_def)
  fix p r
  assume inv: "state_inv (parser_state p) cx p \<and> canonical_inv (parser_state p) cx p"
  assume "basic_parse_step cx p = Inr r"
  then show "\<exists>u v. r = Some (u, v) \<and> (u = empty_url \<or> url_valid u \<and> url_canonical (cx_idna cx) u)"
    using inv run_state_inv [OF ok, of p] canonical_run_state [OF assms(1), of p]
    by (auto simp: basic_parse_step_def finish_parse_def Let_def split: action.splits option.splits)
qed

lemma utf8_encode_high:
  assumes "128 \<le> c" "c \<le> 0x10FFFF" "x \<in> set (utf8_encode c)"
  shows "128 \<le> ord_of x"
proof -
  have byte: "128 \<le> ord_of (char_of (n :: nat))" if "128 \<le> n" "n < 256" for n
    using that by simp
  have low: "128 \<le> ord_of (char_of (y mod 64 + 128))" for y :: nat
    by (rule byte) (use mod_less_divisor [of 64 y] in linarith)+
  consider (two) "c \<le> 0x7FF" | (three) "0x7FF < c" "c \<le> 0xFFFF" | (four) "0xFFFF < c" by linarith
  then show ?thesis
  proof cases
    case two
    have "128 \<le> ord_of (char_of (c div 64 + 192))" by (rule byte) (use two in linarith)+
    then show ?thesis using assms(1,3) two low by (auto simp only: utf8_encode_bytes set_simps)
  next
    case three
    have "128 \<le> ord_of (char_of (c div 4096 + 224))" by (rule byte) (use three in linarith)+
    then show ?thesis using assms(3) three low by (simp only: utf8_encode_bytes) auto
  next
    case four
    have "128 \<le> ord_of (char_of (c div 262144 + 240))" by (rule byte) (use assms(2) in linarith)+
    then show ?thesis using assms(2,3) four low by (simp only: utf8_encode_bytes) auto
  qed
qed

lemma utf8_encode_ascii: "c < 128 \<Longrightarrow> utf8_encode c = [char_of c]"
  by (simp add: utf8_encode_bytes)

lemma valid_utf8_drop_ascii:
  assumes "ord_of x < 128"
  shows "valid_utf8 (x # s) \<Longrightarrow> valid_utf8 s" "valid_utf8 (s @ [x]) \<Longrightarrow> valid_utf8 s"
proof -
  show "valid_utf8 s" if valid: "valid_utf8 (x # s)"
  proof -
    obtain c cs where cs: "code_points (c # cs)" "x # s = utf8_encode c @ utf8_encode_all cs"
      using valid unfolding valid_utf8_def by (metis concat.simps list.exhaust list.simps(8,9) list.distinct(1))
    then have "x \<in> set (utf8_encode c)" using utf8_encode_not_Nil [of c] by (cases "utf8_encode c") auto
    then have "c < 128" using utf8_encode_high [of c x] assms cs(1) by (force simp: code_points_def)
    then show ?thesis using cs by (auto simp: utf8_encode_ascii valid_utf8_def code_points_def)
  qed
  show "valid_utf8 s" if valid: "valid_utf8 (s @ [x])"
  proof -
    obtain cps where cps: "code_points cps" "s @ [x] = utf8_encode_all cps" using valid by (auto simp: valid_utf8_def)
    then obtain cs c where c: "cps = cs @ [c]" by (cases cps rule: rev_cases) auto
    then have "last (s @ [x]) = last (utf8_encode c)" using cps by simp
    then have "x \<in> set (utf8_encode c)" using last_in_set [of "utf8_encode c"] by simp
    then have "c < 128" using utf8_encode_high [of c x] assms cps(1) c by (force simp: code_points_def)
    then show ?thesis using cps c by (auto simp: utf8_encode_ascii valid_utf8_def code_points_def)
  qed
qed

lemma valid_utf8_dropWhile:
  assumes "\<And>x. P x \<Longrightarrow> ord_of x < 128"
  shows "valid_utf8 s \<Longrightarrow> valid_utf8 (dropWhile P s)" "valid_utf8 s \<Longrightarrow> valid_utf8 (rev (dropWhile P (rev s)))"
proof -
  show "valid_utf8 s \<Longrightarrow> valid_utf8 (dropWhile P s)"
    by (induction s) (auto dest: assms valid_utf8_drop_ascii)
  show "valid_utf8 s \<Longrightarrow> valid_utf8 (rev (dropWhile P (rev s)))"
    by (induction s rule: rev_induct) (auto dest: assms valid_utf8_drop_ascii)
qed

lemma valid_utf8_filter:
  assumes "\<And>x. \<not> P x \<Longrightarrow> ord_of x < 128" "valid_utf8 s"
  shows "valid_utf8 (filter P s)"
proof -
  obtain cps where "code_points cps" "s = utf8_encode_all cps" using assms(2) by (auto simp: valid_utf8_def)
  then show ?thesis
  proof (induction cps arbitrary: s)
    case (Cons c cps)
    have high: "P x" if "\<not> c < 128" "x \<in> set (utf8_encode c)" for x
      using that assms(1) [of x] utf8_encode_high [of c x] Cons(2) by (fastforce simp: code_points_def)
    have "filter P (utf8_encode c) = (if c < 128 \<and> \<not> P (char_of c) then [] else utf8_encode c)"
      using high by (cases "c < 128") (simp_all add: utf8_encode_ascii filter_id_conv)
    moreover have "valid_utf8 (filter P (utf8_encode_all cps))" using Cons by (auto simp: code_points_def)
    then obtain ds where "code_points ds" "filter P (utf8_encode_all cps) = utf8_encode_all ds" by (auto simp: valid_utf8_def)
    moreover from this have "code_points (c # ds)" using Cons(2) by (simp add: code_points_def)
    moreover from calculation have "valid_utf8 (utf8_encode_all (c # ds))" "valid_utf8 (utf8_encode_all ds)"
      unfolding valid_utf8_def by blast+
    ultimately show ?case using Cons by simp
  qed (auto simp: valid_utf8_def intro: exI [of _ "[]"])
qed

lemma last_filter_last: "xs \<noteq> [] \<Longrightarrow> P (last xs) \<Longrightarrow> last (filter P xs) = last xs"
  by (cases xs rule: rev_cases) simp_all

lemma parse_input_canonical:
  assumes "valid_utf8 s" "remove_tab_and_newline (strip_c0_control_or_space s) = Some input"
  shows "valid_utf8 input" "input \<noteq> [] \<longrightarrow> last input \<noteq> CHR '' ''" "length input \<le> length s"
proof -
  let ?c0 = "\<lambda>c. is_ascii_c0_control_or_space (ord_of c)" and ?keep = "\<lambda>d. d \<notin> {CHR 0x09, CHR 0x0A, CHR 0x0D}"
  let ?t = "rev (dropWhile ?c0 (rev (dropWhile ?c0 s)))"
  have c0: "?c0 x \<Longrightarrow> ord_of x < 128" for x by (simp add: class_defs)
  have input: "input = filter ?keep ?t"
    using assms(2) by (simp add: remove_tab_and_newline_filter strip_c0_control_or_space_def Let_def)
  have "valid_utf8 ?t" using assms(1) c0 by (intro valid_utf8_dropWhile) auto
  then show "valid_utf8 input" unfolding input by (intro valid_utf8_filter) auto
  have "last (filter ?keep ?t) \<noteq> CHR '' ''" if ne: "filter ?keep ?t \<noteq> []"
  proof -
    have t: "?t \<noteq> []" using ne filter.simps(1) by metis
    then have "\<not> ?c0 (last ?t)" using hd_dropWhile [of ?c0 "rev (dropWhile ?c0 s)"] by (simp add: last_rev)
    then have "?keep (last ?t)" "last ?t \<noteq> CHR '' ''" by (auto simp: class_defs)
    then show ?thesis using last_filter_last [OF t] by simp
  qed
  then show "input \<noteq> [] \<longrightarrow> last input \<noteq> CHR '' ''" unfolding input by blast
  have "length input \<le> length ?t" unfolding input by (rule length_filter_le)
  also have "\<dots> \<le> length s" using length_dropWhile_le order_trans by (metis length_rev)
  finally show "length input \<le> length s" .
qed

lemma basic_parse_canonical:
  assumes "valid_utf8 s" "length s < 2 ^ 64" "\<forall>b. base_url = Some b \<longrightarrow> url_canonical idna b"
  shows "\<exists>u v. basic_parse idna s base_url None None encoding = Some (u, v)
    \<and> (u = empty_url \<or> url_valid u \<and> url_canonical idna u)"
proof -
  obtain input where input: "remove_tab_and_newline (strip_c0_control_or_space s) = Some input"
    using remove_tab_and_newline_filter by blast
  note facts = parse_input_canonical [OF assms(1) input]
  let ?cx = "\<lparr>cx_input = input, cx_base_url = base_url, cx_state_override = None, cx_idna = idna\<rparr>"
  have "context_canonical ?cx"
    using assms facts by (auto simp: context_canonical_def context_ok_def url_canonical_def)
  moreover have "at_position ?cx input"
    using facts(1) unfolding at_position_def positioned_def valid_utf8_def by (metis append_Nil parser_context.select_convs(1))
  moreover have "blank empty_url" by (simp add: blank_def no_tail_def empty_url_def)
  ultimately show ?thesis
    unfolding basic_parse_def option.case input
    using basic_parse_loop_canonical [of ?cx] by simp
qed

subsection \<open>Properties\<close>

text \<open>
  C4.  On an input of well-formed UTF-8 the URL parser, without a state override and with a
  canonical base URL, returns the empty URL or a canonical one.  A canonical URL satisfies the
  invariant of URLs and has a host that the host parser returned, if any; a special URL other
  than a file URL has a nonempty host and a path; credentials and a port come only with a
  nonempty host; an opaque path comes without a host, begins with no slash and does not end in a
  space before the end of the URL; a drive letter at the front of a file URL is normalized.
\<close>

theorem parsed_url_canonical:
  assumes "valid_utf8 s" "length s < 2 ^ 64" "\<forall>b. base_url = Some b \<longrightarrow> url_canonical idna b"
  shows "\<exists>u v. basic_parse idna s base_url None None encoding = Some (u, v)
    \<and> (u = empty_url \<or> url_valid u \<and> url_canonical idna u)"
  using assms by (rule basic_parse_canonical)

theorem parsed_url_canonical_witness:
  "\<exists>u v. basic_parse (\<lambda>d opts. Some d) ''https://u:p@a.org:80/x/../y?q#f'' None None None None = Some (u, v)
    \<and> (u = empty_url \<or> url_valid u \<and> url_canonical (\<lambda>d opts. Some d) u)"
proof (rule parsed_url_canonical)
  show "valid_utf8 ''https://u:p@a.org:80/x/../y?q#f''"
    unfolding valid_utf8_def
    by (rule exI [of _ "map ord_of ''https://u:p@a.org:80/x/../y?q#f''"]) code_simp
qed simp_all


end
