(* ===== verification/UrlStates.thy ===== *)
theory UrlStates
  imports UrlCanonical
begin

text \<open>
  Parsing what the serializer prints.  The lemmas follow the parser over a serialized URL state by
  state, from the last state back to the first; together they show that the parser returns the
  URL that was serialized, when the URL is canonical.
\<close>

subsection \<open>Steps of the loop on ASCII\<close>

abbreviation ascii_bytes :: "bytes \<Rightarrow> bool" where
  "ascii_bytes s \<equiv> list_all (\<lambda>b. ord_of b < 128) s"

lemma code_point_at_ascii: "ord_of b < 128 \<Longrightarrow> code_point_at (b # it) = ord_of b"
  by (simp add: code_point_at_def utf8_ascii_Cons)

lemma code_point_at_Nil [simp]: "code_point_at [] = end_of_file"
  by (simp add: code_point_at_EOF)

lemma get_remaining_ascii: "ord_of b < 128 \<Longrightarrow> get_remaining (b # it) = Some it"
  by (simp add: get_remaining_def utf8_ascii_Cons)

lemma loop_Break:
  assumes "iterator p = b # it" "ord_of b < 128"
    "run_state (parser_state p) cx p (ord_of b) = Break q" "utf8_next (iterator q) = Some it'"
  shows "basic_parse_loop cx p = basic_parse_loop cx (q\<lparr>iterator := it'\<rparr>)"
  using assms by (subst basic_parse_loop.simps) (simp add: basic_parse_step_def code_point_at_ascii)

lemma loop_Continue:
  assumes "run_state (parser_state p) cx p (code_point_at (iterator p)) = Continue q"
  shows "basic_parse_loop cx p = basic_parse_loop cx q"
  using assms by (subst basic_parse_loop.simps) (simp add: basic_parse_step_def)

lemma loop_finish:
  assumes "iterator p = []" "run_state (parser_state p) cx p end_of_file = Break q" "iterator q = []"
  shows "basic_parse_loop cx p = finish_parse q"
  using assms by (subst basic_parse_loop.simps) (simp add: basic_parse_step_def)

lemma parser_update_same: "p\<lparr>buffer := buffer p, iterator := iterator p\<rparr> = (p :: parser)"
  "p\<lparr>iterator := iterator p\<rparr> = (p :: parser)"
  by (cases p; simp)+

text \<open>A run of bytes that the state only adds to the buffer.\<close>

lemma loop_append:
  assumes "ascii_bytes t"
    "\<And>b q. b \<in> set t \<Longrightarrow> parser_state q = parser_state p \<Longrightarrow> the_url q = the_url p
       \<Longrightarrow> inside_brackets q = inside_brackets p \<Longrightarrow> the_encoder q = the_encoder p
       \<Longrightarrow> run_state (parser_state p) cx q (ord_of b) = Break (q\<lparr>buffer := buffer q @ [b]\<rparr>)"
    "iterator p = t @ rest"
  shows "basic_parse_loop cx p = basic_parse_loop cx (p\<lparr>buffer := buffer p @ t, iterator := rest\<rparr>)"
  using assms
proof (induction t arbitrary: p)
  case (Cons b t)
  have "basic_parse_loop cx p = basic_parse_loop cx (p\<lparr>buffer := buffer p @ [b], iterator := t @ rest\<rparr>)"
    using Cons(2-) by (subst loop_Break [of p b "t @ rest"]) (auto simp: utf8_ascii_Cons)
  also have "\<dots> = basic_parse_loop cx (p\<lparr>buffer := buffer p @ b # t, iterator := rest\<rparr>)"
    using Cons(2-) by (subst Cons.IH) auto
  finally show ?case .
qed (auto simp: parser_update_same)

lemma append_code_point_ascii: "ord_of b < 128 \<Longrightarrow> append_code_point s (ord_of b) = s @ [b]"
  by (simp add: append_code_point_encode utf8_encode_ascii)

subsection \<open>Encoded strings\<close>

lemma encoded_by_byte:
  "encoded_by enc s \<Longrightarrow> b \<in> set s \<Longrightarrow> b = CHR ''%'' \<or> \<not> code_point_is_in_percent_encode_set (ord_of b) enc"
  unfolding encoded_by_def list_all_iff by blast

lemma encoded_by_ascii: "encoded_by enc s \<Longrightarrow> ascii_bytes s"
proof (unfold list_all_iff, rule ballI)
  fix b
  assume "encoded_by enc s" "b \<in> set s"
  from encoded_by_byte [OF this] show "ord_of b < 128"
  proof
    assume "\<not> code_point_is_in_percent_encode_set (ord_of b) enc"
    from not_in_set_printable [OF this] show ?thesis by simp
  qed simp
qed

lemma percent_kept [simp]:
  "\<not> code_point_is_in_percent_encode_set 37 C0Control" "\<not> code_point_is_in_percent_encode_set 37 Fragment"
  "\<not> code_point_is_in_percent_encode_set 37 (if special then SpecialQuery else Query)"
  "\<not> code_point_is_in_percent_encode_set 37 Path" "\<not> code_point_is_in_percent_encode_set 37 Userinfo"
  by (auto simp: code_point_is_in_percent_encode_set.simps sv_contains_def char_of_eval)

lemma sv_contains_byte: "sv_contains s (ord_of b) \<longleftrightarrow> b \<in> set s"
  by (simp add: sv_contains_def)

lemmas encode_set_byte = code_point_is_in_percent_encode_set.simps sv_contains_byte

lemma encoded_by_not_in_set:
  assumes "encoded_by enc s" "b \<in> set s" "\<not> code_point_is_in_percent_encode_set 37 enc"
  shows "\<not> code_point_is_in_percent_encode_set (ord_of b) enc"
  using encoded_by_byte [OF assms(1,2)]
proof
  assume "b = CHR ''%''"
  then show ?thesis using assms(3) by simp
qed

lemma percent_encode_after_encoding_encoded:
  assumes "encoded_by enc s" "\<not> code_point_is_in_percent_encode_set 37 enc"
  shows "percent_encode_after_encoding utf8_encoder s enc False = s"
proof -
  have "concat (map (percent_encode_event enc False) (map On_byte t)) = t" if "set t \<subseteq> set s" for t
    using that
  proof (induction t)
    case (Cons b t)
    then have "\<not> code_point_is_in_percent_encode_set (ord_of b) enc" using encoded_by_not_in_set assms by simp
    then show ?case
      using Cons not_in_set_printable [of "ord_of b" enc] by (simp add: append_code_point_ascii)
  qed simp
  then show ?thesis by (simp add: percent_encode_after_encoding_def utf8_encoder_def)
qed

subsection \<open>Fragment, query and path\<close>

definition query_text :: "bytes option \<Rightarrow> bytes" where
  "query_text q = (case q of Some query \<Rightarrow> ''?'' @ query | None \<Rightarrow> [])"

definition fragment_text :: "bytes option \<Rightarrow> bytes" where
  "fragment_text f = (case f of Some fragment \<Rightarrow> ''#'' @ fragment | None \<Rightarrow> [])"

definition tail_text :: "bytes option \<Rightarrow> bytes option \<Rightarrow> bytes" where
  "tail_text q f = query_text q @ fragment_text f"

definition tail_ok :: "bool \<Rightarrow> bytes option \<Rightarrow> bytes option \<Rightarrow> bool" where
  "tail_ok special q f \<longleftrightarrow>
     (\<forall>s. q = Some s \<longrightarrow> encoded_by (if special then SpecialQuery else Query) s) \<and> (\<forall>s. f = Some s \<longrightarrow> encoded_by Fragment s)"

abbreviation parsed :: "url \<Rightarrow> parse_result" where
  "parsed u \<equiv> Some (u\<lparr>url_valid := True\<rparr>, u\<lparr>url_valid := True\<rparr>)"

lemma separator_byte:
  "ord_of b = 35 \<longleftrightarrow> b = CHR ''#''" "ord_of b = 47 \<longleftrightarrow> b = CHR ''/''" "ord_of b = 58 \<longleftrightarrow> b = CHR '':''"
  "ord_of b = 63 \<longleftrightarrow> b = CHR ''?''" "ord_of b = 64 \<longleftrightarrow> b = CHR ''@''" "ord_of b = 91 \<longleftrightarrow> b = CHR ''[''"
  "ord_of b = 92 \<longleftrightarrow> b = CHR 0x5C" "ord_of b = 93 \<longleftrightarrow> b = CHR '']''"
  by (simp_all add: char_eq_iff_ord)

lemma byte_not_end_of_file: "ord_of b < 128 \<Longrightarrow> ord_of b \<noteq> end_of_file"
  by (simp add: end_of_file_def)

lemma parser_encoder_same: "the_encoder p = e \<Longrightarrow> p\<lparr>the_encoder := e\<rparr> = (p :: parser)"
  by (cases p) simp

lemma query_state_byte:
  assumes "ord_of b < 128" "b \<noteq> CHR ''#''" "the_encoder p = utf8_encoder"
  shows "query_state cx p (ord_of b) = Break (p\<lparr>buffer := buffer p @ [b]\<rparr>)"
  using assms
  by (simp add: query_state_def Let_def parser_encoder_same separator_byte byte_not_end_of_file append_code_point_ascii)

lemma parse_fragment:
  assumes "parser_state p = State_Fragment" "buffer p = []" "iterator p = f" "encoded_by Fragment f"
  shows "basic_parse_loop cx p = parsed ((the_url p)\<lparr>url_fragment := Some f\<rparr>)"
proof -
  have ascii: "ascii_bytes f" using assms(4) by (rule encoded_by_ascii)
  have "basic_parse_loop cx p = basic_parse_loop cx (p\<lparr>buffer := f, iterator := []\<rparr>)"
    using assms ascii
    by (subst loop_append [of f p cx "[]"])
      (auto simp: fragment_state_def append_code_point_ascii list_all_iff end_of_file_def dest!: bspec)
  also have "\<dots> = parsed ((the_url p)\<lparr>url_fragment := Some f\<rparr>)"
    using assms by (subst loop_finish) (auto simp: fragment_state_def percent_encode_after_encoding_encoded finish_parse_def Let_def)
  finally show ?thesis .
qed

lemma parse_query:
  assumes "parser_state p = State_Query" "buffer p = []" "iterator p = q @ fragment_text f" "the_encoder p = utf8_encoder"
    "tail_ok (is_special (the_url p)) (Some q) f" "cx_state_override cx = None" "url_fragment (the_url p) = None"
  shows "basic_parse_loop cx p = parsed ((the_url p)\<lparr>url_query := Some q, url_fragment := f\<rparr>)"
proof -
  let ?enc = "if is_special (the_url p) then SpecialQuery else Query"
  have q: "encoded_by ?enc q" using assms(5) by (simp add: tail_ok_def)
  then have ascii: "ascii_bytes q" by (rule encoded_by_ascii)
  have hash: "CHR ''#'' \<notin> set q"
    using encoded_by_not_in_set [OF q, of "CHR ''#''"]
    by (cases "is_special (the_url p)")
      (auto simp: code_point_is_in_percent_encode_set.simps sv_contains_def char_of_eval)
  have enc: "percent_encode_after_encoding utf8_encoder q ?enc False = q"
    using q by (intro percent_encode_after_encoding_encoded) simp_all
  have "basic_parse_loop cx p = basic_parse_loop cx (p\<lparr>buffer := q, iterator := fragment_text f\<rparr>)"
    using assms ascii hash
    by (subst loop_append [of q p cx "fragment_text f"]) (auto intro!: query_state_byte simp: list_all_iff)
  also have "\<dots> = parsed ((the_url p)\<lparr>url_query := Some q, url_fragment := f\<rparr>)"
  proof (cases f)
    case None
    then show ?thesis
      using assms enc by (subst loop_finish) (auto simp: fragment_text_def query_state_def Let_def finish_parse_def end_of_file_def)
  next
    case (Some g)
    then show ?thesis
      using assms enc
      by (subst loop_Break [where b = "CHR ''#''" and it = g and it' = g])
        (auto simp: fragment_text_def query_state_def Let_def utf8_ascii_Cons parse_fragment tail_ok_def)
  qed
  finally show ?thesis .
qed

lemma path_state_byte:
  assumes "ord_of b < 128" "b \<noteq> CHR ''/''" "is_special (the_url p) \<longrightarrow> b \<noteq> CHR 0x5C"
    "\<not> code_point_is_in_percent_encode_set (ord_of b) Path"
  shows "path_state cx p (ord_of b) = Break (p\<lparr>buffer := buffer p @ [b]\<rparr>)"
proof -
  have "b \<noteq> CHR ''?''" "b \<noteq> CHR ''#''"
    using assms(4) by (auto simp: encode_set_byte)
  moreover have "append_percent_encoded_if_necessary (buffer p) (ord_of b) Path = Some (buffer p @ [b])"
    using assms(1,4) by (simp add: append_percent_encoded_if_necessary_def append_code_point_ascii)
  ultimately show ?thesis
    using assms by (auto simp: path_state_def separator_byte byte_not_end_of_file)
qed

lemma parse_segment:
  assumes "parser_state p = State_Path" "buffer p = []" "iterator p = s @ rest" "segment_bytes (is_special (the_url p)) s"
  shows "basic_parse_loop cx p = basic_parse_loop cx (p\<lparr>buffer := s, iterator := rest\<rparr>)"
proof -
  have enc: "encoded_by Path s" using assms(4) by (simp add: segment_bytes_def)
  have "path_state cx q (ord_of b) = Break (q\<lparr>buffer := buffer q @ [b]\<rparr>)" if "b \<in> set s" "the_url q = the_url p" for b q
    using that assms(4) encoded_by_ascii [OF enc] encoded_by_not_in_set [OF enc that(1)]
    by (intro path_state_byte) (auto simp: segment_bytes_def list_all_iff)
  then show ?thesis
    using assms encoded_by_ascii [OF enc] by (subst loop_append [of s p cx rest]) auto
qed

lemma add_path_segment_plain:
  assumes "segment_ok special s"
    "url_scheme u = ''file'' \<and> url_paths u = [] \<and> is_windows_drive_letter s \<longrightarrow> is_normalized_windows_drive_letter s"
  shows "add_path_segment u s c = Some (u\<lparr>url_paths := url_paths u @ [s]\<rparr>)"
proof -
  have "[s ! 0, CHR '':''] = s" if normal: "is_normalized_windows_drive_letter s"
  proof -
    obtain a b where "s = [a, b]"
      using normal by (auto simp: is_normalized_windows_drive_letter_def length_Suc_conv numeral_2_eq_2)
    then show ?thesis using normal by (simp add: is_normalized_windows_drive_letter_def)
  qed
  then show ?thesis
    using assms by (auto simp: add_path_segment_def Let_def segment_ok_def)
qed

lemma path_state_end:
  assumes "add_path_segment (the_url p) (buffer p) c = Some v" "c = end_of_file \<or> c = 47 \<or> c = 63 \<or> c = 35"
    "cx_state_override cx = None"
  shows "path_state cx p c = Break (
    if c = 63 then p\<lparr>the_url := v\<lparr>url_query := Some []\<rparr>, buffer := [], parser_state := State_Query\<rparr>
    else if c = 35 then p\<lparr>the_url := v\<lparr>url_fragment := Some []\<rparr>, buffer := [], parser_state := State_Fragment\<rparr>
    else p\<lparr>the_url := v, buffer := []\<rparr>)"
  using assms by (auto simp: path_state_def Let_def)

lemma tail_text_cases:
  obtains (none) "q = None" "f = None" "tail_text q f = []"
  | (fragment) g where "q = None" "f = Some g" "tail_text q f = CHR ''#'' # g"
  | (query) r where "q = Some r" "tail_text q f = CHR ''?'' # r @ fragment_text f"
  by (cases q; cases f) (auto simp: tail_text_def query_text_def fragment_text_def)

definition path_text :: "bytes list \<Rightarrow> bytes" where
  "path_text ps = concat (map (\<lambda>s. ''/'' @ s) ps)"

lemma path_text_simps [simp]: "path_text [] = []" "path_text (s # ss) = CHR ''/'' # s @ path_text ss"
  by (simp_all add: path_text_def)

lemma parse_path:
  assumes "parser_state p = State_Path" "buffer p = []" "cx_state_override cx = None" "the_encoder p = utf8_encoder"
    "iterator p = s @ path_text ss @ tail_text q f"
    "list_all (segment_ok (is_special (the_url p))) (s # ss)"
    "drive_letter_normalized ((the_url p)\<lparr>url_paths := url_paths (the_url p) @ s # ss\<rparr>)"
    "tail_ok (is_special (the_url p)) q f" "url_query (the_url p) = None" "url_fragment (the_url p) = None"
  shows "basic_parse_loop cx p =
    parsed ((the_url p)\<lparr>url_paths := url_paths (the_url p) @ s # ss, url_query := q, url_fragment := f\<rparr>)"
  using assms
proof (induction ss arbitrary: s p)
  case Nil
  let ?u = "(the_url p)\<lparr>url_paths := url_paths (the_url p) @ [s]\<rparr>"
  have run: "basic_parse_loop cx p = basic_parse_loop cx (p\<lparr>buffer := s, iterator := tail_text q f\<rparr>)"
    using Nil by (intro parse_segment) (auto simp: segment_ok_def)
  have add: "add_path_segment (the_url p) s c = Some ?u" for c
    using Nil by (intro add_path_segment_plain) (auto simp: drive_letter_normalized_def)
  show ?case
  proof (cases q f rule: tail_text_cases [case_names none fragment query])
    case none
    then show ?thesis
      unfolding run using Nil add
      by (subst loop_finish [where q = "p\<lparr>the_url := ?u, buffer := [], iterator := []\<rparr>"])
        (auto simp: path_state_end finish_parse_def Let_def end_of_file_def)
  next
    case (fragment g)
    then show ?thesis
      unfolding run using Nil add
      by (subst loop_Break [where b = "CHR ''#''" and it = g and it' = g])
        (auto simp: path_state_end utf8_ascii_Cons parse_fragment tail_ok_def)
  next
    case (query r)
    then show ?thesis
      unfolding run using Nil add
      by (subst loop_Break [where b = "CHR ''?''" and it = "r @ fragment_text f" and it' = "r @ fragment_text f"])
        (auto simp: path_state_end utf8_ascii_Cons parse_query)
  qed
next
  case (Cons t ss)
  let ?u = "(the_url p)\<lparr>url_paths := url_paths (the_url p) @ [s]\<rparr>"
  let ?rest = "t @ path_text ss @ tail_text q f"
  have add: "add_path_segment (the_url p) s c = Some ?u" for c
    using Cons(2-) by (intro add_path_segment_plain) (auto simp: drive_letter_normalized_def)
  have "basic_parse_loop cx p = basic_parse_loop cx (p\<lparr>buffer := s, iterator := CHR ''/'' # ?rest\<rparr>)"
    using Cons(2-) by (intro parse_segment) (auto simp: segment_ok_def)
  also have "\<dots> = basic_parse_loop cx (p\<lparr>the_url := ?u, buffer := [], iterator := ?rest\<rparr>)"
    using Cons(2-) add
    by (subst loop_Break [where b = "CHR ''/''" and it = ?rest and it' = ?rest
          and q = "p\<lparr>the_url := ?u, buffer := [], iterator := CHR ''/'' # ?rest\<rparr>"])
      (auto simp: path_state_end utf8_ascii_Cons)
  also have "\<dots> = parsed (?u\<lparr>url_paths := url_paths ?u @ t # ss, url_query := q, url_fragment := f\<rparr>)"
    using Cons(2-) by (subst Cons.IH [where s = t]) simp_all
  finally show ?case by simp
qed

lemma path_start_slash:
  "path_start_state cx p (ord_of CHR ''/'') = Break (p\<lparr>parser_state := State_Path\<rparr>)"
  by (simp add: path_start_state_def Let_def end_of_file_def)

lemma path_start_tail:
  assumes "\<not> is_special (the_url p)" "cx_state_override cx = None"
  shows "path_start_state cx p (ord_of CHR ''?'') =
      Break (p\<lparr>the_url := (the_url p)\<lparr>url_query := Some []\<rparr>, parser_state := State_Query\<rparr>)"
    "path_start_state cx p (ord_of CHR ''#'') =
      Break (p\<lparr>the_url := (the_url p)\<lparr>url_fragment := Some []\<rparr>, parser_state := State_Fragment\<rparr>)"
    "path_start_state cx p end_of_file = Break p"
  using assms by (simp_all add: path_start_state_def end_of_file_def)

lemma parse_path_start:
  assumes "parser_state p = State_PathStart" "buffer p = []" "cx_state_override cx = None" "the_encoder p = utf8_encoder"
    "iterator p = path_text ps @ tail_text q f" "list_all (segment_ok (is_special (the_url p))) ps"
    "drive_letter_normalized ((the_url p)\<lparr>url_paths := ps\<rparr>)" "is_special (the_url p) \<longrightarrow> ps \<noteq> []"
    "tail_ok (is_special (the_url p)) q f" "no_tail (the_url p)"
  shows "basic_parse_loop cx p = parsed ((the_url p)\<lparr>url_paths := ps, url_query := q, url_fragment := f\<rparr>)"
proof (cases ps)
  case (Cons s ss)
  let ?rest = "s @ path_text ss @ tail_text q f"
  have "basic_parse_loop cx p = basic_parse_loop cx (p\<lparr>parser_state := State_Path, iterator := ?rest\<rparr>)"
    using assms Cons path_start_slash [of cx p]
    by (subst loop_Break [where b = "CHR ''/''" and it = ?rest and it' = ?rest and q = "p\<lparr>parser_state := State_Path\<rparr>"])
      (simp_all add: utf8_ascii_Cons)
  also have "\<dots> = parsed ((the_url p)\<lparr>url_paths := ps, url_query := q, url_fragment := f\<rparr>)"
    using assms Cons by (subst parse_path [where s = s and ss = ss and q = q and f = f]) (simp_all add: no_tail_def)
  finally show ?thesis .
next
  case Nil
  then have "\<not> is_special (the_url p)" using assms by simp
  note steps = path_start_tail [OF this assms(3)]
  have u: "url_paths (the_url p) = []" "url_query (the_url p) = None" "url_fragment (the_url p) = None"
    using assms(10) by (simp_all add: no_tail_def)
  have same: "(the_url p)\<lparr>url_paths := []\<rparr> = the_url p" using u(1) by (cases "the_url p") simp
  show ?thesis
  proof (cases q f rule: tail_text_cases [case_names none fragment query])
    case none
    then show ?thesis
      using assms Nil steps u same
      by (subst loop_finish [where q = p]) (simp_all add: finish_parse_def Let_def)
  next
    case (fragment g)
    then show ?thesis
      using assms Nil steps u same
      by (subst loop_Break [where b = "CHR ''#''" and it = g and it' = g and
            q = "p\<lparr>the_url := (the_url p)\<lparr>url_fragment := Some []\<rparr>, parser_state := State_Fragment\<rparr>"])
        (simp_all add: utf8_ascii_Cons parse_fragment tail_ok_def)
  next
    case (query r)
    then show ?thesis
      using assms Nil steps u same
      by (subst loop_Break [where b = "CHR ''?''" and it = "r @ fragment_text f" and it' = "r @ fragment_text f" and
            q = "p\<lparr>the_url := (the_url p)\<lparr>url_query := Some []\<rparr>, parser_state := State_Query\<rparr>"])
        (simp_all add: utf8_ascii_Cons parse_query)
  qed
qed

lemma opaque_path_byte:
  assumes "b \<in> set s" "opaque_path_bytes s" "url_paths (the_url p) = [[]]"
  shows "cannot_be_a_base_url_path_state cx p (ord_of b) = Break (p\<lparr>buffer := buffer p @ [b]\<rparr>)"
proof -
  have enc: "encoded_by C0Control s" and sep: "b \<noteq> CHR ''?''" "b \<noteq> CHR ''#''"
    using assms(1,2) by (auto simp: opaque_path_bytes_def)
  have small: "ord_of b < 128" using encoded_by_ascii [OF enc] assms(1) by (simp add: list_all_iff)
  have "append_percent_encoded_if_necessary (buffer p) (ord_of b) C0Control = Some (buffer p @ [b])"
    using encoded_by_not_in_set [OF enc assms(1)] small
    by (simp add: append_percent_encoded_if_necessary_def append_code_point_ascii)
  then show ?thesis
    using sep small assms(3) by (simp add: cannot_be_a_base_url_path_state_def separator_byte byte_not_end_of_file)
qed

lemma parse_opaque_path:
  assumes "parser_state p = State_CannotBeABaseUrlPath" "buffer p = []" "cx_state_override cx = None"
    "the_encoder p = utf8_encoder" "iterator p = s @ tail_text q f" "opaque_path_bytes s" "url_paths (the_url p) = [[]]"
    "tail_ok (is_special (the_url p)) q f" "url_query (the_url p) = None" "url_fragment (the_url p) = None"
  shows "basic_parse_loop cx p = parsed ((the_url p)\<lparr>url_paths := [s], url_query := q, url_fragment := f\<rparr>)"
proof -
  have "ascii_bytes s" using assms(6) encoded_by_ascii by (auto simp: opaque_path_bytes_def)
  then have run: "basic_parse_loop cx p = basic_parse_loop cx (p\<lparr>buffer := s, iterator := tail_text q f\<rparr>)"
    using assms opaque_path_byte [of _ s _ cx] by (subst loop_append [of s p cx "tail_text q f"]) simp_all
  show ?thesis
  proof (cases q f rule: tail_text_cases [case_names none fragment query])
    case none
    then show ?thesis
      unfolding run using assms
      by (subst loop_finish [where q = "p\<lparr>the_url := (the_url p)\<lparr>url_paths := [s]\<rparr>, buffer := [], iterator := []\<rparr>"])
        (simp_all add: cannot_be_a_base_url_path_state_def finish_parse_def Let_def end_of_file_def)
  next
    case (fragment g)
    then show ?thesis
      unfolding run using assms
      by (subst loop_Break [where b = "CHR ''#''" and it = g and it' = g and
            q = "p\<lparr>the_url := (the_url p)\<lparr>url_paths := [s], url_fragment := Some []\<rparr>, buffer := [],
                   parser_state := State_Fragment, iterator := CHR ''#'' # g\<rparr>"])
        (simp_all add: cannot_be_a_base_url_path_state_def utf8_ascii_Cons parse_fragment tail_ok_def)
  next
    case (query r)
    then show ?thesis
      unfolding run using assms
      by (subst loop_Break [where b = "CHR ''?''" and it = "r @ fragment_text f" and it' = "r @ fragment_text f" and
            q = "p\<lparr>the_url := (the_url p)\<lparr>url_paths := [s], url_query := Some []\<rparr>, buffer := [],
                   parser_state := State_Query, iterator := CHR ''?'' # r @ fragment_text f\<rparr>"])
        (simp_all add: cannot_be_a_base_url_path_state_def utf8_ascii_Cons parse_query)
  qed
qed

subsection \<open>Host and port\<close>

definition authority_byte :: "char \<Rightarrow> bool" where
  "authority_byte b \<longleftrightarrow> 0x20 < ord_of b \<and> ord_of b < 0x7F \<and> b \<notin> {CHR ''/'', CHR ''?'', CHR ''#'', CHR ''@'', CHR 0x5C}"

definition host_byte :: "char \<Rightarrow> bool" where
  "host_byte b \<longleftrightarrow> authority_byte b \<and> b \<noteq> CHR ''['' \<and> b \<noteq> CHR '']''"

lemma host_byteI:
  assumes "0x20 < ord_of b" "ord_of b < 0x80" "ord_of b \<notin> {35, 47, 63, 64, 91, 92, 93, 127}"
  shows "host_byte b"
  using assms by (auto simp: host_byte_def authority_byte_def)

lemma domain_to_ascii_ascii:
  assumes "idna_ok ta" "domain_to_ascii ta d False = Some r"
  shows "list_all (\<lambda>c. is_ascii (ord_of c)) r"
proof (cases "list_all (\<lambda>c. is_ascii (ord_of c)) d \<and> \<not> domain_slow_path d")
  case True
  with assms(2) have "r = to_lowercase_string d" by (auto simp: domain_to_ascii_def split: if_splits)
  then show ?thesis
    using True by (auto simp: to_lowercase_string_def list_all_iff to_ascii_lowercase_def is_ascii_def is_ascii_upper_alpha_def)
next
  case False
  with assms(2) have "ta d (domain_options False) = Some r"
    by (auto simp: domain_to_ascii_def Let_def split: if_splits option.splits)
  with assms(1) show ?thesis unfolding idna_ok_def by blast
qed

lemma host_string_bytes:
  assumes "idna_ok ta" "parse_host ta s op = Success (Host_String d)" "b \<in> set d"
  shows "host_byte b \<and> b \<noteq> CHR '':''"
proof -
  have valid: "host_valid op (Host_String d)" using assms(2) parse_host_valid by blast
  show ?thesis
  proof (cases op)
    case True
    then have "opaque_host_byte b" using valid assms(3) by (simp add: list_all_iff)
    then show ?thesis
      by (auto simp: opaque_host_byte_def is_forbidden_host_code_point_iff intro!: host_byteI)
  next
    case False
    then obtain e where "domain_to_ascii ta e False = Some d"
      using assms(2) by (auto simp: parse_host_def outcome_bind_Success split: if_splits option.splits)
    then have "is_ascii (ord_of b)" using domain_to_ascii_ascii [OF assms(1)] assms(3) by (auto simp: list_all_iff)
    moreover have "\<not> is_forbidden_domain_code_point (ord_of b)" using valid False assms(3) by (auto simp: list_ex_iff)
    ultimately show ?thesis
      by (auto simp: is_forbidden_domain_code_point_iff is_ascii_def intro!: host_byteI)
  qed
qed

lemma host_text_form:
  assumes "idna_ok ta" "parse_host ta s op = Success h"
  obtains (plain) "\<forall>b\<in>set (serialize_host h). host_byte b \<and> b \<noteq> CHR '':''"
  | (brackets) t where "serialize_host h = CHR ''['' # t @ '']''" "\<forall>b\<in>set t. host_byte b"
proof (cases h)
  case (Host_IPv4 a)
  have "host_byte b \<and> b \<noteq> CHR '':''" if "b \<in> set (serialize_ipv4_address a)" for b
    using serialize_ipv4_chars [OF that] by (auto simp: is_ascii_digit_def host_byte_def authority_byte_def)
  then show thesis using plain Host_IPv4 by simp
next
  case (Host_IPv6 a)
  have "host_valid op h" using assms(2) parse_host_valid by blast
  then have a: "length a = 8" using Host_IPv6 by simp
  have "serialize_host h = CHR ''['' # serialize_ipv6_address a [] @ '']''"
    unfolding Host_IPv6 by (simp add: serialize_ipv6_address_def) (subst serialize_ipv6_loop_output, simp)
  moreover have "host_byte b" if "b \<in> set (serialize_ipv6_address a [])" for b
    using serialize_ipv6_chars [OF a that]
    by (auto simp: class_defs host_byte_def authority_byte_def)
  ultimately show thesis using brackets by blast
next
  case (Host_String d)
  then show thesis using plain host_string_bytes [OF assms(1)] assms(2) by simp
next
  case Host_Empty
  then show thesis using plain by simp
qed

lemma host_state_byte:
  assumes "host_byte b" "b = CHR '':'' \<longrightarrow> inside_brackets p" "cx_state_override cx = None"
  shows "host_state cx p (ord_of b) = Break (p\<lparr>buffer := buffer p @ [b]\<rparr>)"
proof -
  have "\<not> ends_authority (the_url p) (ord_of b)" "ord_of b < 128"
    using assms(1) by (auto simp: host_byte_def authority_byte_def ends_authority_def separator_byte end_of_file_def)
  moreover have "p\<lparr>inside_brackets := inside_brackets p, buffer := c\<rparr> = p\<lparr>buffer := c\<rparr>" for c by (cases p) simp
  ultimately show ?thesis
    using assms by (auto simp: host_state_def separator_byte append_code_point_ascii host_byte_def)
qed

lemma host_state_bracket:
  assumes "cx_state_override cx = None"
  shows "host_state cx p (ord_of CHR ''['') = Break (p\<lparr>inside_brackets := True, buffer := buffer p @ ''[''\<rparr>)"
    "host_state cx p (ord_of CHR '']'') = Break (p\<lparr>inside_brackets := False, buffer := buffer p @ '']''\<rparr>)"
  using assms append_code_point_ascii [of "CHR ''[''" "buffer p"] append_code_point_ascii [of "CHR '']''" "buffer p"]
  by (simp_all add: host_state_def ends_authority_def end_of_file_def)

definition port_text :: "u16 option \<Rightarrow> bytes" where
  "port_text port = (case port of Some n \<Rightarrow> '':'' @ format_dec (unat n) | None \<Rightarrow> [])"

text \<open>What follows an authority in a serialized URL.\<close>

definition after_authority :: "bytes \<Rightarrow> bool" where
  "after_authority rest \<longleftrightarrow> rest = [] \<or> hd rest \<in> {CHR ''/'', CHR ''?'', CHR ''#''}"

lemma after_authority_ends: "after_authority rest \<Longrightarrow> ends_authority u (code_point_at rest)"
  by (cases rest) (auto simp: after_authority_def ends_authority_def code_point_at_ascii)

lemma after_authority_path: "after_authority (path_text ps @ tail_text q f)"
  by (cases ps; cases q f rule: tail_text_cases) (simp_all add: after_authority_def)

lemma convert_to_uint_format_dec:
  assumes "v \<le> limit"
  shows "convert_to_uint limit (format_dec v) True = Some v"
proof -
  have "trim_whitespace (format_dec v) TrimBoth = format_dec v"
    by (rule trim_whitespace_alphanumeric)
      (use format_dec_digits_dec digits_alphanumeric in \<open>auto simp: list_all_iff\<close>)
  then show ?thesis
    using assms format_dec_value [of v] format_dec_digits_dec [of v]
    by (simp add: convert_to_uint_def uint_loop_Some radix_value_def)
qed

lemma port_state_digit:
  assumes "is_ascii_digit (ord_of b)"
  shows "port_state cx p (ord_of b) = Break (p\<lparr>buffer := buffer p @ [b]\<rparr>)"
  using assms append_code_point_ascii [of b] by (simp add: port_state_def is_ascii_digit_def)

lemma not_digit_after_authority:
  "after_authority rest \<Longrightarrow> \<not> is_ascii_digit (code_point_at rest)"
  "after_authority rest \<Longrightarrow> code_point_at rest \<noteq> 58" "after_authority rest \<Longrightarrow> code_point_at rest \<noteq> 64"
  by (cases rest; auto simp: after_authority_def code_point_at_ascii is_ascii_digit_def end_of_file_def)+

lemma parser_buffer_same: "buffer p = b \<Longrightarrow> p\<lparr>buffer := b\<rparr> = (p :: parser)"
  by (cases p) simp

lemma parse_port:
  assumes "parser_state p = State_Port" "buffer p = []" "cx_state_override cx = None"
    "iterator p = (case port of Some n \<Rightarrow> format_dec (unat n) | None \<Rightarrow> []) @ rest" "after_authority rest"
    "url_port (the_url p) = None" "port \<noteq> None \<longrightarrow> port \<noteq> default_port_for_scheme (url_scheme (the_url p))"
  shows "basic_parse_loop cx p =
    basic_parse_loop cx (p\<lparr>the_url := (the_url p)\<lparr>url_port := port\<rparr>, parser_state := State_PathStart, iterator := rest\<rparr>)"
proof (cases port)
  case None
  moreover have "(the_url p)\<lparr>url_port := None\<rparr> = the_url p" using assms(6) by (cases "the_url p") simp
  moreover have "p\<lparr>the_url := the_url p, parser_state := State_PathStart, iterator := iterator p\<rparr> = p\<lparr>parser_state := State_PathStart\<rparr>"
    by (cases p) simp
  ultimately show ?thesis
    using assms after_authority_ends [OF assms(5)] not_digit_after_authority [OF assms(5)]
    by (subst loop_Continue) (auto simp: port_state_def)
next
  case (Some n)
  let ?t = "format_dec (unat n)"
  have digit: "is_ascii_digit (ord_of b)" if "b \<in> set ?t" for b
    using that by (rule format_dec_digit)
  then have ascii: "ascii_bytes ?t" by (auto simp: list_all_iff is_ascii_digit_def dest: digit)
  have run: "basic_parse_loop cx p = basic_parse_loop cx (p\<lparr>buffer := ?t, iterator := rest\<rparr>)"
    using assms Some digit ascii port_state_digit by (subst loop_append [of ?t p cx rest]) simp_all
  have conv: "convert_to_uint 65535 ?t True = Some (unat n)"
    using unsigned_less [of n, where 'a = nat] by (intro convert_to_uint_format_dec) simp
  have port: "default_port_for_scheme (url_scheme (the_url p)) \<noteq> Some n" using assms(7) Some by auto
  show ?thesis
    unfolding run
    using assms Some conv port after_authority_ends [OF assms(5), of "the_url p"] not_digit_after_authority [OF assms(5)]
    by (subst loop_Continue [where q = "p\<lparr>the_url := (the_url p)\<lparr>url_port := Some n\<rparr>, buffer := [],
          parser_state := State_PathStart, iterator := rest\<rparr>"]) (auto simp: port_state_def Let_def parser_buffer_same)
qed

lemma host_bytes_ascii: "\<forall>b\<in>set t. host_byte b \<Longrightarrow> ascii_bytes t"
  by (auto simp: list_all_iff host_byte_def authority_byte_def dest!: bspec)

lemma parse_host_text:
  assumes "parser_state p = State_Host" "buffer p = []" "\<not> inside_brackets p" "cx_state_override cx = None"
    "iterator p = serialize_host h @ rest" "idna_ok ta" "parse_host ta s op = Success h"
  shows "basic_parse_loop cx p = basic_parse_loop cx (p\<lparr>buffer := serialize_host h, iterator := rest\<rparr>)"
  using assms(6,7)
proof (cases rule: host_text_form)
  case plain
  then have "ascii_bytes (serialize_host h)" by (intro host_bytes_ascii) blast
  then show ?thesis
    using assms plain host_state_byte by (subst loop_append [of "serialize_host h" p cx rest]) simp_all
next
  case (brackets t)
  let ?p = "p\<lparr>inside_brackets := True, buffer := ''[''\<rparr>"
  have "basic_parse_loop cx p = basic_parse_loop cx (?p\<lparr>iterator := t @ CHR '']'' # rest\<rparr>)"
    using assms brackets host_state_bracket(1) [OF assms(4), of p]
    by (subst loop_Break [where b = "CHR ''[''" and it = "t @ CHR '']'' # rest" and it' = "t @ CHR '']'' # rest" and q = ?p])
      (simp_all add: utf8_ascii_Cons)
  also have "\<dots> = basic_parse_loop cx (?p\<lparr>buffer := ''['' @ t, iterator := CHR '']'' # rest\<rparr>)"
    using assms brackets host_state_byte host_bytes_ascii [OF brackets(2)]
    by (subst loop_append [of t "?p\<lparr>iterator := t @ CHR '']'' # rest\<rparr>" cx "CHR '']'' # rest"]) simp_all
  also have "\<dots> = basic_parse_loop cx (p\<lparr>inside_brackets := False, buffer := serialize_host h, iterator := rest\<rparr>)"
    using assms brackets host_state_bracket(2) [OF assms(4)]
    by (subst loop_Break [where b = "CHR '']''" and it = rest and it' = rest and
          q = "p\<lparr>inside_brackets := False, buffer := serialize_host h, iterator := CHR '']'' # rest\<rparr>"])
      (simp_all add: utf8_ascii_Cons)
  also have "p\<lparr>inside_brackets := False, buffer := serialize_host h, iterator := rest\<rparr>
      = p\<lparr>buffer := serialize_host h, iterator := rest\<rparr>"
    using assms(3) by (cases p) simp
  finally show ?thesis .
qed

lemma host_text_nonempty: "host_nonempty h \<Longrightarrow> serialize_host h \<noteq> []"
  by (cases h) (simp_all add: host_nonempty_def serialize_ipv4_address_join ipv4_octets_def)

lemma parse_host_port:
  assumes "parser_state p = State_Host" "buffer p = []" "\<not> inside_brackets p" "cx_state_override cx = None"
    "iterator p = serialize_host h @ port_text port @ rest" "after_authority rest" "idna_ok (cx_idna cx)"
    "host_parsed (cx_idna cx) (is_special (the_url p)) h" "is_special (the_url p) \<or> port \<noteq> None \<longrightarrow> host_nonempty h"
    "url_port (the_url p) = None" "port \<noteq> None \<longrightarrow> port \<noteq> default_port_for_scheme (url_scheme (the_url p))"
  shows "basic_parse_loop cx p = basic_parse_loop cx
    (p\<lparr>the_url := (the_url p)\<lparr>url_host := h, url_port := port\<rparr>, parser_state := State_PathStart, iterator := rest\<rparr>)"
proof -
  let ?op = "\<not> is_special (the_url p)" and ?text = "serialize_host h"
  obtain s where s: "parse_host (cx_idna cx) s ?op = Success h" using assms(8) by (auto simp: host_parsed_def)
  have again: "parse_host (cx_idna cx) ?text ?op = Success h" by (rule parse_serialize_host [OF assms(7) s])
  let ?q = "p\<lparr>the_url := (the_url p)\<lparr>url_host := h\<rparr>, parser_state := State_Port, iterator := drop 1 (port_text port) @ rest\<rparr>"
  have run: "basic_parse_loop cx p = basic_parse_loop cx (p\<lparr>buffer := ?text, iterator := port_text port @ rest\<rparr>)"
    using assms(1-5,7) s by (rule parse_host_text)
  also have "\<dots> = basic_parse_loop cx ?q"
  proof (cases port)
    case None
    then show ?thesis
      using assms again host_text_nonempty [of h] after_authority_ends [OF assms(6), of "the_url p"]
        not_digit_after_authority(2) [OF assms(6)]
      by (subst loop_Continue [where q = ?q]) (auto simp: port_text_def host_state_def Let_def parser_buffer_same)
  next
    case (Some n)
    then show ?thesis
      using assms again host_text_nonempty [of h]
      by (subst loop_Break [where b = "CHR '':''" and it = "format_dec (unat n) @ rest" and it' = "format_dec (unat n) @ rest" and
            q = "?q\<lparr>iterator := port_text port @ rest\<rparr>"])
        (auto simp: port_text_def host_state_def utf8_ascii_Cons parser_buffer_same)
  qed
  also have "\<dots> = basic_parse_loop cx
      (p\<lparr>the_url := (the_url p)\<lparr>url_host := h, url_port := port\<rparr>, parser_state := State_PathStart, iterator := rest\<rparr>)"
    using assms by (subst parse_port [where port = port and rest = rest]) (auto simp: port_text_def split: option.splits)
  finally show ?thesis .
qed

subsection \<open>Authority\<close>

lemma utf8_encode_all_ascii: "ascii_bytes s \<Longrightarrow> utf8_encode_all (map ord_of s) = s"
  by (induction s) (simp_all add: utf8_encode_ascii)

lemma authority_rewind_ascii:
  assumes "cx_input cx = pre @ sep # buf @ rest" "ascii_bytes (cx_input cx)" "length (cx_input cx) < 2 ^ 64"
    "buffer p = buf" "iterator p = rest"
  shows "iterator_at_byte_offset (cx_input cx) (authority_rewind_offset cx p) = sep # buf @ rest"
proof -
  have ascii: "ascii_bytes pre" "ord_of sep < 128" "ascii_bytes buf" "ascii_bytes rest" using assms(1,2) by simp_all
  have "code_points (map ord_of s)" if "ascii_bytes s" for s
    using that by (auto simp: code_points_def list_all_iff)
  then have "positioned cx (iterator p) (map ord_of pre @ ord_of sep # map ord_of buf) (map ord_of rest)"
    using ascii assms by (simp add: positioned_def code_points_def utf8_encode_all_ascii utf8_encode_ascii del: map_map)
  from authority_rewind [OF this, of] show ?thesis
    using ascii assms by (simp add: utf8_encode_all_ascii utf8_encode_ascii del: map_map)
qed

lemma authority_state_byte:
  assumes "authority_byte b"
  shows "authority_state cx p (ord_of b) = Break (p\<lparr>buffer := buffer p @ [b]\<rparr>)"
  using assms append_code_point_ascii [of b]
  by (auto simp: authority_state_def authority_byte_def ends_authority_def separator_byte end_of_file_def)

lemma authority_bytes_ascii: "\<forall>b\<in>set t. authority_byte b \<Longrightarrow> ascii_bytes t"
  by (auto simp: list_all_iff authority_byte_def dest!: bspec)

lemma parse_authority_end:
  assumes "parser_state p = State_Authority" "buffer p = []" "iterator p = t @ rest" "\<forall>b\<in>set t. authority_byte b"
    "after_authority rest" "cx_input cx = pre @ sep # t @ rest" "ascii_bytes (cx_input cx)" "length (cx_input cx) < 2 ^ 64"
    "at_sign_seen p \<longrightarrow> t \<noteq> []"
  shows "basic_parse_loop cx p = basic_parse_loop cx (p\<lparr>parser_state := State_Host, iterator := t @ rest\<rparr>)"
proof -
  have run: "basic_parse_loop cx p = basic_parse_loop cx (p\<lparr>buffer := t, iterator := rest\<rparr>)"
    using assms authority_bytes_ascii [OF assms(4)] authority_state_byte
    by (subst loop_append [of t p cx rest]) simp_all
  let ?p = "p\<lparr>buffer := t, iterator := rest\<rparr>"
  have "iterator_at_byte_offset (cx_input cx) (authority_rewind_offset cx ?p) = sep # t @ rest"
    using assms by (intro authority_rewind_ascii) simp_all
  moreover have "ord_of sep < 128" using assms(6,7) by simp
  ultimately show ?thesis
    unfolding run
    using assms after_authority_ends [OF assms(5), of "the_url p"] not_digit_after_authority(3) [OF assms(5)]
    by (subst basic_parse_loop.simps) (auto simp: basic_parse_step_def authority_state_def utf8_ascii_Cons parser_buffer_same)
qed

text \<open>Credentials.\<close>

lemma append_userinfo_byte:
  assumes "encoded_by Userinfo s" "b \<in> set s"
  shows "append_percent_encoded_if_necessary t (ord_of b) Userinfo = Some (t @ [b])" "b \<noteq> CHR '':''" "authority_byte b"
proof -
  have "\<not> code_point_is_in_percent_encode_set (ord_of b) Userinfo" using encoded_by_not_in_set [OF assms] by simp
  moreover have "ord_of b < 128" using encoded_by_ascii [OF assms(1)] assms(2) by (simp add: list_all_iff)
  moreover have "b \<noteq> CHR '' '' \<longrightarrow> ord_of b \<noteq> 32" by (simp add: char_eq_iff_ord)
  ultimately show "append_percent_encoded_if_necessary t (ord_of b) Userinfo = Some (t @ [b])" "b \<noteq> CHR '':''" "authority_byte b"
    by (auto simp: append_percent_encoded_if_necessary_def append_code_point_ascii encode_set_byte authority_byte_def)
qed

lemma credentials_loop_password:
  assumes "encoded_by Userinfo (s @ pb)" "url_password u = []"
  shows "credentials_loop u (map ord_of s) True ub pb = Some (True, ub, pb @ s)"
  using assms
proof (induction s arbitrary: pb)
  case (Cons b s)
  have "append_percent_encoded_if_necessary t (ord_of b) Userinfo = Some (t @ [b])" for t
    using append_userinfo_byte(1) [OF Cons(2), of b] by simp
  moreover have "encoded_by Userinfo (s @ (pb @ [b]))" using Cons(2) by (simp add: encoded_by_def)
  ultimately show ?case using Cons(1) [of "pb @ [b]"] Cons(3) by (cases "pb = []") simp_all
qed simp

lemma credentials_loop_username:
  assumes "encoded_by Userinfo (s @ ub)" "url_username u = []"
  shows "credentials_loop u (map ord_of s @ cs) False ub [] = credentials_loop u cs False (ub @ s) []"
  using assms
proof (induction s arbitrary: ub)
  case (Cons b s)
  have "append_percent_encoded_if_necessary t (ord_of b) Userinfo = Some (t @ [b])" "ord_of b \<noteq> 58" for t
    using append_userinfo_byte [OF Cons(2), of b] by (simp_all add: separator_byte)
  moreover have "encoded_by Userinfo (s @ (ub @ [b]))" using Cons(2) by (simp add: encoded_by_def)
  ultimately show ?case using Cons(1) [of "ub @ [b]"] Cons(3) by (cases "ub = []") simp_all
qed simp

definition credentials_text :: "bytes \<Rightarrow> bytes \<Rightarrow> bytes" where
  "credentials_text username password =
     (if username \<noteq> [] \<or> password \<noteq> [] then username @ (if password \<noteq> [] then '':'' @ password else []) @ ''@'' else [])"

lemma authority_at_sign_credentials:
  assumes "buffer p = username @ (if password \<noteq> [] then '':'' @ password else [])" "\<not> at_sign_seen p" "\<not> password_token_seen p"
    "url_username (the_url p) = []" "url_password (the_url p) = []" "encoded_by Userinfo username" "encoded_by Userinfo password"
  shows "\<exists>seen. authority_at_sign p = Break (p\<lparr>the_url := (the_url p)\<lparr>url_username := username, url_password := password\<rparr>,
    buffer := [], at_sign_seen := True, password_token_seen := seen\<rparr>)"
proof -
  have "ascii_bytes (buffer p)" using assms(1) encoded_by_ascii [OF assms(6)] encoded_by_ascii [OF assms(7)] by simp
  then have decode: "utf8_decode (buffer p) = map ord_of (buffer p)" by (rule utf8_decode_ascii)
  have same: "(the_url p)\<lparr>url_username := []\<rparr> = the_url p" using assms(4) by (cases "the_url p") simp
  have same': "v\<lparr>url_password := []\<rparr> = v" if "url_password v = []" for v :: url using that by (cases v) simp
  obtain seen where "credentials_loop (the_url p) (map ord_of (buffer p)) False [] [] = Some (seen, username, password)"
  proof (cases "password = []")
    case True
    then have "credentials_loop (the_url p) (map ord_of (buffer p)) False [] [] = Some (False, username, password)"
      using credentials_loop_username [of username "[]" "the_url p" "[]"] assms by simp
    then show thesis by (rule that)
  next
    case False
    then have "credentials_loop (the_url p) (map ord_of (buffer p)) False [] [] = Some (True, username, password)"
      using credentials_loop_username [of username "[]" "the_url p" "map ord_of ('':'' @ password)"]
        credentials_loop_password [of password "[]" "the_url p" username] assms by simp
    then show thesis by (rule that)
  qed
  then show ?thesis
    using assms decode same same'
    by (intro exI [of _ seen]) (auto simp: authority_at_sign_def Let_def)
qed

lemma parse_credentials:
  assumes "parser_state p = State_Authority" "buffer p = []" "iterator p = credentials_text username password @ rest"
    "\<not> at_sign_seen p" "\<not> password_token_seen p" "url_username (the_url p) = []" "url_password (the_url p) = []"
    "encoded_by Userinfo username" "encoded_by Userinfo password"
  shows "\<exists>seen. basic_parse_loop cx p = basic_parse_loop cx
    (p\<lparr>the_url := (the_url p)\<lparr>url_username := username, url_password := password\<rparr>,
       at_sign_seen := (username \<noteq> [] \<or> password \<noteq> []), password_token_seen := seen, iterator := rest\<rparr>)"
proof (cases "username \<noteq> [] \<or> password \<noteq> []")
  case True
  let ?t = "username @ (if password \<noteq> [] then '':'' @ password else [])"
  have bytes: "\<forall>b\<in>set ?t. authority_byte b"
    using append_userinfo_byte(3) assms(8,9) by (auto simp: authority_byte_def)
  have run: "basic_parse_loop cx p = basic_parse_loop cx (p\<lparr>buffer := ?t, iterator := CHR ''@'' # rest\<rparr>)"
    using assms True authority_bytes_ascii [OF bytes] authority_state_byte bytes
    by (subst loop_append [of ?t p cx "CHR ''@'' # rest"]) (simp_all add: credentials_text_def)
  obtain seen where at: "authority_at_sign (p\<lparr>buffer := ?t, iterator := CHR ''@'' # rest\<rparr>) =
      Break (p\<lparr>iterator := CHR ''@'' # rest, the_url := (the_url p)\<lparr>url_username := username, url_password := password\<rparr>,
        buffer := [], at_sign_seen := True, password_token_seen := seen\<rparr>)"
    using authority_at_sign_credentials [of "p\<lparr>buffer := ?t, iterator := CHR ''@'' # rest\<rparr>" username password] assms by auto
  have "basic_parse_loop cx p = basic_parse_loop cx
    (p\<lparr>the_url := (the_url p)\<lparr>url_username := username, url_password := password\<rparr>,
       at_sign_seen := True, password_token_seen := seen, iterator := rest\<rparr>)"
    unfolding run using assms at
    by (subst loop_Break [where b = "CHR ''@''" and it = rest and it' = rest and
        q = "p\<lparr>iterator := CHR ''@'' # rest, the_url := (the_url p)\<lparr>url_username := username, url_password := password\<rparr>,
          buffer := [], at_sign_seen := True, password_token_seen := seen\<rparr>"])
      (simp_all add: authority_state_def utf8_ascii_Cons parser_buffer_same)
  then show ?thesis using True by auto
next
  case False
  then have "p\<lparr>the_url := (the_url p)\<lparr>url_username := username, url_password := password\<rparr>,
       at_sign_seen := (username \<noteq> [] \<or> password \<noteq> []), password_token_seen := False, iterator := rest\<rparr> = p"
    using assms by (cases p; cases "the_url p") (simp add: credentials_text_def)
  then show ?thesis by metis
qed

lemma authority_text_bytes:
  assumes "idna_ok ta" "parse_host ta s op = Success h"
  shows "\<forall>b\<in>set (serialize_host h @ port_text port). authority_byte b"
proof -
  have "\<forall>b\<in>set (serialize_host h). authority_byte b"
    using assms by (cases rule: host_text_form) (auto simp: host_byte_def authority_byte_def)
  moreover have "authority_byte b" if "is_ascii_digit (ord_of b)" for b
    using that by (auto simp: is_ascii_digit_def authority_byte_def)
  then have "\<forall>b\<in>set (port_text port). authority_byte b"
    using format_dec_digit by (auto simp: port_text_def authority_byte_def split: option.splits)
  ultimately show ?thesis by auto
qed

text \<open>The record that the parser builds up from the scheme.\<close>

definition scheme_only :: "url \<Rightarrow> url" where
  "scheme_only w = empty_url\<lparr>url_scheme := url_scheme w\<rparr>"

definition complete :: "url \<Rightarrow> bool" where
  "complete w \<longleftrightarrow> url_valid w \<and> url_blob_url_entry w = None"

lemma scheme_only_simps [simp]:
  "url_scheme (scheme_only w) = url_scheme w" "is_special (scheme_only w) = is_special w" "blank (scheme_only w)"
  "url_port (scheme_only w) = None" "url_username (scheme_only w) = []" "url_password (scheme_only w) = []"
  "url_paths (scheme_only w) = []" "\<not> url_cannot_be_a_base_url (scheme_only w)" "no_tail (scheme_only w)"
  by (simp_all add: scheme_only_def empty_url_def is_special_def blank_def no_tail_def)

lemma scheme_only_complete:
  assumes "complete w" "\<not> url_cannot_be_a_base_url w"
  shows "(scheme_only w)\<lparr>url_username := url_username w, url_password := url_password w, url_host := url_host w,
    url_port := url_port w, url_paths := url_paths w, url_query := url_query w, url_fragment := url_fragment w,
    url_valid := True\<rparr> = w"
  using assms by (cases w) (simp add: scheme_only_def complete_def empty_url_def)

lemma scheme_only_host:
  assumes "complete w" "\<not> url_cannot_be_a_base_url w" "url_username w = []" "url_password w = []" "url_port w = None"
  shows "(scheme_only w)\<lparr>url_host := url_host w, url_paths := url_paths w, url_query := url_query w,
    url_fragment := url_fragment w, url_valid := True\<rparr> = w"
  using assms by (cases w) (simp add: scheme_only_def complete_def empty_url_def)

lemma canonical_tail_ok: "url_canonical idna w \<Longrightarrow> tail_ok (is_special w) (url_query w) (url_fragment w)"
  by (simp add: url_canonical_def url_ok_def tail_ok_def)

lemma canonical_segments:
  assumes "url_canonical idna w" "\<not> url_cannot_be_a_base_url w"
  shows "list_all (segment_ok (is_special w)) (url_paths w)" "drive_letter_normalized w"
    "is_special w \<or> url_host w = Host_Empty \<longrightarrow> url_paths w \<noteq> []"
  using assms by (simp_all add: url_canonical_def url_ok_def path_ok_def tail_canonical_def)

lemma parse_authority:
  assumes "parser_state p = State_Authority" "buffer p = []" "\<not> at_sign_seen p" "\<not> password_token_seen p"
    "\<not> inside_brackets p" "the_encoder p = utf8_encoder" "the_url p = scheme_only w"
    and input: "iterator p = credentials_text (url_username w) (url_password w) @ serialize_host (url_host w)
      @ port_text (url_port w) @ path_text (url_paths w) @ tail_text (url_query w) (url_fragment w)"
      "cx_input cx = pre @ sep # iterator p" "ascii_bytes (cx_input cx)" "length (cx_input cx) < 2 ^ 64"
    and cx: "cx_state_override cx = None" "idna_ok (cx_idna cx)"
    and w: "url_canonical (cx_idna cx) w" "complete w" "url_scheme w \<noteq> ''file''" "\<not> url_cannot_be_a_base_url w"
      "url_host w \<noteq> Host_Empty"
  shows "basic_parse_loop cx p = Some (w, w)"
proof -
  let ?hp = "serialize_host (url_host w) @ port_text (url_port w)"
  let ?rest = "path_text (url_paths w) @ tail_text (url_query w) (url_fragment w)"
  have head: "head_canonical (cx_idna cx) w" and ok: "head_ok w" using w(1) by (simp_all add: url_canonical_def url_ok_def)
  have parsed: "host_parsed (cx_idna cx) (is_special w) (url_host w)"
  proof (cases "url_host w = Host_String []")
    case True
    then have "\<not> is_special w" using head w(3) by (auto simp: head_canonical_def host_nonempty_def)
    then have "parse_host (cx_idna cx) [] (\<not> is_special w) = Success (url_host w)"
      using True by (simp add: parse_host_def parse_opaque_host_fixpoint)
    then show ?thesis unfolding host_parsed_def by blast
  next
    case False
    then show ?thesis using head w(5) by (auto simp: head_canonical_def)
  qed
  then obtain s where s: "parse_host (cx_idna cx) s (\<not> is_special w) = Success (url_host w)" by (auto simp: host_parsed_def)
  have nonempty: "host_nonempty (url_host w)" if "url_port w \<noteq> None \<or> is_special w \<or> url_username w \<noteq> [] \<or> url_password w \<noteq> []"
    using that head w(3) by (auto simp: head_canonical_def includes_credentials_def)
  obtain seen where run: "basic_parse_loop cx p = basic_parse_loop cx (p\<lparr>the_url := (the_url p)\<lparr>url_username := url_username w,
      url_password := url_password w\<rparr>, at_sign_seen := (url_username w \<noteq> [] \<or> url_password w \<noteq> []),
      password_token_seen := seen, iterator := ?hp @ ?rest\<rparr>)" (is "_ = basic_parse_loop cx ?q")
    using parse_credentials [of p "url_username w" "url_password w" "?hp @ ?rest" cx] assms(1-7) input(1) ok
    by (auto simp: head_ok_def)
  obtain pre' sep' where pre: "cx_input cx = pre' @ sep' # ?hp @ ?rest"
  proof (cases "url_username w \<noteq> [] \<or> url_password w \<noteq> []")
    case True
    then have "cx_input cx = (pre @ sep # url_username w @ (if url_password w \<noteq> [] then '':'' @ url_password w else []))
        @ CHR ''@'' # ?hp @ ?rest"
      using input by (simp add: credentials_text_def)
    then show thesis by (rule that)
  next
    case False
    then show thesis using input that [of pre sep] by (simp add: credentials_text_def)
  qed
  have "basic_parse_loop cx ?q = basic_parse_loop cx (?q\<lparr>parser_state := State_Host, iterator := ?hp @ ?rest\<rparr>)"
    using assms(1,2) pre input(3,4) authority_text_bytes [OF cx(2) s] after_authority_path host_text_nonempty nonempty
    by (intro parse_authority_end [where pre = pre' and sep = sep']) auto
  also have "\<dots> = basic_parse_loop cx (?q\<lparr>the_url := (the_url ?q)\<lparr>url_host := url_host w, url_port := url_port w\<rparr>,
      parser_state := State_PathStart, iterator := ?rest\<rparr>)"
    using assms(2,5,7) cx parsed nonempty after_authority_path ok
    by (subst parse_host_port [where h = "url_host w" and port = "url_port w" and rest = ?rest]) (auto simp: head_ok_def)
  also have "\<dots> = Some (w, w)"
    using assms(2,6,7) cx canonical_segments [OF w(1,4)] canonical_tail_ok [OF w(1)] scheme_only_complete [OF w(2,4)]
    by (subst parse_path_start [where ps = "url_paths w" and q = "url_query w" and f = "url_fragment w"])
      (simp_all add: drive_letter_normalized_def)
  finally show ?thesis using run by simp
qed

subsection \<open>File URLs\<close>

lemma host_not_drive_letter:
  assumes "host_valid False h"
  shows "\<not> is_windows_drive_letter (serialize_host h)"
proof (cases h)
  case (Host_IPv4 a)
  show ?thesis
  proof
    assume drive: "is_windows_drive_letter (serialize_host h)"
    then have "serialize_ipv4_address a ! 0 \<in> set (serialize_ipv4_address a)"
      using Host_IPv4 by (auto simp: is_windows_drive_letter_def)
    from serialize_ipv4_chars [OF this] show False
      using drive Host_IPv4 by (auto simp: is_windows_drive_letter_def class_defs)
  qed
next
  case (Host_IPv6 a)
  have "serialize_host h = CHR ''['' # serialize_ipv6_address a [] @ '']''"
    unfolding Host_IPv6 by (simp add: serialize_ipv6_address_def) (subst serialize_ipv6_loop_output, simp)
  then show ?thesis by (simp add: is_windows_drive_letter_def class_defs)
next
  case (Host_String s)
  show ?thesis
  proof
    assume drive: "is_windows_drive_letter (serialize_host h)"
    then have "s ! 1 \<in> set s" "s ! 1 = CHR '':'' \<or> s ! 1 = CHR ''|''"
      using Host_String by (auto simp: is_windows_drive_letter_def)
    then show False
      using assms Host_String by (auto simp: list_ex_iff is_forbidden_domain_code_point_iff)
  qed
qed (use assms in simp)

lemma file_host_byte:
  assumes "authority_byte b"
  shows "file_host_state cx p (ord_of b) = Break (p\<lparr>buffer := buffer p @ [b]\<rparr>)"
  using assms append_code_point_ascii [of b]
  by (auto simp: file_host_state_def authority_byte_def separator_byte end_of_file_def)

lemma parse_file_host:
  assumes "parser_state p = State_FileHost" "buffer p = []" "iterator p = serialize_host h @ rest" "code_point_at rest = 47"
    "cx_state_override cx = None" "idna_ok (cx_idna cx)" "is_special (the_url p)"
    "h = Host_String [] \<or> host_parsed (cx_idna cx) True h" "h \<noteq> Host_String ''localhost''"
  shows "basic_parse_loop cx p = basic_parse_loop cx
    (p\<lparr>the_url := (the_url p)\<lparr>url_host := h\<rparr>, parser_state := State_PathStart, iterator := rest\<rparr>)"
proof (cases "h = Host_String []")
  case True
  then show ?thesis
    using assms
    by (subst loop_Continue [where q = "p\<lparr>the_url := (the_url p)\<lparr>url_host := h\<rparr>, parser_state := State_PathStart\<rparr>"])
      (auto simp: file_host_state_def is_windows_drive_letter_def parser_update_same)
next
  case False
  then obtain s where s: "parse_host (cx_idna cx) s False = Success h" using assms(8) by (auto simp: host_parsed_def)
  let ?t = "serialize_host h"
  have again: "parse_host (cx_idna cx) ?t False = Success h" by (rule parse_serialize_host [OF assms(6) s])
  have nonempty: "?t \<noteq> []" using again parse_host_valid [of "cx_idna cx" "[]" False] by auto
  have bytes: "\<forall>b\<in>set ?t. authority_byte b" using authority_text_bytes [OF assms(6) s] by simp
  have drive: "\<not> is_windows_drive_letter ?t" using s parse_host_valid host_not_drive_letter by blast
  have run: "basic_parse_loop cx p = basic_parse_loop cx (p\<lparr>buffer := ?t, iterator := rest\<rparr>)"
    using assms authority_bytes_ascii [OF bytes] file_host_byte bytes by (subst loop_append [of ?t p cx rest]) simp_all
  show ?thesis
    unfolding run using assms again nonempty drive
    by (subst loop_Continue [where q = "p\<lparr>the_url := (the_url p)\<lparr>url_host := h\<rparr>, parser_state := State_PathStart, iterator := rest\<rparr>"])
      (auto simp: file_host_state_def Let_def parser_buffer_same)
qed

lemma parse_file:
  assumes "parser_state p = State_File" "buffer p = []" "the_encoder p = utf8_encoder" "the_url p = scheme_only w"
    and input: "iterator p = ''//'' @ serialize_host (url_host w) @ path_text (url_paths w) @ tail_text (url_query w) (url_fragment w)"
    and cx: "cx_state_override cx = None" "idna_ok (cx_idna cx)"
    and w: "url_canonical (cx_idna cx) w" "complete w" "url_scheme w = ''file''" "\<not> url_cannot_be_a_base_url w"
  shows "basic_parse_loop cx p = Some (w, w)"
proof -
  let ?h = "serialize_host (url_host w)"
  let ?rest = "path_text (url_paths w) @ tail_text (url_query w) (url_fragment w)"
  let ?u = "(scheme_only w)\<lparr>url_host := Host_String []\<rparr>"
  have head: "head_canonical (cx_idna cx) w" and ok: "head_ok w" using w(1) by (simp_all add: url_canonical_def url_ok_def)
  have plain: "url_username w = []" "url_password w = []" "url_port w = None" "url_host w \<noteq> Host_Empty"
    "url_host w \<noteq> Host_String ''localhost''"
    using head w(3) by (auto simp: head_canonical_def includes_credentials_def)
  have special: "is_special w" using w(3) by (simp add: is_special_def is_special_scheme_def)
  have rest: "code_point_at ?rest = 47"
    using canonical_segments(3) [OF w(1,4)] special by (cases "url_paths w") (simp_all add: code_point_at_ascii)
  have scheme: "(scheme_only w)\<lparr>url_scheme := ''file''\<rparr> = scheme_only w" using w(3) by (simp add: scheme_only_def)
  have "basic_parse_loop cx p = basic_parse_loop cx (p\<lparr>the_url := ?u, parser_state := State_FileSlash, iterator := CHR ''/'' # ?h @ ?rest\<rparr>)"
    using assms(1,4) input scheme
    by (subst loop_Break [where b = "CHR ''/''" and it = "CHR ''/'' # ?h @ ?rest" and it' = "CHR ''/'' # ?h @ ?rest" and
          q = "p\<lparr>the_url := ?u, parser_state := State_FileSlash\<rparr>"])
      (simp_all add: file_state_def Let_def utf8_ascii_Cons)
  also have "\<dots> = basic_parse_loop cx (p\<lparr>the_url := ?u, parser_state := State_FileHost, iterator := ?h @ ?rest\<rparr>)"
    by (subst loop_Break [where b = "CHR ''/''" and it = "?h @ ?rest" and it' = "?h @ ?rest" and
          q = "p\<lparr>the_url := ?u, parser_state := State_FileHost, iterator := CHR ''/'' # ?h @ ?rest\<rparr>"])
      (simp_all add: file_slash_state_def utf8_ascii_Cons)
  also have "\<dots> = basic_parse_loop cx (p\<lparr>the_url := (scheme_only w)\<lparr>url_host := url_host w\<rparr>,
      parser_state := State_PathStart, iterator := ?rest\<rparr>)"
    using parse_file_host [of "p\<lparr>the_url := ?u, parser_state := State_FileHost, iterator := ?h @ ?rest\<rparr>" "url_host w" ?rest cx]
      assms(2) cx head plain special rest w(3) by (auto simp: head_canonical_def parser_buffer_same)
  also have "\<dots> = Some (w, w)"
    using assms(2,3) cx canonical_segments [OF w(1,4)] canonical_tail_ok [OF w(1)] scheme_only_host [OF w(2,4)] plain
    by (subst parse_path_start [where ps = "url_paths w" and q = "url_query w" and f = "url_fragment w"])
      (simp_all add: drive_letter_normalized_def)
  finally show ?thesis .
qed

subsection \<open>Scheme\<close>

lemma append_scheme_byte: "scheme_byte b \<Longrightarrow> append_as_lowercase s (ord_of b) = s @ [b]"
  by (auto simp: append_as_lowercase_def scheme_byte_def class_defs Let_def)

lemma scheme_byte_ascii: "scheme_byte b \<Longrightarrow> ord_of b < 128"
  by (auto simp: scheme_byte_def class_defs)

lemma scheme_state_byte:
  "scheme_byte b \<Longrightarrow> scheme_state cx p (ord_of b) = Break (p\<lparr>buffer := buffer p @ [b]\<rparr>)"
  using append_scheme_byte [of b "buffer p"]
  by (auto simp: scheme_state_def scheme_byte_def is_ascii_alphanumeric_def is_ascii_alpha_def)

lemma parse_scheme:
  assumes "parser_state p = State_SchemeStart" "buffer p = []" "iterator p = s @ CHR '':'' # rest" "scheme_ok s"
  shows "basic_parse_loop cx p = basic_parse_loop cx (p\<lparr>parser_state := State_Scheme, buffer := s, iterator := CHR '':'' # rest\<rparr>)"
proof -
  obtain b t where s: "s = b # t" using assms(4) by (cases s) (auto simp: scheme_ok_def)
  have b: "is_ascii_lower_alpha (ord_of b)" and bytes: "\<forall>c\<in>set t. scheme_byte c"
    using assms(4) s by (auto simp: scheme_ok_def list_all_iff)
  have sb: "scheme_byte b" using b by (simp add: scheme_byte_def)
  have "basic_parse_loop cx p = basic_parse_loop cx (p\<lparr>parser_state := State_Scheme, buffer := [b], iterator := t @ CHR '':'' # rest\<rparr>)"
    using assms s b append_scheme_byte [OF sb, of "[]"] scheme_byte_ascii [OF sb]
    by (subst loop_Break [where b = b and it = "t @ CHR '':'' # rest" and it' = "t @ CHR '':'' # rest" and
          q = "p\<lparr>parser_state := State_Scheme, buffer := [b]\<rparr>"])
      (simp_all add: scheme_start_state_def is_ascii_alpha_def utf8_ascii_Cons)
  also have "\<dots> = basic_parse_loop cx (p\<lparr>parser_state := State_Scheme, buffer := s, iterator := CHR '':'' # rest\<rparr>)"
    using s bytes scheme_state_byte scheme_byte_ascii
    by (subst loop_append [where t = t and rest = "CHR '':'' # rest"]) (auto simp: list_all_iff)
  finally show ?thesis .
qed

lemma scheme_state_colon:
  assumes "cx_state_override cx = None"
  shows "scheme_state cx p (ord_of CHR '':'') = scheme_state_without_override cx p"
  using assms by (simp add: scheme_state_def class_defs)

text \<open>The parser after a scheme and a colon, without a base URL.\<close>

lemma parse_scheme_colon:
  assumes "parser_state p = State_Scheme" "buffer p = url_scheme w" "iterator p = CHR '':'' # rest"
    "cx_state_override cx = None" "cx_base_url cx = None" "the_url p = empty_url"
  shows "url_scheme w = ''file'' \<Longrightarrow> basic_parse_loop cx p = basic_parse_loop cx
      (p\<lparr>the_url := scheme_only w, buffer := [], parser_state := State_File, iterator := rest\<rparr>)"
    "url_scheme w \<noteq> ''file'' \<Longrightarrow> is_special w \<Longrightarrow> basic_parse_loop cx p = basic_parse_loop cx
      (p\<lparr>the_url := scheme_only w, buffer := [], parser_state := State_SpecialAuthoritySlashes, iterator := rest\<rparr>)"
    "\<not> is_special w \<Longrightarrow> rest = CHR ''/'' # t \<Longrightarrow> basic_parse_loop cx p = basic_parse_loop cx
      (p\<lparr>the_url := scheme_only w, buffer := [], parser_state := State_PathOrAuthority, iterator := t\<rparr>)"
    "\<not> is_special w \<Longrightarrow> rest = [] \<or> hd rest \<noteq> CHR ''/'' \<Longrightarrow> basic_parse_loop cx p = basic_parse_loop cx
      (p\<lparr>the_url := (scheme_only w)\<lparr>url_cannot_be_a_base_url := True, url_paths := [[]]\<rparr>, buffer := [],
         parser_state := State_CannotBeABaseUrlPath, iterator := rest\<rparr>)"
proof -
  note colon = scheme_state_colon [OF assms(4)]
  have u: "empty_url\<lparr>url_scheme := url_scheme w\<rparr> = scheme_only w" by (simp add: scheme_only_def)
  have starts: "starts_with rest ''/'' CaseSensitive \<longleftrightarrow> rest \<noteq> [] \<and> hd rest = CHR ''/''"
    by (cases rest) (auto simp: starts_with_prefix prefix_def)
  show "basic_parse_loop cx p = basic_parse_loop cx
      (p\<lparr>the_url := scheme_only w, buffer := [], parser_state := State_File, iterator := rest\<rparr>)" if "url_scheme w = ''file''"
    using assms colon u that
    by (subst loop_Break [where b = "CHR '':''" and it = rest and it' = rest and
        q = "p\<lparr>the_url := scheme_only w, buffer := [], parser_state := State_File\<rparr>"])
      (simp_all add: scheme_state_without_override_def Let_def get_remaining_ascii utf8_ascii_Cons)
  show "basic_parse_loop cx p = basic_parse_loop cx
      (p\<lparr>the_url := scheme_only w, buffer := [], parser_state := State_SpecialAuthoritySlashes, iterator := rest\<rparr>)"
    if "url_scheme w \<noteq> ''file''" "is_special w"
    using assms colon u that
    by (subst loop_Break [where b = "CHR '':''" and it = rest and it' = rest and
        q = "p\<lparr>the_url := scheme_only w, buffer := [], parser_state := State_SpecialAuthoritySlashes\<rparr>"])
      (simp_all add: scheme_state_without_override_def Let_def utf8_ascii_Cons)
  show "basic_parse_loop cx p = basic_parse_loop cx
      (p\<lparr>the_url := scheme_only w, buffer := [], parser_state := State_PathOrAuthority, iterator := t\<rparr>)"
    if "\<not> is_special w" "rest = CHR ''/'' # t"
    using assms colon u that starts not_special_not_file [OF that(1)]
    by (subst loop_Break [where b = "CHR '':''" and it = rest and it' = t and
        q = "p\<lparr>the_url := scheme_only w, buffer := [], parser_state := State_PathOrAuthority, iterator := rest\<rparr>"])
      (simp_all add: scheme_state_without_override_def Let_def get_remaining_ascii utf8_ascii_Cons)
  show "basic_parse_loop cx p = basic_parse_loop cx
      (p\<lparr>the_url := (scheme_only w)\<lparr>url_cannot_be_a_base_url := True, url_paths := [[]]\<rparr>, buffer := [],
         parser_state := State_CannotBeABaseUrlPath, iterator := rest\<rparr>)"
    if "\<not> is_special w" "rest = [] \<or> hd rest \<noteq> CHR ''/''"
    using assms colon u that starts not_special_not_file [OF that(1)]
    by (subst loop_Break [where b = "CHR '':''" and it = rest and it' = rest and
        q = "p\<lparr>the_url := (scheme_only w)\<lparr>url_cannot_be_a_base_url := True, url_paths := [[]]\<rparr>, buffer := [],
         parser_state := State_CannotBeABaseUrlPath\<rparr>"])
      (auto simp add: scheme_state_without_override_def Let_def get_remaining_ascii utf8_ascii_Cons append_slash_def)
qed

end
