(* ===== verification/UrlRoundTrip.thy ===== *)
theory UrlRoundTrip
  imports UrlStates
begin

text \<open>
  The round trip of URLs: parsing the serialization of a canonical URL gives the URL back.
\<close>

subsection \<open>The parts together\<close>

definition authority_text :: "url \<Rightarrow> bytes" where
  "authority_text w = credentials_text (url_username w) (url_password w) @ serialize_host (url_host w) @ port_text (url_port w)"

definition rest_text :: "url \<Rightarrow> bytes" where
  "rest_text w = path_text (url_paths w) @ tail_text (url_query w) (url_fragment w)"

text \<open>A parser in its first steps: only the URL, the buffer, the state and the iterator have changed.\<close>

definition fresh :: "parser \<Rightarrow> bool" where
  "fresh p \<longleftrightarrow> buffer p = [] \<and> \<not> at_sign_seen p \<and> \<not> password_token_seen p \<and> \<not> inside_brackets p \<and> the_encoder p = utf8_encoder"

lemma fresh_updates [simp]:
  "fresh (p\<lparr>the_url := x1\<rparr>) = fresh p" "fresh (p\<lparr>parser_state := x2\<rparr>) = fresh p" "fresh (p\<lparr>iterator := x3\<rparr>) = fresh p"
  by (simp_all add: fresh_def)

definition parse_context :: "parser_context \<Rightarrow> bool" where
  "parse_context cx \<longleftrightarrow> cx_state_override cx = None \<and> cx_base_url cx = None \<and> idna_ok (cx_idna cx)
     \<and> ascii_bytes (cx_input cx) \<and> length (cx_input cx) < 2 ^ 64"

lemma parse_authority_state:
  assumes "fresh p" "parser_state p = State_Authority" "the_url p = scheme_only w" "iterator p = authority_text w @ rest_text w"
    "cx_input cx = pre @ sep # iterator p" "parse_context cx" "url_canonical (cx_idna cx) w" "complete w"
    "url_scheme w \<noteq> ''file''" "\<not> url_cannot_be_a_base_url w" "url_host w \<noteq> Host_Empty"
  shows "basic_parse_loop cx p = Some (w, w)"
  by (rule parse_authority [of p w cx pre sep])
    (use assms in \<open>simp_all add: fresh_def parse_context_def authority_text_def rest_text_def\<close>)

lemma authority_text_start:
  assumes "head_canonical idna w" "head_ok w" "idna_ok idna" "is_special w" "url_scheme w \<noteq> ''file''"
  shows "\<exists>b t. authority_text w = b # t \<and> authority_byte b"
proof -
  have host: "host_nonempty (url_host w)" "host_parsed idna True (url_host w)"
    using assms(1,4,5) by (auto simp: head_canonical_def host_nonempty_def)
  then obtain s where "parse_host idna s False = Success (url_host w)" by (auto simp: host_parsed_def)
  note bytes = authority_text_bytes [OF assms(3) this, of "url_port w"]
  show ?thesis
  proof (cases "url_username w")
    case (Cons b t)
    then have "authority_byte b" using append_userinfo_byte(3) [of "url_username w" b] assms(2) by (simp add: head_ok_def)
    then show ?thesis using Cons by (simp add: authority_text_def credentials_text_def)
  next
    case Nil
    have "authority_byte CHR '':''" by (simp add: authority_byte_def)
    then show ?thesis
      using Nil bytes host_text_nonempty [OF host(1)]
      by (cases "url_password w"; cases "serialize_host (url_host w)") (simp_all add: authority_text_def credentials_text_def)
  qed
qed

lemma parse_special:
  assumes "fresh p" "parser_state p = State_SpecialAuthoritySlashes" "the_url p = scheme_only w"
    "iterator p = ''//'' @ authority_text w @ rest_text w" "cx_input cx = pre @ iterator p" "parse_context cx"
    "url_canonical (cx_idna cx) w" "complete w" "url_scheme w \<noteq> ''file''" "is_special w"
  shows "basic_parse_loop cx p = Some (w, w)"
proof -
  let ?text = "authority_text w @ rest_text w"
  have w: "\<not> url_cannot_be_a_base_url w" "url_host w \<noteq> Host_Empty" "head_canonical (cx_idna cx) w" "head_ok w"
    using assms(7,9,10) by (auto simp: url_canonical_def url_ok_def path_ok_def head_canonical_def host_nonempty_def)
  obtain b t where b: "authority_text w = b # t" "authority_byte b"
    using authority_text_start [OF w(3,4)] assms(6,9,10) by (auto simp: parse_context_def)
  let ?p = "p\<lparr>parser_state := State_SpecialAuthorityIgnoreSlashes, iterator := ?text\<rparr>"
  have "basic_parse_loop cx p = basic_parse_loop cx ?p"
    using assms
    by (subst loop_Break [where b = "CHR ''/''" and it = "CHR ''/'' # ?text" and it' = ?text and
          q = "p\<lparr>parser_state := State_SpecialAuthorityIgnoreSlashes, iterator := CHR ''/'' # ?text\<rparr>"])
      (simp_all add: special_authority_slashes_state_def remaining_starts_with_solidus_def get_remaining_ascii
        utf8_ascii_Cons starts_with_prefix)
  also have "\<dots> = basic_parse_loop cx (?p\<lparr>parser_state := State_Authority\<rparr>)"
    using b by (subst loop_Continue [where q = "?p\<lparr>parser_state := State_Authority\<rparr>"])
      (auto simp: special_authority_ignore_slashes_state_def code_point_at_ascii authority_byte_def separator_byte)
  also have "\<dots> = Some (w, w)"
    using assms w by (intro parse_authority_state [where pre = "pre @ ''/''" and sep = "CHR ''/''"]) simp_all
  finally show ?thesis .
qed

lemma parse_path_or_authority:
  assumes "fresh p" "parser_state p = State_PathOrAuthority" "the_url p = scheme_only w"
    "iterator p = ''/'' @ authority_text w @ rest_text w" "cx_input cx = pre @ iterator p" "parse_context cx"
    "url_canonical (cx_idna cx) w" "complete w" "\<not> is_special w" "\<not> url_cannot_be_a_base_url w" "url_host w \<noteq> Host_Empty"
  shows "basic_parse_loop cx p = Some (w, w)"
proof -
  let ?text = "authority_text w @ rest_text w"
  have "basic_parse_loop cx p = basic_parse_loop cx (p\<lparr>parser_state := State_Authority, iterator := ?text\<rparr>)"
    using assms
    by (subst loop_Break [where b = "CHR ''/''" and it = ?text and it' = ?text and q = "p\<lparr>parser_state := State_Authority\<rparr>"])
      (simp_all add: path_or_authority_state_def utf8_ascii_Cons)
  also have "\<dots> = Some (w, w)"
    using assms not_special_not_file [OF assms(9)]
    by (intro parse_authority_state [where pre = pre and sep = "CHR ''/''"]) simp_all
  finally show ?thesis .
qed

definition dot_text :: "url \<Rightarrow> bytes" where
  "dot_text w = (if length (url_paths w) > 1 \<and> url_paths w ! 0 = [] then ''/.'' else [])"

lemma headless:
  assumes "url_canonical idna w" "url_host w = Host_Empty"
  shows "url_username w = []" "url_password w = []" "url_port w = None" "\<not> is_special w"
  using assms by (auto simp: url_canonical_def head_canonical_def host_nonempty_def includes_credentials_def)

lemma scheme_only_path:
  assumes "url_canonical idna w" "complete w" "\<not> url_cannot_be_a_base_url w" "url_host w = Host_Empty"
  shows "(scheme_only w)\<lparr>url_paths := url_paths w, url_query := url_query w, url_fragment := url_fragment w, url_valid := True\<rparr> = w"
proof -
  have "(scheme_only w)\<lparr>url_host := Host_Empty\<rparr> = scheme_only w" by (simp add: scheme_only_def empty_url_def)
  then show ?thesis using scheme_only_host [OF assms(2,3)] headless [OF assms(1,4)] assms(4) by simp
qed

lemma parse_path_from:
  assumes "fresh p" "parser_state p = State_Path" "the_url p = scheme_only w" "iterator p = s @ path_text ss @ tail_text (url_query w) (url_fragment w)"
    "url_paths w = s # ss" "cx_state_override cx = None" "url_canonical idna w" "complete w" "\<not> url_cannot_be_a_base_url w"
    "url_host w = Host_Empty"
  shows "basic_parse_loop cx p = Some (w, w)"
  using assms canonical_segments [OF assms(7,9)] canonical_tail_ok [OF assms(7)] scheme_only_path [OF assms(7-10)]
    scheme_only_simps(9) [of w, unfolded no_tail_def]
  by (subst parse_path [where s = s and ss = ss and q = "url_query w" and f = "url_fragment w"])
    (simp_all add: fresh_def drive_letter_normalized_def)

lemma parse_path_without_host:
  assumes "fresh p" "parser_state p = State_PathOrAuthority" "the_url p = scheme_only w"
    "CHR ''/'' # iterator p = dot_text w @ rest_text w" "cx_state_override cx = None"
    "url_canonical idna w" "complete w" "\<not> url_cannot_be_a_base_url w" "url_host w = Host_Empty"
  shows "basic_parse_loop cx p = Some (w, w)"
proof -
  obtain s ss where ps: "url_paths w = s # ss"
    using canonical_segments(3) [OF assms(6,8)] assms(9) by (cases "url_paths w") auto
  have seg: "segment_ok (is_special w) s" "\<not> is_special w"
    using canonical_segments(1) [OF assms(6,8)] ps headless [OF assms(6,9)] by simp_all
  let ?rest = "s @ path_text ss @ tail_text (url_query w) (url_fragment w)"
  have path: "basic_parse_loop cx p = basic_parse_loop cx (p\<lparr>parser_state := State_Path\<rparr>)" if "code_point_at (iterator p) \<noteq> 47"
    using assms(2) that by (subst loop_Continue [where q = "p\<lparr>parser_state := State_Path\<rparr>"])
      (simp_all add: path_or_authority_state_def)
  show ?thesis
  proof (cases "dot_text w = []")
    case True
    then have it: "iterator p = ?rest" using assms(4) ps by (simp add: rest_text_def)
    have "code_point_at ?rest \<noteq> 47"
    proof (cases s)
      case (Cons b t)
      then have "b \<noteq> CHR ''/''" "ord_of b < 128"
        using seg(1) encoded_by_ascii [of Path s] by (auto simp: segment_ok_def segment_bytes_def)
      then show ?thesis using Cons by (simp add: code_point_at_ascii separator_byte)
    next
      case Nil
      then have "ss = []" using True ps by (cases ss) (auto simp: dot_text_def split: if_splits)
      then show ?thesis
        using Nil by (cases "url_query w" "url_fragment w" rule: tail_text_cases)
          (simp_all add: code_point_at_ascii end_of_file_def)
    qed
    then show ?thesis
      using path it assms ps by (simp, intro parse_path_from [of _ w s ss cx idna]) simp_all
  next
    case False
    then have it: "iterator p = CHR ''.'' # CHR ''/'' # ?rest" and s: "s = []"
      using assms(4) ps by (auto simp: rest_text_def dot_text_def split: if_splits)
    let ?q = "p\<lparr>parser_state := State_Path\<rparr>"
    have dot: "is_single_dot_path_segment ''.''" "\<not> is_double_dot_path_segment ''.''" by code_simp+
    have byte: "\<not> code_point_is_in_percent_encode_set (ord_of CHR ''.'') Path" by code_simp
    have "basic_parse_loop cx p = basic_parse_loop cx ?q" using path it by (simp add: code_point_at_ascii)
    also have "\<dots> = basic_parse_loop cx (?q\<lparr>buffer := ''.'', iterator := CHR ''/'' # ?rest\<rparr>)"
      using it assms(1) path_state_byte [of "CHR ''.''" ?q cx] byte
      by (subst loop_Break [where b = "CHR ''.''" and it = "CHR ''/'' # ?rest" and it' = "CHR ''/'' # ?rest" and q = "?q\<lparr>buffer := ''.''\<rparr>"])
        (simp_all add: utf8_ascii_Cons fresh_def)
    also have "\<dots> = basic_parse_loop cx (?q\<lparr>iterator := ?rest\<rparr>)"
      using assms(1,5) dot
      by (subst loop_Break [where b = "CHR ''/''" and it = ?rest and it' = ?rest and q = "?q\<lparr>iterator := CHR ''/'' # ?rest\<rparr>"])
        (simp_all add: path_state_def add_path_segment_def Let_def utf8_ascii_Cons fresh_def parser_buffer_same)
    also have "\<dots> = Some (w, w)"
      using assms ps by (intro parse_path_from [of _ w s ss cx idna]) simp_all
    finally show ?thesis .
  qed
qed

lemma parse_opaque:
  assumes "fresh p" "parser_state p = State_CannotBeABaseUrlPath"
    "the_url p = (scheme_only w)\<lparr>url_cannot_be_a_base_url := True, url_paths := [[]]\<rparr>"
    "url_paths w = [s]" "iterator p = s @ tail_text (url_query w) (url_fragment w)" "cx_state_override cx = None"
    "url_canonical idna w" "complete w" "url_cannot_be_a_base_url w" "url_host w = Host_Empty"
  shows "basic_parse_loop cx p = Some (w, w)"
proof -
  have s: "opaque_path_bytes s" using assms(4,7,9) by (simp add: url_canonical_def url_ok_def path_ok_def)
  have "(the_url p)\<lparr>url_paths := [s], url_query := url_query w, url_fragment := url_fragment w, url_valid := True\<rparr> = w"
    using headless [OF assms(7,10)] assms(3,4,8,9,10) by (cases w) (simp add: scheme_only_def empty_url_def complete_def)
  then show ?thesis
    using assms s canonical_tail_ok [OF assms(7)] scheme_only_simps(9) [of w, unfolded no_tail_def]
    by (subst parse_opaque_path [where s = s and q = "url_query w" and f = "url_fragment w"])
      (simp_all add: fresh_def)
qed

definition head_text :: "url \<Rightarrow> bytes" where
  "head_text w = (if url_host w \<noteq> Host_Empty then ''//'' @ authority_text w else [])"

definition body_text :: "url \<Rightarrow> bytes" where
  "body_text w =
     (if url_cannot_be_a_base_url w then url_paths w ! 0 @ tail_text (url_query w) (url_fragment w)
      else (if url_host w = Host_Empty then dot_text w else []) @ rest_text w)"

lemma path_text_concat: "concat (map ((#) CHR ''/'') ps) = path_text ps" "concat (map ((@) ''/'') ps) = path_text ps"
  by (induction ps) simp_all

lemma url_serialize_text:
  assumes "url_canonical idna w"
  shows "url_serialize w False = Some (url_scheme w @ CHR '':'' # head_text w @ body_text w)"
proof -
  have "url_cannot_be_a_base_url w \<Longrightarrow> url_paths w \<noteq> []"
    using assms by (auto simp: url_canonical_def url_ok_def path_ok_def)
  moreover have "credentials_text (url_username w) (url_password w) =
      (if includes_credentials w then url_username w @ (if url_password w \<noteq> [] then '':'' @ url_password w else []) @ ''@'' else [])"
    by (simp add: credentials_text_def includes_credentials_def)
  moreover have "(case url_fragment w of None \<Rightarrow> [] | Some f \<Rightarrow> if \<not> False then ''#'' @ f else []) = fragment_text (url_fragment w)"
    by (simp add: fragment_text_def split: option.split)
  ultimately show ?thesis
    by (simp add: url_serialize_def serialize_rest_of_path_def head_text_def body_text_def authority_text_def rest_text_def
        dot_text_def serialize_port_def port_text_def tail_text_def query_text_def path_text_concat split: option.split)
qed

lemma parse_url_text:
  assumes "fresh p" "parser_state p = State_SchemeStart" "the_url p = empty_url" "iterator p = cx_input cx"
    "cx_input cx = url_scheme w @ CHR '':'' # head_text w @ body_text w" "parse_context cx"
    "url_canonical (cx_idna cx) w" "complete w"
  shows "basic_parse_loop cx p = Some (w, w)"
proof -
  let ?rest = "head_text w @ body_text w"
  let ?p = "p\<lparr>parser_state := State_Scheme, buffer := url_scheme w, iterator := CHR '':'' # ?rest\<rparr>"
  have ok: "scheme_ok (url_scheme w)" "head_canonical (cx_idna cx) w" "path_ok w" "tail_canonical w"
    using assms(7) by (auto simp: url_canonical_def url_ok_def head_ok_def)
  have cx: "cx_state_override cx = None" "cx_base_url cx = None" "idna_ok (cx_idna cx)" using assms(6) by (auto simp: parse_context_def)
  have start: "basic_parse_loop cx p = basic_parse_loop cx ?p"
    using assms ok(1) by (intro parse_scheme) (simp_all add: fresh_def)
  have next_state: "basic_parse_loop cx ?p = basic_parse_loop cx q \<Longrightarrow> basic_parse_loop cx q = Some (w, w) \<Longrightarrow> ?thesis" for q
    using start by simp
  have clear: "fresh (?p\<lparr>the_url := u, buffer := [], parser_state := st, iterator := it\<rparr>)" for u st it
    using assms(1) by (simp add: fresh_def)
  note colon = parse_scheme_colon [of ?p w ?rest cx]
  show ?thesis
  proof (cases "is_special w")
    case special: True
    then have np: "\<not> url_cannot_be_a_base_url w" using ok(3) by (auto simp: path_ok_def)
    have host: "url_host w \<noteq> Host_Empty"
      using ok(2) special by (auto simp: head_canonical_def host_nonempty_def)
    show ?thesis
    proof (cases "url_scheme w = ''file''")
      case True
      then have "authority_text w = serialize_host (url_host w)"
        using ok(2) by (auto simp: head_canonical_def authority_text_def credentials_text_def port_text_def includes_credentials_def)
      then show ?thesis
        using True np host cx assms(1,3,7,8)
        by (intro next_state [OF colon(1)] parse_file) (simp_all add: head_text_def body_text_def rest_text_def fresh_def)
    next
      case False
      show ?thesis
        using False special np host cx assms(3,5-8)
        by (intro next_state [OF colon(2)] parse_special [where pre = "url_scheme w @ '':''"] clear)
          (simp_all add: head_text_def body_text_def)
    qed
  next
    case ns: False
    show ?thesis
    proof (cases "url_cannot_be_a_base_url w")
      case True
      then obtain s where s: "url_paths w = [s]" and host: "url_host w = Host_Empty" "s \<noteq> [] \<longrightarrow> hd s \<noteq> CHR ''/''"
        using ok(3,4) by (auto simp: path_ok_def tail_canonical_def)
      have "?rest = s @ tail_text (url_query w) (url_fragment w)" using True s host by (simp add: head_text_def body_text_def)
      moreover from this have "?rest = [] \<or> hd ?rest \<noteq> CHR ''/''"
        using host(2) by (cases s; cases "url_query w" "url_fragment w" rule: tail_text_cases) simp_all
      ultimately show ?thesis
        using True ns s host cx assms(3,7,8)
        by (intro next_state [OF colon(4)] parse_opaque [where s = s] clear) simp_all
    next
      case np: False
      show ?thesis
      proof (cases "url_host w = Host_Empty")
        case True
        then obtain t where t: "?rest = CHR ''/'' # t" "dot_text w @ rest_text w = CHR ''/'' # t"
          using np canonical_segments(3) [OF assms(7) np]
          by (cases "url_paths w"; cases "dot_text w = []")
            (auto simp: head_text_def body_text_def dot_text_def rest_text_def split: if_splits)
        show ?thesis
          using True ns np t cx assms(3,7,8)
          by (intro next_state [OF colon(3)] parse_path_without_host clear) simp_all
      next
        case False
        show ?thesis
          using False ns np cx assms(3,5-8)
          by (intro next_state [OF colon(3) [where t = "''/'' @ authority_text w @ rest_text w"]]
              parse_path_or_authority [where pre = "url_scheme w @ '':/''"] clear)
            (simp_all add: head_text_def body_text_def)
      qed
    qed
  qed
qed

subsection \<open>The input\<close>

abbreviation graphic :: "char \<Rightarrow> bool" where
  "graphic b \<equiv> 0x20 < ord_of b \<and> ord_of b < 0x7F"

lemma encoded_by_graphic:
  assumes "encoded_by enc s" "enc \<in> {Fragment, Query, SpecialQuery, Path, Userinfo}" "b \<in> set s"
  shows "graphic b"
  using encoded_by_byte [OF assms(1,3)]
proof
  assume not_in: "\<not> code_point_is_in_percent_encode_set (ord_of b) enc"
  then have "b \<noteq> CHR '' ''" using assms(2) by (auto simp: encode_set_byte sv_contains_def char_of_eval)
  then have "ord_of b \<noteq> 32" by (simp add: char_eq_iff_ord)
  then show ?thesis using not_in_set_printable [OF not_in] by simp
qed simp

lemma tail_text_graphic: "tail_ok special q f \<Longrightarrow> b \<in> set (tail_text q f) \<Longrightarrow> graphic b"
  using encoded_by_graphic
  by (cases q; cases f) (auto simp: tail_ok_def tail_text_def query_text_def fragment_text_def split: if_splits)

lemma scheme_graphic: "scheme_byte b \<Longrightarrow> graphic b"
  by (auto simp: scheme_byte_def class_defs)

lemma head_text_graphic:
  assumes "url_canonical idna w" "idna_ok idna" "b \<in> set (head_text w)"
  shows "graphic b"
proof -
  have head: "head_canonical idna w" "head_ok w" using assms(1) by (simp_all add: url_canonical_def url_ok_def)
  have host: "\<forall>b\<in>set (serialize_host (url_host w) @ port_text (url_port w)). authority_byte b" if host: "url_host w \<noteq> Host_Empty"
  proof (cases "url_host w = Host_String []")
    case True
    then have "url_port w = None" using head(1) by (auto simp: head_canonical_def host_nonempty_def)
    then show ?thesis using True by (simp add: port_text_def)
  next
    case False
    then obtain s where "parse_host idna s (\<not> is_special w) = Success (url_host w)"
      using head(1) host by (auto simp: head_canonical_def host_parsed_def)
    then show ?thesis using authority_text_bytes [OF assms(2)] by blast
  qed
  have user: "graphic c" if "c \<in> set (url_username w) \<or> c \<in> set (url_password w)" for c
    using that head(2) encoded_by_graphic by (auto simp: head_ok_def)
  have hp: "url_host w \<noteq> Host_Empty"
    "b = CHR ''/'' \<or> b \<in> set (credentials_text (url_username w) (url_password w))
      \<or> b \<in> set (serialize_host (url_host w) @ port_text (url_port w))"
    using assms(3) by (auto simp: head_text_def authority_text_def split: if_splits)
  have "graphic b" if "b \<in> set (credentials_text (url_username w) (url_password w))"
    using that user [of b] by (auto simp: credentials_text_def split: if_splits)
  moreover have "graphic b" if "b \<in> set (serialize_host (url_host w) @ port_text (url_port w))"
    using that host [OF hp(1)] unfolding authority_byte_def by blast
  ultimately show ?thesis using hp(2) by fastforce
qed

lemma body_text_printable:
  assumes "url_canonical idna w"
  shows "b \<in> set (body_text w) \<Longrightarrow> 0x20 \<le> ord_of b \<and> ord_of b < 0x7F"
    and "body_text w \<noteq> [] \<Longrightarrow> last (body_text w) \<noteq> CHR '' ''"
proof -
  let ?tail = "tail_text (url_query w) (url_fragment w)"
  have tail: "graphic c" if "c \<in> set ?tail" for c
    using tail_text_graphic [OF canonical_tail_ok [OF assms] that] .
  have rest: "graphic c" if "\<not> url_cannot_be_a_base_url w" "c \<in> set (body_text w)" for c
  proof -
    have "graphic d" if "s \<in> set (url_paths w)" "d \<in> set s" for s d
      using canonical_segments(1) [OF assms \<open>\<not> url_cannot_be_a_base_url w\<close>] that encoded_by_graphic [of Path s d]
      by (auto simp: list_all_iff segment_ok_def segment_bytes_def)
    then show ?thesis
      using that tail by (auto simp: body_text_def rest_text_def dot_text_def path_text_def split: if_splits)
  qed
  have opaque: "\<exists>s. url_paths w = [s] \<and> encoded_by C0Control s" if "url_cannot_be_a_base_url w"
    using assms that by (auto simp: url_canonical_def url_ok_def path_ok_def opaque_path_bytes_def)
  show "b \<in> set (body_text w) \<Longrightarrow> 0x20 \<le> ord_of b \<and> ord_of b < 0x7F"
  proof (cases "url_cannot_be_a_base_url w")
    case True
    then obtain s where s: "url_paths w = [s]" "encoded_by C0Control s" using opaque by blast
    have "0x20 \<le> ord_of c \<and> ord_of c < 0x7F" if "c \<in> set s" for c
      using encoded_by_not_in_set [OF s(2) that] by (simp add: encode_set_byte)
    moreover assume "b \<in> set (body_text w)"
    ultimately show ?thesis using True s tail [of b] by (auto simp: body_text_def)
  qed (use rest [of b] in auto)
  show "last (body_text w) \<noteq> CHR '' ''" if ne: "body_text w \<noteq> []"
  proof (cases "url_cannot_be_a_base_url w")
    case True
    show ?thesis
    proof (cases "?tail = []")
      case None: True
      then have "url_query w = None" "url_fragment w = None"
        by (cases "url_query w" "url_fragment w" rule: tail_text_cases; simp)+
      then show ?thesis
        using assms ne True None by (simp add: body_text_def url_canonical_def tail_canonical_def)
    next
      case False
      then show ?thesis using True tail [of "last ?tail"] by (auto simp: body_text_def)
    qed
  next
    case False
    then show ?thesis using rest [of "last (body_text w)"] ne by auto
  qed
qed

lemma strip_same:
  assumes "s \<noteq> []" "0x20 < ord_of (hd s)" "0x20 < ord_of (last s)"
  shows "strip_c0_control_or_space s = s"
proof -
  have "dropWhile (\<lambda>c. is_ascii_c0_control_or_space (ord_of c)) s = s"
    using assms(1,2) by (cases s) (simp_all add: is_ascii_c0_control_or_space_def)
  moreover have "dropWhile (\<lambda>c. is_ascii_c0_control_or_space (ord_of c)) (rev s) = rev s"
    using assms(1,3) by (cases s rule: rev_cases) (simp_all add: is_ascii_c0_control_or_space_def)
  ultimately show ?thesis by (simp add: strip_c0_control_or_space_def Let_def)
qed

lemma basic_parse_text:
  assumes "url_canonical idna w" "complete w" "idna_ok idna" "s = url_scheme w @ CHR '':'' # head_text w @ body_text w" "length s < 2 ^ 64"
  shows "basic_parse idna s None None None None = Some (w, w)"
proof -
  have scheme: "scheme_ok (url_scheme w)" using assms(1) by (simp add: url_canonical_def url_ok_def head_ok_def)
  have graphic: "graphic b" if "b \<in> set (url_scheme w @ CHR '':'' # head_text w)" for b
    using that scheme scheme_graphic [of b] head_text_graphic [OF assms(1,3), of b] by (auto simp: scheme_ok_def list_all_iff)
  have bytes: "0x20 \<le> ord_of b \<and> ord_of b < 0x7F" if "b \<in> set s" for b
    using that graphic [of b] body_text_printable(1) [OF assms(1), of b] unfolding assms(4) by auto
  have first: "0x20 < ord_of (hd s)" using scheme graphic [of "hd s"] unfolding assms(4) by (auto simp: scheme_ok_def)
  have "last s \<noteq> CHR '' ''"
  proof (cases "body_text w = []")
    case True
    then have "s = url_scheme w @ CHR '':'' # head_text w" using assms(4) by simp
    then have "last s \<in> set (url_scheme w @ CHR '':'' # head_text w)" using last_in_set [of s] by simp
    from graphic [OF this] show ?thesis by auto
  next
    case False
    then show ?thesis using body_text_printable(2) [OF assms(1)] unfolding assms(4) by simp
  qed
  then have "ord_of (last s) \<noteq> 0x20" by (simp add: char_eq_iff_ord)
  moreover have "s \<noteq> []" unfolding assms(4) by simp
  ultimately have strip: "strip_c0_control_or_space s = s"
    using first bytes [of "last s"] by (intro strip_same) auto
  have "filter (\<lambda>d. d \<notin> {CHR 0x09, CHR 0x0A, CHR 0x0D}) s = s" using bytes by (force simp: filter_id_conv)
  then have remove: "remove_tab_and_newline s = Some s" by (simp add: remove_tab_and_newline_filter)
  have "ascii_bytes s" using bytes by (force simp: list_all_iff)
  then show ?thesis
    unfolding basic_parse_def option.case strip remove
    using assms by (intro parse_url_text) (simp_all add: fresh_def parse_context_def)
qed

lemma parse_url_serialize:
  assumes "url_canonical idna u" "complete u" "idna_ok idna" "url_serialize u False = Some s" "length s < 2 ^ 64"
  shows "parse_url idna s = Some u"
  using basic_parse_text [OF assms(1-3) _ assms(5)] url_serialize_text [OF assms(1)] assms(4) by (simp add: parse_url_def)

subsection \<open>The blob URL entry\<close>

text \<open>No state changes the blob URL entry of the URL.\<close>

fun keeps_blob :: "parser \<Rightarrow> action \<Rightarrow> bool" where
  "keeps_blob p (Break q) \<longleftrightarrow> url_blob_url_entry (the_url q) = url_blob_url_entry (the_url p)"
| "keeps_blob p (Continue q) \<longleftrightarrow> url_blob_url_entry (the_url q) = url_blob_url_entry (the_url p)"
| "keeps_blob p (Return_url q) \<longleftrightarrow> url_blob_url_entry (the_url q) = url_blob_url_entry (the_url p)"
| "keeps_blob p _ \<longleftrightarrow> True"

lemma shorten_keeps_blob: "shorten_urls_path u = Some v \<Longrightarrow> url_blob_url_entry v = url_blob_url_entry u"
  by (auto simp: shorten_urls_path_def split: if_splits)

lemma add_path_segment_keeps_blob: "add_path_segment u s c = Some v \<Longrightarrow> url_blob_url_entry v = url_blob_url_entry u"
  by (auto simp: add_path_segment_def Let_def append_slash_def shorten_keeps_blob split: if_splits)

lemma keeps_blob_short:
  "keeps_blob p (scheme_start_state cx p c)" "keeps_blob p (no_scheme_state cx p c)"
  "keeps_blob p (special_relative_or_authority_state cx p c)" "keeps_blob p (path_or_authority_state cx p c)"
  "keeps_blob p (relative_slash_state cx p c)" "keeps_blob p (special_authority_slashes_state cx p c)"
  "keeps_blob p (special_authority_ignore_slashes_state cx p c)" "keeps_blob p (path_start_state cx p c)"
  "keeps_blob p (cannot_be_a_base_url_path_state cx p c)" "keeps_blob p (query_state cx p c)" "keeps_blob p (fragment_state cx p c)"
  by (simp_all add: scheme_start_state_def no_scheme_state_def special_relative_or_authority_state_def
      path_or_authority_state_def relative_slash_state_def special_authority_slashes_state_def
      special_authority_ignore_slashes_state_def path_start_state_def cannot_be_a_base_url_path_state_def
      query_state_def fragment_state_def Let_def append_slash_def split: option.split bool.split)

lemma keeps_blob_scheme: "keeps_blob p (scheme_state cx p c)"
  by (simp add: scheme_state_def scheme_state_with_override_def scheme_state_without_override_def Let_def append_slash_def
      split: option.split)

lemma keeps_blob_relative: "keeps_blob p (relative_state cx p c)"
  by (auto simp: relative_state_def relative_state_from_base_def Let_def dest: shorten_keeps_blob split: option.split)

lemma keeps_blob_authority: "keeps_blob p (authority_state cx p c)"
  by (simp add: authority_state_def authority_at_sign_def Let_def split: option.split)

lemma keeps_blob_host: "keeps_blob p (host_state cx p c)"
  by (simp add: host_state_def Let_def split: outcome.split)

lemma keeps_blob_port: "keeps_blob p (port_state cx p c)"
  by (simp add: port_state_def Let_def)

lemma keeps_blob_file: "keeps_blob p (file_state cx p c)"
  by (auto simp: file_state_def Let_def dest: shorten_keeps_blob split: option.split)

lemma keeps_blob_file_slash: "keeps_blob p (file_slash_state cx p c)"
  by (simp add: file_slash_state_def Let_def split: option.split)

lemma keeps_blob_file_host: "keeps_blob p (file_host_state cx p c)"
  by (simp add: file_host_state_def Let_def split: outcome.split)

lemma keeps_blob_path: "keeps_blob p (path_state cx p c)"
  by (auto simp: path_state_def Let_def dest: add_path_segment_keeps_blob split: option.split)

lemma keeps_blob_run_state: "keeps_blob p (run_state s cx p c)"
  by (cases s)
    (simp_all add: keeps_blob_short keeps_blob_scheme keeps_blob_relative keeps_blob_authority keeps_blob_host keeps_blob_port
      keeps_blob_file keeps_blob_file_slash keeps_blob_file_host keeps_blob_path)

lemma basic_parse_loop_blob:
  assumes "url_blob_url_entry (the_url p) = None" "basic_parse_loop cx p = Some (u, v)"
  shows "url_blob_url_entry u = None"
proof -
  have "\<forall>u v. basic_parse_loop cx p = Some (u, v) \<longrightarrow> url_blob_url_entry u = None"
  proof (rule url_parser.run_invariant [where invar = "\<lambda>p. url_blob_url_entry (the_url p) = None"])
    fix p q assume "url_blob_url_entry (the_url p) = None" "basic_parse_step cx p = Inl q"
    then show "url_blob_url_entry (the_url q) = None"
      using keeps_blob_run_state [of p "parser_state p" cx "code_point_at (iterator p)"]
      by (auto simp: basic_parse_step_def split: action.splits option.splits)
  next
    fix p r assume "url_blob_url_entry (the_url p) = None" "basic_parse_step cx p = Inr r"
    then show "\<forall>u v. r = Some (u, v) \<longrightarrow> url_blob_url_entry u = None"
      using keeps_blob_run_state [of p "parser_state p" cx "code_point_at (iterator p)"]
      by (auto simp: basic_parse_step_def finish_parse_def empty_url_def Let_def split: action.splits option.splits)
  qed (rule assms(1))
  then show ?thesis using assms(2) by blast
qed

lemma basic_parse_blob:
  assumes "basic_parse idna s base_url None None encoding = Some (u, v)"
  shows "url_blob_url_entry u = None"
proof -
  obtain input where "remove_tab_and_newline (strip_c0_control_or_space s) = Some input"
    using remove_tab_and_newline_filter by blast
  then show ?thesis
    using assms by (auto simp: basic_parse_def empty_url_def intro: basic_parse_loop_blob [rotated])
qed

subsection \<open>Properties\<close>

definition printable_url :: "idna \<Rightarrow> url \<Rightarrow> bool" where
  "printable_url idna u \<longleftrightarrow> idna_ok idna \<and> url_canonical idna u \<and> complete u
     \<and> (\<forall>s. url_serialize u False = Some s \<longrightarrow> length s < 2 ^ 64)"

interpretation url: printer "\<lambda>u. the (url_serialize u False)" "parse_url idna" "printable_url idna" for idna
proof
  fix u
  assume "printable_url idna u"
  then show "parse_url idna (the (url_serialize u False)) = Some u"
    using parse_url_serialize url_serialize_text [of idna u] by (auto simp: printable_url_def)
qed

lemma printable_url_serialize: "printable_url idna u \<Longrightarrow> \<exists>s. url_serialize u False = Some s"
  using url_serialize_text [of idna u] by (auto simp: printable_url_def)

lemma parsed_printable:
  assumes "idna_ok idna" "valid_utf8 s" "length s < 2 ^ 64" "\<forall>b. base_url = Some b \<longrightarrow> url_canonical idna b"
    "basic_parse idna s base_url None None encoding = Some (u, v)" "u \<noteq> empty_url"
    "\<forall>t. url_serialize u False = Some t \<longrightarrow> length t < 2 ^ 64"
  shows "printable_url idna u"
proof -
  have "url_valid u" "url_canonical idna u" using basic_parse_canonical [OF assms(2-4), of encoding] assms(5,6) by auto
  moreover have "url_blob_url_entry u = None" using assms(5) by (rule basic_parse_blob)
  ultimately show ?thesis using assms(1,7) by (simp add: printable_url_def complete_def)
qed

lemma valid_utf8_ascii: "ascii_bytes s \<Longrightarrow> valid_utf8 s"
  unfolding valid_utf8_def
  by (rule exI [of _ "map ord_of s"]) (auto simp: utf8_encode_all_ascii code_points_def list_all_iff simp del: map_map)

text \<open>
  C5.  Parsing, printing and parsing again: what the parser returns for a well-formed UTF-8 input
  (with no base URL or a canonical one) has a serialization, and parsing that
  serialization gives the same URL, field by field.
\<close>

theorem parse_serialize_parse:
  assumes "idna_ok idna" "valid_utf8 s" "length s < 2 ^ 64" "\<forall>b. base_url = Some b \<longrightarrow> url_canonical idna b"
    "basic_parse idna s base_url None None encoding = Some (u, v)" "u \<noteq> empty_url"
  shows "\<exists>t. url_serialize u False = Some t \<and> (length t < 2 ^ 64 \<longrightarrow> parse_url idna t = Some u)"
proof -
  have "url_valid u" "url_canonical idna u" using basic_parse_canonical [OF assms(2-4), of encoding] assms(5,6) by auto
  moreover have "url_blob_url_entry u = None" using assms(5) by (rule basic_parse_blob)
  ultimately show ?thesis
    using parse_url_serialize [of idna u] url_serialize_text [of idna u] assms(1) by (auto simp: complete_def)
qed

theorem parse_serialize_parse_witness:
  "\<exists>u. basic_parse (\<lambda>d opts. None) ''HTTP://u:p@[0:0::1]:0080/a/./%2e%2E/b c?q '' None None None None = Some (u, u)
    \<and> url_serialize u False = Some ''http://u:p@[::1]/b%20c?q''
    \<and> parse_url (\<lambda>d opts. None) ''http://u:p@[::1]/b%20c?q'' = Some u"
proof -
  let ?u = "\<lparr>url_valid = True, url_scheme = ''http'', url_username = ''u'', url_password = ''p'',
    url_host = Host_IPv6 [0, 0, 0, 0, 0, 0, 0, 1], url_port = None, url_paths = [''b%20c''], url_query = Some ''q'',
    url_fragment = None, url_cannot_be_a_base_url = False, url_blob_url_entry = None\<rparr>"
  have ok: "idna_ok (\<lambda>d opts. None)" by (simp add: idna_ok_def)
  have parse: "basic_parse (\<lambda>d opts. None) ''HTTP://u:p@[0:0::1]:0080/a/./%2e%2E/b c?q '' None None None None = Some (?u, ?u)"
    by code_simp
  have printed: "url_serialize ?u False = Some ''http://u:p@[::1]/b%20c?q''" by code_simp
  have "valid_utf8 ''HTTP://u:p@[0:0::1]:0080/a/./%2e%2E/b c?q ''" by (rule valid_utf8_ascii) simp
  then show ?thesis
    using parse_serialize_parse [OF ok _ _ _ parse] parse printed by (auto simp: empty_url_def)
qed



end
