(* ===== verification/Checked.thy ===== *)
theory Checked
  imports Prelude "HOL-Library.Signed_Division" "HOL-Library.Monad_Syntax"
begin

text \<open>
  \<^verbatim>\<open>AK/Checked.h\<close>: integers that remember an overflow.  An integer type is its range; the value of a
  checked integer is an \<open>int\<close> in that range, wrapped around after an overflow as the compiler's
  overflow builtins do.
\<close>

subsection \<open>Integer types\<close>

record int_type =
  type_min :: int
  type_max :: int

definition signed_type :: "nat \<Rightarrow> int_type" where
  "signed_type bits = \<lparr>type_min = - (2 ^ (bits - 1)), type_max = 2 ^ (bits - 1) - 1\<rparr>"

definition unsigned_type :: "nat \<Rightarrow> int_type" where
  "unsigned_type bits = \<lparr>type_min = 0, type_max = 2 ^ bits - 1\<rparr>"

abbreviation i64 :: int_type where
  "i64 \<equiv> signed_type 64"

abbreviation i32 :: int_type where
  "i32 \<equiv> signed_type 32"

definition is_within_range :: "int_type \<Rightarrow> int \<Rightarrow> bool" where
  "is_within_range T x \<longleftrightarrow> type_min T \<le> x \<and> x \<le> type_max T"

definition wrap :: "int_type \<Rightarrow> int \<Rightarrow> int" where
  "wrap T x = type_min T + (x - type_min T) mod (type_max T - type_min T + 1)"

definition clamp :: "int_type \<Rightarrow> int \<Rightarrow> int" where
  "clamp T x = max (type_min T) (min (type_max T) x)"

text \<open>
  The plain operators of C++: the overflow of a signed type of at least the width of \<^verbatim>\<open>int\<close> is
  undefined (\<open>None\<close>), that of an unsigned one wraps around.
\<close>

definition plain :: "int_type \<Rightarrow> int \<Rightarrow> int option" where
  "plain T x = (if is_within_range T x then Some x else if type_min T < 0 then None else Some (wrap T x))"

subsection \<open>Checked integers\<close>

record checked =
  m_value :: int
  m_overflow :: bool

definition checked_of :: "int_type \<Rightarrow> int \<Rightarrow> checked" where
  "checked_of T x = \<lparr>m_value = wrap T x, m_overflow = (\<not> is_within_range T x)\<rparr>"

definition checked_value :: "checked \<Rightarrow> int option" where
  "checked_value c = (if m_overflow c then None else Some (m_value c))"

text \<open>The builtins store the wrapped result and tell whether it differs from the exact one.\<close>

definition store_result :: "int_type \<Rightarrow> checked \<Rightarrow> int \<Rightarrow> checked" where
  "store_result T c x = \<lparr>m_value = wrap T x, m_overflow = (m_overflow c \<or> \<not> is_within_range T x)\<rparr>"

definition checked_add :: "int_type \<Rightarrow> checked \<Rightarrow> int \<Rightarrow> checked" where
  "checked_add T c other = store_result T c (m_value c + other)"

definition checked_sub :: "int_type \<Rightarrow> checked \<Rightarrow> int \<Rightarrow> checked" where
  "checked_sub T c other = store_result T c (m_value c - other)"

definition checked_mul :: "int_type \<Rightarrow> checked \<Rightarrow> int \<Rightarrow> checked" where
  "checked_mul T c other = store_result T c (m_value c * other)"

definition checked_div :: "int_type \<Rightarrow> checked \<Rightarrow> int \<Rightarrow> checked" where
  "checked_div T c other =
     (if type_min T < 0 \<and> other = -1 \<and> m_value c = type_min T then c\<lparr>m_overflow := True\<rparr>
      else if other = 0 then c\<lparr>m_overflow := True\<rparr>
      else c\<lparr>m_value := m_value c sdiv other\<rparr>)"

text \<open>The remainder is computed with the plain operators.\<close>

definition checked_mod :: "int_type \<Rightarrow> checked \<Rightarrow> int \<Rightarrow> checked option" where
  "checked_mod T c other =
     (let initial = m_value c; c = checked_div T c other
      in do {
           product \<leftarrow> plain T (m_value c * other);
           rest \<leftarrow> plain T (initial - product);
           Some (c\<lparr>m_value := rest\<rparr>)
         })"

definition saturating_sub :: "int_type \<Rightarrow> checked \<Rightarrow> int \<Rightarrow> checked" where
  "saturating_sub T c other =
     (let c = checked_sub T c other
      in (if m_overflow c \<and> other \<le> 0 then c\<lparr>m_value := type_max T\<rparr>
          else if m_overflow c then c\<lparr>m_value := type_min T\<rparr> else c)\<lparr>m_overflow := False\<rparr>)"

definition saturating_add :: "int_type \<Rightarrow> checked \<Rightarrow> int \<Rightarrow> checked" where
  "saturating_add T c other =
     (let c = checked_add T c other
      in (if m_overflow c \<and> other \<ge> 0 then c\<lparr>m_value := type_max T\<rparr>
          else if m_overflow c then c\<lparr>m_value := type_min T\<rparr> else c)\<lparr>m_overflow := False\<rparr>)"

definition saturating_mul :: "int_type \<Rightarrow> checked \<Rightarrow> int \<Rightarrow> checked" where
  "saturating_mul T c other =
     (let either_is_zero = (m_value c = 0 \<or> other = 0);
          result_is_positive = ((m_value c > 0) = (other > 0));
          c = checked_mul T c other
      in (if m_overflow c then
            if either_is_zero then c\<lparr>m_value := 0\<rparr>
            else if result_is_positive then c\<lparr>m_value := type_max T\<rparr>
            else c\<lparr>m_value := type_min T\<rparr>
          else c)\<lparr>m_overflow := False\<rparr>)"

definition addition_would_overflow :: "int_type \<Rightarrow> int \<Rightarrow> int \<Rightarrow> bool" where
  "addition_would_overflow T u v \<longleftrightarrow> \<not> is_within_range T (u + v)"

definition subtraction_would_overflow :: "int_type \<Rightarrow> int \<Rightarrow> int \<Rightarrow> bool" where
  "subtraction_would_overflow T u v \<longleftrightarrow> \<not> is_within_range T (u - v)"

definition multiplication_would_overflow :: "int_type \<Rightarrow> int \<Rightarrow> int \<Rightarrow> bool" where
  "multiplication_would_overflow T u v \<longleftrightarrow> \<not> is_within_range T (u * v)"

subsection \<open>Lemmas\<close>

lemma wrap_id [simp]: "is_within_range T x \<Longrightarrow> wrap T x = x"
  by (simp add: wrap_def is_within_range_def)

lemma store_result_simps:
  "m_overflow (store_result T c x) \<longleftrightarrow> m_overflow c \<or> \<not> is_within_range T x"
  "is_within_range T x \<Longrightarrow> m_value (store_result T c x) = x"
  by (simp_all add: store_result_def)

lemma checked_of_simps:
  "is_within_range T x \<Longrightarrow> m_value (checked_of T x) = x" "m_overflow (checked_of T x) \<longleftrightarrow> \<not> is_within_range T x"
  by (simp_all add: checked_of_def)

lemma clamp_id [simp]: "is_within_range T x \<Longrightarrow> clamp T x = x"
  by (auto simp: clamp_def is_within_range_def)

lemma clamp_range: "type_min T \<le> type_max T \<Longrightarrow> is_within_range T (clamp T x)"
  by (auto simp: clamp_def is_within_range_def)

lemmas checked_defs = checked_add_def checked_sub_def checked_mul_def store_result_simps

lemma checked_mul_sign:
  "is_within_range T x \<Longrightarrow> is_within_range T 0 \<Longrightarrow> x * other > type_max T \<Longrightarrow> (x > 0) = (other > 0) \<and> x \<noteq> 0 \<and> other \<noteq> 0"
  "is_within_range T x \<Longrightarrow> is_within_range T 0 \<Longrightarrow> x * other < type_min T \<Longrightarrow> (x > 0) \<noteq> (other > 0) \<and> x \<noteq> 0 \<and> other \<noteq> 0"
proof -
  assume "is_within_range T x" "is_within_range T 0"
  then have z: "type_min T \<le> 0" "0 \<le> type_max T"
    by (auto simp: is_within_range_def)
  show "(x > 0) = (other > 0) \<and> x \<noteq> 0 \<and> other \<noteq> 0" if "x * other > type_max T"
    using that z zero_less_mult_iff [of x other] by auto
  show "(x > 0) \<noteq> (other > 0) \<and> x \<noteq> 0 \<and> other \<noteq> 0" if "x * other < type_min T"
    using that z mult_less_0_iff [of x other] by auto
qed

lemma not_is_within_range: "\<not> is_within_range T x \<longleftrightarrow> x < type_min T \<or> type_max T < x"
  by (auto simp: is_within_range_def)

lemma saturating_add_value:
  assumes "is_within_range T (m_value c)" "\<not> m_overflow c"
  shows "saturating_add T c other = \<lparr>m_value = clamp T (m_value c + other), m_overflow = False\<rparr>"
  using assms
  by (cases "is_within_range T (m_value c + other)")
    (auto simp: saturating_add_def Let_def checked_add_def store_result_def clamp_def is_within_range_def)

lemma saturating_sub_value:
  assumes "is_within_range T (m_value c)" "\<not> m_overflow c"
  shows "saturating_sub T c other = \<lparr>m_value = clamp T (m_value c - other), m_overflow = False\<rparr>"
  using assms
  by (cases "is_within_range T (m_value c - other)")
    (auto simp: saturating_sub_def Let_def checked_sub_def store_result_def clamp_def is_within_range_def)

lemma saturating_mul_value:
  assumes r: "is_within_range T (m_value c)" and z: "is_within_range T 0" and n: "\<not> m_overflow c"
  shows "saturating_mul T c other = \<lparr>m_value = clamp T (m_value c * other), m_overflow = False\<rparr>"
proof (cases "is_within_range T (m_value c * other)")
  case True
  then show ?thesis
    using n by (simp add: saturating_mul_def Let_def checked_mul_def store_result_def)
next
  case False
  have mm: "type_min T \<le> type_max T"
    using z by (simp add: is_within_range_def)
  have f: "saturating_mul T c other =
      \<lparr>m_value = (if m_value c = 0 \<or> other = 0 then 0 else if (m_value c > 0) = (other > 0) then type_max T else type_min T),
       m_overflow = False\<rparr>"
    using False by (simp add: saturating_mul_def Let_def checked_mul_def store_result_def)
  consider (low) "m_value c * other < type_min T" | (high) "type_max T < m_value c * other"
    using False by (auto simp: not_is_within_range)
  then show ?thesis
  proof cases
    case low
    then show ?thesis
      using checked_mul_sign(2) [OF r z low] f mm by (simp add: clamp_def)
  next
    case high
    then show ?thesis
      using checked_mul_sign(1) [OF r z high] f mm by (simp add: clamp_def)
  qed
qed

text \<open>The truncated remainder has the sign of the dividend and is no larger.\<close>

lemma smod_bounds:
  fixes x y :: int
  shows "0 \<le> x \<Longrightarrow> 0 \<le> x smod y \<and> x smod y \<le> x" "x \<le> 0 \<Longrightarrow> x \<le> x smod y \<and> x smod y \<le> 0"
proof -
  have m: "\<bar>x\<bar> mod \<bar>y\<bar> \<le> \<bar>x\<bar>" "0 \<le> \<bar>x\<bar> mod \<bar>y\<bar>"
    by (cases "y = 0"; simp add: zmod_le_nonneg_dividend)+
  then show "0 \<le> x \<Longrightarrow> 0 \<le> x smod y \<and> x smod y \<le> x" "x \<le> 0 \<Longrightarrow> x \<le> x smod y \<and> x smod y \<le> 0"
    by (auto simp: smod_int_alt_def sgn_if)
qed

lemma sdiv_times: "(x::int) sdiv y * y = x - x smod y"
  using sdiv_mult_smod_eq [of x y] by linarith

lemma div_within_range:
  assumes "is_within_range T n" "is_within_range T 0" "0 < m"
  shows "is_within_range T (n div m)"
proof (cases "0 \<le> n")
  case True
  then have "0 \<le> n div m" "n div m \<le> n"
    using assms(3) zdiv_mono2 [of n 1 m] by (simp_all add: pos_imp_zdiv_nonneg_iff)
  then show ?thesis
    using assms by (simp add: is_within_range_def)
next
  case False
  then have "n div m < 0" "n \<le> n div m"
    using assms(3) zdiv_mono2_neg [of n 1 m] by (simp_all add: pos_imp_zdiv_neg_iff)
  then show ?thesis
    using assms by (simp add: is_within_range_def)
qed

lemma i64_simps [simp]:
  "type_min i64 = - 9223372036854775808" "type_max i64 = 9223372036854775807"
  by (simp_all add: signed_type_def)

lemma i32_simps [simp]:
  "type_min i32 = - 2147483648" "type_max i32 = 2147483647"
  by (simp_all add: signed_type_def)

text \<open>
  A chain of checked operations that \<open>tracks\<close> an exact value: it holds that value unless one of the
  exact intermediate results left the type.
\<close>

definition tracks :: "checked \<Rightarrow> int \<Rightarrow> bool" where
  "tracks c x \<longleftrightarrow> (\<not> m_overflow c \<longrightarrow> m_value c = x)"

lemma tracks_checked_of: "tracks (checked_of T x) x"
  by (simp add: tracks_def checked_of_def)

lemma tracks_checked [intro]:
  "tracks c x \<Longrightarrow> tracks (checked_add T c y) (x + y)"
  "tracks c x \<Longrightarrow> tracks (checked_sub T c y) (x - y)"
  "tracks c x \<Longrightarrow> tracks (checked_mul T c y) (x * y)"
  by (auto simp: tracks_def checked_defs)

lemma tracks_overflow:
  "tracks c x \<Longrightarrow> m_overflow (checked_add T c y) \<longleftrightarrow> m_overflow c \<or> \<not> is_within_range T (x + y)"
  "tracks c x \<Longrightarrow> m_overflow (checked_sub T c y) \<longleftrightarrow> m_overflow c \<or> \<not> is_within_range T (x - y)"
  "tracks c x \<Longrightarrow> m_overflow (checked_mul T c y) \<longleftrightarrow> m_overflow c \<or> \<not> is_within_range T (x * y)"
  by (auto simp: tracks_def checked_defs)

text \<open>
  Checked division truncates towards zero and reports an overflow for a zero divisor and for the one
  quotient that does not fit.  The checked remainder is the truncated remainder, except that for the
  least value and the divisor -1 it evaluates a signed product that overflows: the class meant to
  detect overflow then has undefined behaviour, where \<^verbatim>\<open>div\<close> reports the overflow.
\<close>

lemma checked_division_i64:
  assumes "is_within_range i64 (m_value c)" "\<not> m_overflow c"
  shows "checked_value (checked_div i64 c other) =
           (if other = 0 \<or> m_value c = type_min i64 \<and> other = -1 then None else Some (m_value c sdiv other)) \<and>
         map_option checked_value (checked_mod i64 c other) =
           (if m_value c = type_min i64 \<and> other = -1 then None
            else if other = 0 then Some None
            else Some (Some (m_value c smod other)))"
proof -
  have r: "is_within_range i64 (m_value c sdiv other * other)" "is_within_range i64 (m_value c smod other)"
    using assms(1) smod_bounds [of "m_value c" other]
    by (cases "0 \<le> m_value c"; simp add: is_within_range_def sdiv_times)+
  have z: "is_within_range i64 0"
    by (simp add: is_within_range_def)
  have e: "m_value c - m_value c sdiv other * other = m_value c smod other"
    by (simp add: sdiv_times)
  show ?thesis
    using assms r z
    by (auto simp: checked_value_def checked_div_def checked_mod_def Let_def plain_def e is_within_range_def)
qed

lemma checked_division_i64_witness:
  "map_option checked_value (checked_mod i64 (checked_of i64 (-7)) 3) = Some (Some (-1)) \<and>
   checked_mod i64 (checked_of i64 (-9223372036854775808)) (-1) = None"
  using checked_division_i64 [of "checked_of i64 (-7)" 3]
    checked_division_i64 [of "checked_of i64 (-9223372036854775808)" "-1"]
  by (simp add: checked_of_def is_within_range_def smod_int_alt_def)

subsection \<open>Properties\<close>

text \<open>
  C38. Checked addition, subtraction and multiplication report an overflow exactly when the mathematical
  result leaves the type, and give that result otherwise; the saturating operations give the closest
  value of the type.  This holds for every integer type that contains zero.  Division of 64-bit integers
  reports a zero divisor and the one quotient that does not fit; for that quotient the checked remainder
  has undefined behaviour.
\<close>

theorem checked_arithmetic_exact:
  assumes "is_within_range T 0" "is_within_range T (m_value c)" "\<not> m_overflow c"
  shows "checked_value (checked_add T c other) =
           (if is_within_range T (m_value c + other) then Some (m_value c + other) else None) \<and>
         checked_value (checked_sub T c other) =
           (if is_within_range T (m_value c - other) then Some (m_value c - other) else None) \<and>
         checked_value (checked_mul T c other) =
           (if is_within_range T (m_value c * other) then Some (m_value c * other) else None) \<and>
         checked_value (saturating_add T c other) = Some (clamp T (m_value c + other)) \<and>
         checked_value (saturating_sub T c other) = Some (clamp T (m_value c - other)) \<and>
         checked_value (saturating_mul T c other) = Some (clamp T (m_value c * other)) \<and>
         (T = i64 \<longrightarrow>
            checked_value (checked_div i64 c other) =
              (if other = 0 \<or> m_value c = type_min i64 \<and> other = -1 then None else Some (m_value c sdiv other)) \<and>
            map_option checked_value (checked_mod i64 c other) =
              (if m_value c = type_min i64 \<and> other = -1 then None
               else if other = 0 then Some None
               else Some (Some (m_value c smod other))))"
proof (intro conjI)
  show "T = i64 \<longrightarrow>
      checked_value (checked_div i64 c other) =
        (if other = 0 \<or> m_value c = type_min i64 \<and> other = -1 then None else Some (m_value c sdiv other)) \<and>
      map_option checked_value (checked_mod i64 c other) =
        (if m_value c = type_min i64 \<and> other = -1 then None
         else if other = 0 then Some None
         else Some (Some (m_value c smod other)))"
    using checked_division_i64 assms(2,3) by blast
qed (use assms in \<open>simp_all add: checked_value_def checked_defs saturating_add_value saturating_sub_value saturating_mul_value\<close>)

theorem checked_arithmetic_exact_witness:
  "checked_value (saturating_mul (signed_type 8) (checked_of (signed_type 8) (-100)) 2) = Some (-128)"
  using checked_arithmetic_exact [of "signed_type 8" "checked_of (signed_type 8) (-100)" 2]
  by (simp add: checked_of_def is_within_range_def signed_type_def wrap_def clamp_def)

end
