(* ===== verification/DateTime.thy ===== *)
theory DateTime
  imports Checked
begin

text \<open>
  \<^verbatim>\<open>AK/Time.h\<close> and \<^verbatim>\<open>AK/Time.cpp\<close>: the proleptic Gregorian calendar, durations and UNIX times.
  A duration is a number of seconds, an \<^verbatim>\<open>i64\<close>, and a number of nanoseconds, a \<^verbatim>\<open>u32\<close>, both kept as \<open>int\<close>.
  \<open>None\<close> is a failed \<^verbatim>\<open>VERIFY\<close> or a signed overflow.  The abstract duration is its number of nanoseconds:
  the operations of the class are integer arithmetic that saturates at both ends of the range.
\<close>

subsection \<open>The calendar\<close>

definition is_leap_year :: "int \<Rightarrow> bool" where
  "is_leap_year year \<longleftrightarrow> year smod 4 = 0 \<and> (year smod 100 \<noteq> 0 \<or> year smod 400 = 0)"

definition month_offsets :: "int list" where
  "month_offsets = [0, 31, 59, 90, 120, 151, 181, 212, 243, 273, 304, 334]"

definition day_of_year :: "int \<Rightarrow> nat \<Rightarrow> int \<Rightarrow> int option" where
  "day_of_year year month day =
     (if \<not> (month \<ge> 1 \<and> month \<le> 12) then Some 0
      else do {
        day_of_year \<leftarrow> plain i32 (month_offsets ! (month - 1) + day);
        day_of_year \<leftarrow> plain i32 (day_of_year - 1);
        if is_leap_year year \<and> month \<ge> 3 then plain i32 (day_of_year + 1) else Some day_of_year
      })"

definition days_in_month :: "int \<Rightarrow> nat \<Rightarrow> int option" where
  "days_in_month year month =
     (if \<not> (month \<ge> 1 \<and> month \<le> 12) then None
      else if month = 2 then Some (if is_leap_year year then 29 else 28)
      else let is_long_month = (month = 1 \<or> month = 3 \<or> month = 5 \<or> month = 7 \<or> month = 8 \<or> month = 10 \<or> month = 12)
           in Some (if is_long_month then 31 else 30))"

definition days_in_year :: "int \<Rightarrow> int" where
  "days_in_year year = 365 + (if is_leap_year year then 1 else 0)"

definition week_offsets :: "int list" where
  "week_offsets = [0, 3, 2, 5, 0, 3, 5, 1, 4, 6, 2, 4]"

text \<open>The result is converted to \<^verbatim>\<open>unsigned\<close>.\<close>

definition day_of_week :: "int \<Rightarrow> nat \<Rightarrow> int \<Rightarrow> int option" where
  "day_of_week year month day =
     (if \<not> (month \<ge> 1 \<and> month \<le> 12) then None
      else do {
        year \<leftarrow> (if month < 3 then plain i32 (year - 1) else Some year);
        sum \<leftarrow> plain i32 (year + year sdiv 4);
        sum \<leftarrow> plain i32 (sum - year sdiv 100);
        sum \<leftarrow> plain i32 (sum + year sdiv 400);
        sum \<leftarrow> plain i32 (sum + week_offsets ! (month - 1));
        sum \<leftarrow> plain i32 (sum + day);
        Some (wrap (unsigned_type 32) (sum smod 7))
      })"

definition floor_div_by :: "int \<Rightarrow> int \<Rightarrow> int" where
  "floor_div_by divisor dividend =
     (let is_negative = (if dividend < 0 then 1 else 0)
      in (dividend + is_negative) sdiv divisor - is_negative)"

definition mod_zeros_in_range :: "int \<Rightarrow> int \<Rightarrow> int \<Rightarrow> int" where
  "mod_zeros_in_range positive_mod begin_value end_value =
     floor_div_by positive_mod (end_value - 1) - floor_div_by positive_mod (begin_value - 1)"

definition years_to_days_since_epoch :: "int \<Rightarrow> int" where
  "years_to_days_since_epoch year =
     (let (begin_year, end_year, leap_sign) =
            (if year < 1970 then (year, 1970, - 1) else (1970, year, 1));
          days = 365 * (year - 1970);
          extra_leap_days = mod_zeros_in_range 4 begin_year end_year
            - mod_zeros_in_range 100 begin_year end_year
            + mod_zeros_in_range 400 begin_year end_year
      in days + extra_leap_days * leap_sign)"

definition days_since_epoch :: "int \<Rightarrow> nat \<Rightarrow> int \<Rightarrow> int option" where
  "days_since_epoch year month day =
     map_option (\<lambda>days. years_to_days_since_epoch year + days) (day_of_year year month day)"

subsection \<open>Durations\<close>

record duration =
  m_seconds :: int
  m_nanoseconds :: int

abbreviation Duration :: "int \<Rightarrow> int \<Rightarrow> duration" where
  "Duration s n \<equiv> \<lparr>m_seconds = s, m_nanoseconds = n\<rparr>"

text \<open>The new numerator is returned next to the quotient.\<close>

definition sane_mod :: "int \<Rightarrow> int \<Rightarrow> (int \<times> int) option" where
  "sane_mod numerator denominator =
     (if \<not> (2 \<le> denominator \<and> denominator \<le> 1000000000) then None
      else let dividend = numerator sdiv denominator; numerator = numerator smod denominator
           in Some (if numerator < 0 then (dividend - 1, numerator + denominator) else (dividend, numerator)))"

definition sane_mod_i32 :: "int \<Rightarrow> int \<Rightarrow> (int \<times> int) option" where
  "sane_mod_i32 numerator denominator =
     map_option (\<lambda>(dividend, numerator_64). (wrap i32 dividend, wrap i32 numerator_64)) (sane_mod numerator denominator)"

definition from_seconds :: "int \<Rightarrow> duration" where
  "from_seconds seconds = Duration seconds 0"

definition from_nanoseconds :: "int \<Rightarrow> duration option" where
  "from_nanoseconds nanoseconds =
     do { (seconds, nanoseconds) \<leftarrow> sane_mod nanoseconds 1000000000; Some (Duration seconds nanoseconds) }"

definition from_microseconds :: "int \<Rightarrow> duration option" where
  "from_microseconds microseconds =
     do { (seconds, microseconds) \<leftarrow> sane_mod microseconds 1000000; Some (Duration seconds (microseconds * 1000)) }"

definition from_milliseconds :: "int \<Rightarrow> duration option" where
  "from_milliseconds milliseconds =
     do { (seconds, milliseconds) \<leftarrow> sane_mod milliseconds 1000; Some (Duration seconds (milliseconds * 1000000)) }"

definition min_duration :: duration where
  "min_duration = Duration (- 0x7fffffffffffffff - 1) 0"

definition zero_duration :: duration where
  "zero_duration = Duration 0 0"

definition max_duration :: duration where
  "max_duration = Duration 0x7fffffffffffffff 999999999"

definition from_half_sanitized :: "int \<Rightarrow> int \<Rightarrow> int \<Rightarrow> duration option" where
  "from_half_sanitized seconds extra_seconds nanoseconds =
     (if \<not> nanoseconds < 1000000000 then None
      else let (seconds, extra_seconds) =
                 (if seconds \<le> 0 \<and> extra_seconds > 0 \<or> seconds \<ge> 0 \<and> extra_seconds < 0
                  then (seconds + extra_seconds, 0) else (seconds, extra_seconds))
           in Some (if addition_would_overflow i64 seconds extra_seconds then
                      if seconds < 0 then min_duration else max_duration
                    else Duration (seconds + extra_seconds) nanoseconds))"

text \<open>The conversions from the system's types store the fraction in an \<^verbatim>\<open>i32\<close> first.\<close>

definition from_ticks :: "int \<Rightarrow> int \<Rightarrow> duration option" where
  "from_ticks ticks ticks_per_second =
     (if ticks_per_second = 0 then None
      else let secs = ticks smod ticks_per_second
           in do {
                product \<leftarrow> plain i64 (ticks_per_second * secs);
                difference \<leftarrow> plain i64 (ticks - product);
                scaled \<leftarrow> plain i64 (1000000000 * difference);
                quotient \<leftarrow> plain i64 (scaled sdiv ticks_per_second);
                (extra_secs, nsecs) \<leftarrow> sane_mod_i32 (wrap i32 quotient) 1000000000;
                from_half_sanitized secs extra_secs nsecs
              })"

record timespec =
  tv_sec :: int
  tv_nsec :: int

record timeval =
  tv_seconds :: int
  tv_usec :: int

definition from_timespec :: "timespec \<Rightarrow> duration option" where
  "from_timespec ts =
     do {
       (extra_secs, nsecs) \<leftarrow> sane_mod_i32 (wrap i32 (tv_nsec ts)) 1000000000;
       from_half_sanitized (tv_sec ts) extra_secs nsecs
     }"

definition from_timeval :: "timeval \<Rightarrow> duration option" where
  "from_timeval tv =
     do {
       (extra_secs, usecs) \<leftarrow> sane_mod_i32 (wrap i32 (tv_usec tv)) 1000000;
       if \<not> (0 \<le> usecs \<and> usecs < 1000000) then None
       else from_half_sanitized (tv_seconds tv) extra_secs (usecs * 1000)
     }"

definition to_truncated_seconds :: "duration \<Rightarrow> int option" where
  "to_truncated_seconds d =
     (if \<not> m_nanoseconds d < 1000000000 then None
      else if m_seconds d < 0 \<and> m_nanoseconds d \<noteq> 0 then Some (m_seconds d + 1)
      else Some (m_seconds d))"

text \<open>
  The conversions to smaller units share their shape: the seconds, plus one when negative, times the
  number of units in a second, plus the whole units of the fraction.
\<close>

definition saturated :: "duration \<Rightarrow> checked \<Rightarrow> int" where
  "saturated d c = (if \<not> m_overflow c then m_value c
     else if m_seconds d < 0 then - 0x8000000000000000 else 0x7fffffffffffffff)"

definition scaled_seconds :: "int \<Rightarrow> duration \<Rightarrow> checked" where
  "scaled_seconds units d =
     (let c = checked_of i64 (if m_seconds d < 0 then m_seconds d + 1 else m_seconds d);
          c = checked_mul i64 c units
      in checked_add i64 c (m_nanoseconds d div (1000000000 div units)))"

definition truncated_units :: "int \<Rightarrow> duration \<Rightarrow> int option" where
  "truncated_units units d =
     (if \<not> m_nanoseconds d < 1000000000 then None
      else let c = scaled_seconds units d;
               c = (if m_seconds d < 0 then
                      let c = (if m_nanoseconds d mod (1000000000 div units) \<noteq> 0 then checked_add i64 c 1 else c)
                      in checked_sub i64 c units
                    else c)
           in Some (saturated d c))"

definition to_truncated_milliseconds :: "duration \<Rightarrow> int option" where
  "to_truncated_milliseconds = truncated_units 1000"

definition to_truncated_microseconds :: "duration \<Rightarrow> int option" where
  "to_truncated_microseconds = truncated_units 1000000"

definition to_seconds :: "duration \<Rightarrow> int option" where
  "to_seconds d =
     (if \<not> m_nanoseconds d < 1000000000 then None
      else if m_seconds d \<ge> 0 \<and> m_nanoseconds d \<noteq> 0 then
        let seconds = checked_add i64 (checked_of i64 (m_seconds d)) 1
        in Some (if m_overflow seconds then 0x7fffffffffffffff else m_value seconds)
      else Some (m_seconds d))"

definition rounded_units :: "int \<Rightarrow> duration \<Rightarrow> int option" where
  "rounded_units units d =
     (if \<not> m_nanoseconds d < 1000000000 then None
      else let c = scaled_seconds units d;
               c = (if m_seconds d \<ge> 0 \<and> m_nanoseconds d mod (1000000000 div units) \<noteq> 0
                    then checked_add i64 c 1 else c);
               c = (if m_seconds d < 0 then checked_sub i64 c units else c)
           in Some (saturated d c))"

definition to_milliseconds :: "duration \<Rightarrow> int option" where
  "to_milliseconds = rounded_units 1000"

definition to_microseconds :: "duration \<Rightarrow> int option" where
  "to_microseconds = rounded_units 1000000"

definition to_nanoseconds :: "duration \<Rightarrow> int option" where
  "to_nanoseconds d =
     (if \<not> m_nanoseconds d < 1000000000 then None
      else let c = checked_of i64 (if m_seconds d < 0 then m_seconds d + 1 else m_seconds d);
               c = checked_mul i64 c 1000000000;
               c = checked_add i64 c (m_nanoseconds d);
               c = (if m_seconds d < 0 then checked_sub i64 c 1000000000 else c)
           in Some (saturated d c))"

definition to_timespec :: "duration \<Rightarrow> timespec option" where
  "to_timespec d =
     (if \<not> m_nanoseconds d < 1000000000 then None
      else Some \<lparr>tv_sec = m_seconds d, tv_nsec = m_nanoseconds d\<rparr>)"

definition to_timeval :: "duration \<Rightarrow> timeval option" where
  "to_timeval d =
     (if \<not> m_nanoseconds d < 1000000000 then None
      else Some \<lparr>tv_seconds = m_seconds d, tv_usec = m_nanoseconds d sdiv 1000\<rparr>)"

definition is_zero :: "duration \<Rightarrow> bool" where
  "is_zero d \<longleftrightarrow> m_seconds d = 0 \<and> m_nanoseconds d = 0"

definition is_negative :: "duration \<Rightarrow> bool" where
  "is_negative d \<longleftrightarrow> m_seconds d < 0"

definition add_seconds :: "int \<Rightarrow> int \<Rightarrow> int \<Rightarrow> duration" where
  "add_seconds this_secs other_secs new_nsecs =
     (let new_secs = checked_add i64 (checked_of i64 this_secs) other_secs
      in if m_overflow new_secs then if other_secs > 0 then max_duration else min_duration
         else Duration (m_value new_secs) new_nsecs)"

definition duration_add :: "duration \<Rightarrow> duration \<Rightarrow> duration option" where
  "duration_add this other =
     (if \<not> m_nanoseconds this < 1000000000 \<or> \<not> m_nanoseconds other < 1000000000 then None
      else
        let new_nsecs = m_nanoseconds this + m_nanoseconds other;
            extra_secs = new_nsecs div 1000000000;
            new_nsecs = new_nsecs mod 1000000000;
            this_secs = m_seconds this;
            other_secs = m_seconds other
        in if extra_secs \<noteq> 0 then
             if extra_secs \<noteq> 1 then None
             else if this_secs \<noteq> 0x7fffffffffffffff then Some (add_seconds (this_secs + 1) other_secs new_nsecs)
             else if other_secs \<noteq> 0x7fffffffffffffff then Some (add_seconds this_secs (other_secs + 1) new_nsecs)
             else Some max_duration
           else Some (add_seconds this_secs other_secs new_nsecs))"

text \<open>The complement of an \<^verbatim>\<open>i64\<close> read as \<^verbatim>\<open>u64\<close> and back is \<open>- x - 1\<close>.\<close>

definition duration_sub :: "duration \<Rightarrow> duration \<Rightarrow> duration option" where
  "duration_sub this other =
     (if \<not> m_nanoseconds this < 1000000000 \<or> \<not> m_nanoseconds other < 1000000000 then None
      else if m_nanoseconds other \<noteq> 0 then
        duration_add this (Duration (- m_seconds other - 1) (1000000000 - m_nanoseconds other))
      else if m_seconds other \<noteq> - 0x8000000000000000 then
        duration_add this (Duration (- m_seconds other) 0)
      else if m_seconds this \<ge> 0 then Some max_duration
      else Some (Duration ((m_seconds this + 0x4000000000000000) + 0x4000000000000000) (m_nanoseconds this)))"

definition duration_compare :: "duration \<Rightarrow> duration \<Rightarrow> int" where
  "duration_compare this other =
     (let cmp = (if m_seconds this > m_seconds other then 1 else if m_seconds this < m_seconds other then - 1 else 0)
      in if cmp \<noteq> 0 then cmp
         else let cmp = (if m_nanoseconds this > m_nanoseconds other then 1
                         else if m_nanoseconds this < m_nanoseconds other then - 1 else 0)
              in if cmp \<noteq> 0 then cmp else 0)"

subsection \<open>UNIX time\<close>

text \<open>A \<^verbatim>\<open>UnixDateTime\<close> is its offset to the epoch.\<close>

type_synonym unix_date_time = duration

definition from_unix_time_parts ::
  "int \<Rightarrow> nat \<Rightarrow> int \<Rightarrow> int \<Rightarrow> int \<Rightarrow> int \<Rightarrow> int \<Rightarrow> unix_date_time option" where
  "from_unix_time_parts year month day hour minute second millisecond =
     do {
       days \<leftarrow> days_since_epoch year month day;
       let seconds_since_epoch = days * 86400;
       let seconds_since_epoch = seconds_since_epoch + hour * 3600;
       let seconds_since_epoch = seconds_since_epoch + minute * 60;
       let seconds_since_epoch = seconds_since_epoch + second;
       milliseconds \<leftarrow> from_milliseconds millisecond;
       duration_add (from_seconds seconds_since_epoch) milliseconds
     }"

definition earliest :: unix_date_time where
  "earliest = min_duration"

definition latest :: unix_date_time where
  "latest = max_duration"

subsection \<open>The abstract view\<close>

definition duration_ok :: "duration \<Rightarrow> bool" where
  "duration_ok d \<longleftrightarrow> is_within_range i64 (m_seconds d) \<and> 0 \<le> m_nanoseconds d \<and> m_nanoseconds d < 1000000000"

definition nanoseconds_of :: "duration \<Rightarrow> int" where
  "nanoseconds_of d = m_seconds d * 1000000000 + m_nanoseconds d"

definition saturate :: "int \<Rightarrow> int" where
  "saturate n = max (nanoseconds_of min_duration) (min (nanoseconds_of max_duration) n)"

subsection \<open>Lemmas on durations\<close>

lemmas duration_defs = duration_ok_def nanoseconds_of_def is_within_range_def min_duration_def max_duration_def

lemma nanoseconds_of_Duration [simp]: "nanoseconds_of (Duration s n) = s * 1000000000 + n"
  by (simp add: nanoseconds_of_def)

lemma duration_ok_Duration [simp]:
  "duration_ok (Duration s n) \<longleftrightarrow> is_within_range i64 s \<and> 0 \<le> n \<and> n < 1000000000"
  by (simp add: duration_ok_def)

lemma extreme_durations [simp]:
  "nanoseconds_of min_duration = - 9223372036854775808000000000"
  "nanoseconds_of max_duration = 9223372036854775807999999999"
  "duration_ok min_duration" "duration_ok max_duration" "duration_ok zero_duration"
  by (simp_all add: min_duration_def max_duration_def zero_duration_def is_within_range_def)

lemma nanoseconds_of_inject:
  assumes "duration_ok a" "duration_ok b"
  shows "nanoseconds_of a = nanoseconds_of b \<longleftrightarrow> a = b"
proof
  assume e: "nanoseconds_of a = nanoseconds_of b"
  have "m_seconds d = nanoseconds_of d div 1000000000" "m_nanoseconds d = nanoseconds_of d mod 1000000000"
    if "duration_ok d" for d
    using that by (simp_all add: duration_defs)
  then show "a = b"
    using assms e by simp
qed simp

lemma nanoseconds_of_bounds:
  "duration_ok d \<Longrightarrow> nanoseconds_of min_duration \<le> nanoseconds_of d \<and> nanoseconds_of d \<le> nanoseconds_of max_duration"
  by (auto simp: duration_defs)

lemma saturate_id [simp]: "duration_ok d \<Longrightarrow> saturate (nanoseconds_of d) = nanoseconds_of d"
  using nanoseconds_of_bounds by (simp add: saturate_def)

lemma saturate_Duration:
  assumes "0 \<le> n" "n < 1000000000"
  shows "saturate (s * 1000000000 + n) =
    (if s < type_min i64 then nanoseconds_of min_duration
     else if s > type_max i64 then nanoseconds_of max_duration else nanoseconds_of (Duration s n))"
  using assms by (auto simp: saturate_def)

lemma add_seconds_saturates:
  assumes "is_within_range i64 s" "is_within_range i64 t" "0 \<le> n" "n < 1000000000"
    and "x = (s + t) * 1000000000 + n"
  shows "duration_ok (add_seconds s t n) \<and> nanoseconds_of (add_seconds s t n) = saturate x"
proof (cases "is_within_range i64 (s + t)")
  case True
  then show ?thesis
    using assms
    by (simp add: add_seconds_def Let_def checked_defs checked_of_simps) (auto simp: is_within_range_def saturate_def)
next
  case False
  then show ?thesis
    using assms
    by (simp add: add_seconds_def Let_def checked_defs checked_of_simps) (auto simp: is_within_range_def saturate_def)
qed

lemma duration_add_saturates:
  assumes a: "duration_ok a" and b: "duration_ok b"
  shows "\<exists>c. duration_add a b = Some c \<and> duration_ok c \<and>
    nanoseconds_of c = saturate (nanoseconds_of a + nanoseconds_of b)"
proof -
  let ?n = "m_nanoseconds a + m_nanoseconds b" and ?sum = "nanoseconds_of a + nanoseconds_of b"
  have r: "is_within_range i64 (m_seconds a)" "is_within_range i64 (m_seconds b)"
    "m_nanoseconds a < 1000000000" "m_nanoseconds b < 1000000000" "0 \<le> ?n" "?n < 2000000000"
    using a b by (simp_all add: duration_ok_def)
  have sum: "?sum = (m_seconds a + m_seconds b + ?n div 1000000000) * 1000000000 + ?n mod 1000000000"
    by (simp add: nanoseconds_of_def algebra_simps)
  consider (plain) "?n div 1000000000 = 0"
    | (carry) "?n div 1000000000 = 1" "m_seconds a \<noteq> 0x7fffffffffffffff"
    | (carry2) "?n div 1000000000 = 1" "m_seconds a = 0x7fffffffffffffff" "m_seconds b \<noteq> 0x7fffffffffffffff"
    | (both) "?n div 1000000000 = 1" "m_seconds a = 0x7fffffffffffffff" "m_seconds b = 0x7fffffffffffffff"
    using r by fastforce
  then show ?thesis
  proof cases
    case plain
    have "duration_ok (add_seconds (m_seconds a) (m_seconds b) (?n mod 1000000000)) \<and>
        nanoseconds_of (add_seconds (m_seconds a) (m_seconds b) (?n mod 1000000000)) = saturate ?sum"
      by (rule add_seconds_saturates) (use r sum plain in simp_all)
    moreover have "duration_add a b = Some (add_seconds (m_seconds a) (m_seconds b) (?n mod 1000000000))"
      using r plain by (simp add: duration_add_def Let_def)
    ultimately show ?thesis
      by blast
  next
    case carry
    have w: "is_within_range i64 (m_seconds a + 1)"
      using r carry by (auto simp: is_within_range_def)
    have "duration_ok (add_seconds (m_seconds a + 1) (m_seconds b) (?n mod 1000000000)) \<and>
        nanoseconds_of (add_seconds (m_seconds a + 1) (m_seconds b) (?n mod 1000000000)) = saturate ?sum"
      by (rule add_seconds_saturates) (use r sum carry w in simp_all)
    moreover have "duration_add a b = Some (add_seconds (m_seconds a + 1) (m_seconds b) (?n mod 1000000000))"
      using r carry by (simp add: duration_add_def Let_def)
    ultimately show ?thesis
      by blast
  next
    case carry2
    have w: "is_within_range i64 (m_seconds b + 1)"
      using r carry2 by (auto simp: is_within_range_def)
    have "duration_ok (add_seconds (m_seconds a) (m_seconds b + 1) (?n mod 1000000000)) \<and>
        nanoseconds_of (add_seconds (m_seconds a) (m_seconds b + 1) (?n mod 1000000000)) = saturate ?sum"
      by (rule add_seconds_saturates) (use r sum carry2 w in simp_all)
    moreover have "duration_add a b = Some (add_seconds (m_seconds a) (m_seconds b + 1) (?n mod 1000000000))"
      using r carry2 by (simp add: duration_add_def Let_def)
    ultimately show ?thesis
      by blast
  next
    case both
    have "?sum > nanoseconds_of max_duration"
      unfolding sum both using r(5) pos_mod_sign [of 1000000000 ?n] by simp
    then have "saturate ?sum = nanoseconds_of max_duration"
      by (simp add: saturate_def)
    moreover have "duration_add a b = Some max_duration"
      using r both by (simp add: duration_add_def Let_def)
    ultimately show ?thesis
      using extreme_durations(4) by simp
  qed
qed

lemma duration_sub_saturates:
  assumes a: "duration_ok a" and b: "duration_ok b"
  shows "\<exists>c. duration_sub a b = Some c \<and> duration_ok c \<and>
    nanoseconds_of c = saturate (nanoseconds_of a - nanoseconds_of b)"
proof -
  have r: "m_nanoseconds a < 1000000000" "m_nanoseconds b < 1000000000"
    using a b by (simp_all add: duration_ok_def)
  consider (frac) "m_nanoseconds b \<noteq> 0" | (neg) "m_nanoseconds b = 0" "m_seconds b \<noteq> - 0x8000000000000000"
    | (least) "m_nanoseconds b = 0" "m_seconds b = - 0x8000000000000000"
    by blast
  then show ?thesis
  proof cases
    case frac
    let ?m = "Duration (- m_seconds b - 1) (1000000000 - m_nanoseconds b)"
    have "duration_ok ?m" "nanoseconds_of ?m = - nanoseconds_of b"
      using b frac by (auto simp: duration_defs)
    then show ?thesis
      using duration_add_saturates [OF a, of ?m] frac r by (simp add: duration_sub_def)
  next
    case neg
    let ?m = "Duration (- m_seconds b) 0"
    have "duration_ok ?m" "nanoseconds_of ?m = - nanoseconds_of b"
      using b neg by (auto simp: duration_defs)
    then show ?thesis
      using duration_add_saturates [OF a, of ?m] neg r by (simp add: duration_sub_def)
  next
    case least
    then show ?thesis
      using a r by (auto simp: duration_sub_def duration_defs saturate_def)
  qed
qed

lemma duration_compare_sgn:
  assumes "duration_ok a" "duration_ok b"
  shows "duration_compare a b = sgn (nanoseconds_of a - nanoseconds_of b)"
  using assms by (auto simp: duration_compare_def Let_def duration_defs sgn_if)

text \<open>Rounding of a quotient towards zero and away from zero.\<close>

definition round_away :: "int \<Rightarrow> int \<Rightarrow> int" where
  "round_away n u = (if 0 \<le> n then - ((- n) div u) else n div u)"

lemma rounding_cases:
  assumes "0 < u"
  shows "n sdiv u = (if n < 0 \<and> n mod u \<noteq> 0 then n div u + 1 else n div u)"
    and "round_away n u = (if 0 \<le> n \<and> n mod u \<noteq> 0 then n div u + 1 else n div u)"
proof -
  show "n sdiv u = (if n < 0 \<and> n mod u \<noteq> 0 then n div u + 1 else n div u)"
    using assms by (auto simp: signed_divide_int_eq_divide_int sgn_if dvd_eq_mod_eq_0)
  have "- ((- n) div u) = (if n mod u \<noteq> 0 then n div u + 1 else n div u)"
    using assms by (simp add: zdiv_zminus1_eq_if)
  then show "round_away n u = (if 0 \<le> n \<and> n mod u \<noteq> 0 then n div u + 1 else n div u)"
    by (simp add: round_away_def)
qed

lemma nanoseconds_of_split:
  assumes "k * u = 1000000000" "0 < u"
  shows "nanoseconds_of d div u = m_seconds d * k + m_nanoseconds d div u"
    and "nanoseconds_of d mod u = m_nanoseconds d mod u"
proof -
  have "nanoseconds_of d = m_nanoseconds d + (m_seconds d * k) * u"
    using assms(1) by (simp add: nanoseconds_of_def mult.assoc)
  then show "nanoseconds_of d div u = m_seconds d * k + m_nanoseconds d div u"
    "nanoseconds_of d mod u = m_nanoseconds d mod u"
    using assms(2) by simp_all
qed

lemma nanoseconds_of_neg: "duration_ok d \<Longrightarrow> nanoseconds_of d < 0 \<longleftrightarrow> m_seconds d < 0"
  by (auto simp: duration_defs)

lemma units_of_fraction:
  assumes "duration_ok d" "k * u = 1000000000" "0 < u"
  shows "0 \<le> m_nanoseconds d div u" "m_nanoseconds d div u < k" "1000000000 div k = u" "0 < k" "k \<le> 1000000000"
proof -
  have n: "0 \<le> m_nanoseconds d" "m_nanoseconds d < k * u"
    using assms by (simp_all add: duration_ok_def)
  show "0 \<le> m_nanoseconds d div u"
    using n assms(3) by (simp add: pos_imp_zdiv_nonneg_iff)
  have "m_nanoseconds d div u * u \<le> m_nanoseconds d"
    using div_mult_mod_eq [of "m_nanoseconds d" u] pos_mod_sign [OF assms(3), of "m_nanoseconds d"] by linarith
  then have "m_nanoseconds d div u * u < k * u"
    using n by linarith
  then show "m_nanoseconds d div u < k"
    using assms(3) by simp
  show k: "0 < k"
    using assms(2) zero_less_mult_pos2 [of k u] assms(3) by simp
  show "1000000000 div k = u"
    using k assms(2) by (metis nonzero_mult_div_cancel_left order_less_irrefl)
  show "k \<le> 1000000000"
    using k assms(2,3) mult_left_mono [of 1 u k] by simp
qed

text \<open>The state of the checked integer after the units of the fraction have been added.\<close>

lemma scaled_seconds_tracks:
  assumes d: "duration_ok d" and ku: "k * u = 1000000000" and u: "0 < u"
  defines "q \<equiv> m_nanoseconds d div u"
  shows "m_seconds d \<ge> 0 \<Longrightarrow> tracks (scaled_seconds k d) (m_seconds d * k + q) \<and>
      (m_overflow (scaled_seconds k d) \<longleftrightarrow> m_seconds d * k + q > type_max i64)"
    and "m_seconds d < 0 \<Longrightarrow> tracks (scaled_seconds k d) (m_seconds d * k + k + q) \<and>
      (m_overflow (scaled_seconds k d) \<longleftrightarrow> m_seconds d * k + k < type_min i64)"
proof -
  note f = units_of_fraction [OF d ku u]
  have q: "0 \<le> q" "q < k"
    using f by (simp_all add: q_def)
  have r: "is_within_range i64 (m_seconds d)"
    using d by (simp add: duration_ok_def)
  let ?s = "if m_seconds d < 0 then m_seconds d + 1 else m_seconds d"
  let ?m = "checked_mul i64 (checked_of i64 ?s) k"
  have s: "is_within_range i64 ?s"
    using r by (auto simp: is_within_range_def)
  have m: "tracks ?m (?s * k)" "m_overflow ?m \<longleftrightarrow> \<not> is_within_range i64 (?s * k)"
    using s tracks_overflow(3) [OF tracks_checked_of [of i64 ?s], of i64 k]
    by (simp_all add: tracks_checked(3) tracks_checked_of checked_of_simps)
  have e: "scaled_seconds k d = checked_add i64 ?m q"
    by (simp add: scaled_seconds_def Let_def q_def f(3))
  have o: "m_overflow (scaled_seconds k d) \<longleftrightarrow> \<not> is_within_range i64 (?s * k) \<or> \<not> is_within_range i64 (?s * k + q)"
    unfolding e tracks_overflow(1) [OF m(1)] m(2) ..
  have t: "tracks (scaled_seconds k d) (?s * k + q)"
    unfolding e by (rule tracks_checked(1) [OF m(1)])
  show "tracks (scaled_seconds k d) (m_seconds d * k + q) \<and>
      (m_overflow (scaled_seconds k d) \<longleftrightarrow> m_seconds d * k + q > type_max i64)" if p: "m_seconds d \<ge> 0"
  proof -
    define a where "a = m_seconds d * k"
    have "0 \<le> a"
      using p f(4) by (simp add: a_def)
    then show ?thesis
      using p t o q by (auto simp: is_within_range_def simp flip: a_def)
  qed
  show "tracks (scaled_seconds k d) (m_seconds d * k + k + q) \<and>
      (m_overflow (scaled_seconds k d) \<longleftrightarrow> m_seconds d * k + k < type_min i64)" if p: "m_seconds d < 0"
  proof -
    define a where "a = m_seconds d * k + k"
    have e: "(m_seconds d + 1) * k = a"
      by (simp add: a_def distrib_right)
    have "a \<le> 0"
      using p f(4) by (simp add: e [symmetric] mult_le_0_iff)
    then show ?thesis
      using p t o q f(5) by (auto simp: is_within_range_def e simp flip: a_def)
  qed
qed

lemma saturated_tracks:
  assumes "tracks c x" "m_overflow c \<longleftrightarrow> \<not> is_within_range i64 x"
    and "m_seconds d < 0 \<Longrightarrow> x \<le> type_max i64" "0 \<le> m_seconds d \<Longrightarrow> type_min i64 \<le> x"
  shows "saturated d c = clamp i64 x"
  using assms by (auto simp: saturated_def tracks_def clamp_def is_within_range_def)

lemma truncated_units_value:
  assumes d: "duration_ok d" and ku: "k * u = 1000000000" and u: "0 < u"
  shows "truncated_units k d = Some (clamp i64 (nanoseconds_of d sdiv u))"
proof -
  note f = units_of_fraction [OF d ku u] and st = scaled_seconds_tracks [OF d ku u]
    and split = nanoseconds_of_split [OF ku u, of d]
  have n: "m_nanoseconds d < 1000000000"
    using d by (simp add: duration_ok_def)
  show ?thesis
  proof (cases "m_seconds d < 0")
    case False
    define x where "x = m_seconds d * k + m_nanoseconds d div u"
    have "0 \<le> x"
      using False f by (simp add: x_def)
    then have "saturated d (scaled_seconds k d) = clamp i64 x"
      using False st(1) by (intro saturated_tracks) (auto simp: is_within_range_def simp flip: x_def)
    moreover have "nanoseconds_of d sdiv u = x"
      using False nanoseconds_of_neg [OF d] rounding_cases(1) [OF u] split by (simp add: x_def)
    ultimately show ?thesis
      using False n by (simp add: truncated_units_def Let_def)
  next
    case True
    define y where "y = m_seconds d * k + k"
    define r :: int where "r = (if m_nanoseconds d mod u \<noteq> 0 then 1 else 0)"
    define c where "c = (if m_nanoseconds d mod u \<noteq> 0 then checked_add i64 (scaled_seconds k d) 1 else scaled_seconds k d)"
    let ?q = "m_nanoseconds d div u"
    have "(m_seconds d + 1) * k \<le> 0"
      using True f(4) by (simp add: mult_le_0_iff)
    then have y: "y \<le> 0"
      by (simp add: y_def distrib_right)
    have s: "tracks (scaled_seconds k d) (y + ?q)" "m_overflow (scaled_seconds k d) \<longleftrightarrow> y < type_min i64"
      using st(2) True by (simp_all add: y_def)
    have c: "tracks c (y + ?q + r)" "m_overflow c \<longleftrightarrow> y < type_min i64"
      using s tracks_checked(1) [OF s(1)] tracks_overflow(1) [OF s(1), of i64 1] y f
      by (auto simp: c_def r_def is_within_range_def)
    have r: "0 \<le> r" "r \<le> 1"
      by (simp_all add: r_def)
    have "saturated d (checked_sub i64 c k) = clamp i64 (y + ?q + r - k)"
      using tracks_checked(2) [OF c(1)] tracks_overflow(2) [OF c(1), of i64 k] c(2) y r f True
      by (intro saturated_tracks) (auto simp: is_within_range_def)
    moreover have "nanoseconds_of d sdiv u = y + ?q + r - k"
      using True nanoseconds_of_neg [OF d] rounding_cases(1) [OF u] split by (simp add: y_def r_def)
    ultimately show ?thesis
      using True n by (simp add: truncated_units_def Let_def f(3) c_def)
  qed
qed

lemma rounded_units_value:
  assumes d: "duration_ok d" and ku: "k * u = 1000000000" and u: "0 < u"
  shows "rounded_units k d = Some (clamp i64 (round_away (nanoseconds_of d) u))"
proof -
  note f = units_of_fraction [OF d ku u] and st = scaled_seconds_tracks [OF d ku u]
    and split = nanoseconds_of_split [OF ku u, of d]
  have n: "m_nanoseconds d < 1000000000"
    using d by (simp add: duration_ok_def)
  let ?q = "m_nanoseconds d div u"
  show ?thesis
  proof (cases "m_seconds d < 0")
    case False
    define x where "x = m_seconds d * k + ?q"
    define r :: int where "r = (if m_nanoseconds d mod u \<noteq> 0 then 1 else 0)"
    define c where "c = (if m_nanoseconds d mod u \<noteq> 0 then checked_add i64 (scaled_seconds k d) 1 else scaled_seconds k d)"
    have x: "0 \<le> x"
      using False f by (simp add: x_def)
    have s: "tracks (scaled_seconds k d) x" "m_overflow (scaled_seconds k d) \<longleftrightarrow> x > type_max i64"
      using st(1) False by (simp_all add: x_def)
    have c: "tracks c (x + r)" "m_overflow c \<longleftrightarrow> x + r > type_max i64"
      using s tracks_checked(1) [OF s(1)] tracks_overflow(1) [OF s(1), of i64 1] x
      by (auto simp: c_def r_def is_within_range_def)
    have "0 \<le> r"
      by (simp add: r_def)
    then have "saturated d c = clamp i64 (x + r)"
      using c x False by (intro saturated_tracks) (auto simp: is_within_range_def)
    moreover have "round_away (nanoseconds_of d) u = x + r"
      using False nanoseconds_of_neg [OF d] rounding_cases(2) [OF u] split by (simp add: x_def r_def)
    ultimately show ?thesis
      using False n by (simp add: rounded_units_def Let_def f(3) c_def)
  next
    case True
    define y where "y = m_seconds d * k + k"
    have "(m_seconds d + 1) * k \<le> 0"
      using True f(4) by (simp add: mult_le_0_iff)
    then have y: "y \<le> 0"
      by (simp add: y_def distrib_right)
    have s: "tracks (scaled_seconds k d) (y + ?q)" "m_overflow (scaled_seconds k d) \<longleftrightarrow> y < type_min i64"
      using st(2) True by (simp_all add: y_def)
    have "saturated d (checked_sub i64 (scaled_seconds k d) k) = clamp i64 (y + ?q - k)"
      using tracks_checked(2) [OF s(1)] tracks_overflow(2) [OF s(1), of i64 k] s(2) y f True
      by (intro saturated_tracks) (auto simp: is_within_range_def)
    moreover have "round_away (nanoseconds_of d) u = y + ?q - k"
      using True nanoseconds_of_neg [OF d] rounding_cases(2) [OF u] split by (simp add: y_def)
    ultimately show ?thesis
      using True n by (simp add: rounded_units_def Let_def)
  qed
qed

lemma to_nanoseconds_rounded: "to_nanoseconds d = rounded_units 1000000000 d"
  by (simp add: to_nanoseconds_def rounded_units_def scaled_seconds_def Let_def)

lemma to_seconds_value:
  assumes "duration_ok d"
  shows "to_seconds d = Some (clamp i64 (round_away (nanoseconds_of d) 1000000000))"
proof -
  have "to_seconds d = Some (clamp i64 (if 0 \<le> m_seconds d \<and> m_nanoseconds d \<noteq> 0 then m_seconds d + 1 else m_seconds d))"
    using assms
    by (auto simp: to_seconds_def Let_def checked_defs checked_of_simps duration_ok_def)
      (auto simp: is_within_range_def clamp_def)
  then show ?thesis
    using assms nanoseconds_of_split [of 1 1000000000 d] nanoseconds_of_neg [OF assms]
    by (auto simp: rounding_cases duration_ok_def)
qed

lemma to_truncated_seconds_value:
  assumes "duration_ok d"
  shows "to_truncated_seconds d = Some (nanoseconds_of d sdiv 1000000000)"
  using assms nanoseconds_of_split [of 1 1000000000 d] nanoseconds_of_neg [OF assms]
  by (auto simp: rounding_cases to_truncated_seconds_def duration_ok_def)

lemma sane_mod_value:
  assumes "2 \<le> m" "m \<le> 1000000000"
  shows "sane_mod n m = Some (n div m, n mod m)"
proof -
  have "n smod m = (if n < 0 \<and> n mod m \<noteq> 0 then n mod m - m else n mod m)"
    using assms(1) by (auto simp: signed_modulo_int_eq_modulo_int sgn_if dvd_eq_mod_eq_0)
  moreover have "n mod m < 0 \<longleftrightarrow> False" "n mod m - m < 0"
    using assms(1) pos_mod_sign [of m n] by (simp_all add: not_less)
  ultimately show ?thesis
    using assms rounding_cases(1) [of m n] by (auto simp: sane_mod_def Let_def)
qed

lemma from_units_exact:
  "is_within_range i64 n \<Longrightarrow> \<exists>d. from_nanoseconds n = Some d \<and> duration_ok d \<and> nanoseconds_of d = n"
  "is_within_range i64 n \<Longrightarrow> \<exists>d. from_microseconds n = Some d \<and> duration_ok d \<and> nanoseconds_of d = n * 1000"
  "is_within_range i64 n \<Longrightarrow> \<exists>d. from_milliseconds n = Some d \<and> duration_ok d \<and> nanoseconds_of d = n * 1000000"
  "is_within_range i64 n \<Longrightarrow> duration_ok (from_seconds n) \<and> nanoseconds_of (from_seconds n) = n * 1000000000"
proof -
  assume r: "is_within_range i64 n"
  have w: "is_within_range i64 (n div m)" if "2 \<le> m" "m \<le> 1000000000" for m
    using r that by (intro div_within_range) (simp_all add: is_within_range_def)
  show "\<exists>d. from_nanoseconds n = Some d \<and> duration_ok d \<and> nanoseconds_of d = n"
    using w by (simp add: from_nanoseconds_def sane_mod_value)
  show "\<exists>d. from_microseconds n = Some d \<and> duration_ok d \<and> nanoseconds_of d = n * 1000"
    using w by (simp add: from_microseconds_def sane_mod_value) presburger
  show "\<exists>d. from_milliseconds n = Some d \<and> duration_ok d \<and> nanoseconds_of d = n * 1000000"
    using w by (simp add: from_milliseconds_def sane_mod_value) presburger
  show "duration_ok (from_seconds n) \<and> nanoseconds_of (from_seconds n) = n * 1000000000"
    using r by (simp add: from_seconds_def)
qed

lemma from_half_sanitized_saturates:
  assumes "is_within_range i64 s" "is_within_range i64 e" "0 \<le> n" "n < 1000000000"
  shows "\<exists>d. from_half_sanitized s e n = Some d \<and> duration_ok d \<and> nanoseconds_of d = saturate ((s + e) * 1000000000 + n)"
proof (cases "is_within_range i64 (s + e)")
  case True
  then show ?thesis
    using assms saturate_Duration [of n "s + e"]
    by (auto simp: from_half_sanitized_def addition_would_overflow_def is_within_range_def saturate_def)
next
  case False
  then show ?thesis
    using assms
    by (auto simp: from_half_sanitized_def addition_would_overflow_def not_is_within_range saturate_def)
qed

lemma sane_mod_i32_value:
  assumes "is_within_range i32 n" "2 \<le> m" "m \<le> 1000000000"
  shows "sane_mod_i32 n m = Some (n div m, n mod m)"
proof -
  have "is_within_range i32 (n div m)"
    using assms by (intro div_within_range) (simp_all add: is_within_range_def)
  moreover have "0 \<le> n mod m" "n mod m < m"
    using assms by simp_all
  then have "is_within_range i32 (n mod m)"
    unfolding is_within_range_def i32_simps using assms(3) by linarith
  ultimately show ?thesis
    using assms by (simp add: sane_mod_i32_def sane_mod_value)
qed

lemma from_timespec_saturates:
  assumes "is_within_range i64 (tv_sec ts)" "is_within_range i32 (tv_nsec ts)"
  shows "\<exists>d. from_timespec ts = Some d \<and> duration_ok d \<and>
    nanoseconds_of d = saturate (tv_sec ts * 1000000000 + tv_nsec ts)"
proof -
  have "is_within_range i64 (tv_nsec ts div 1000000000)"
    using assms(2) by (intro div_within_range) (simp_all add: is_within_range_def)
  then show ?thesis
    using assms from_half_sanitized_saturates [of "tv_sec ts" "tv_nsec ts div 1000000000" "tv_nsec ts mod 1000000000"]
    by (simp add: from_timespec_def sane_mod_i32_value distrib_right add.assoc)
qed

subsection \<open>Lemmas on the calendar\<close>

lemma smod_eq_0: "(n::int) smod m = 0 \<longleftrightarrow> n mod m = 0"
  by (auto simp: smod_int_alt_def sgn_if simp flip: dvd_eq_mod_eq_0)

lemma is_leap_year_mod: "is_leap_year y \<longleftrightarrow> y mod 4 = 0 \<and> (y mod 100 \<noteq> 0 \<or> y mod 400 = 0)"
  by (simp add: is_leap_year_def smod_eq_0)

lemma floor_div_by_div:
  assumes k: "1 < k"
  shows "floor_div_by k n = n div k"
proof (cases "n < -1")
  case True
  have q: "n + 1 = k * (n div k) + (n mod k + 1)" "0 \<le> n mod k" "n mod k < k"
    using k by simp_all
  have "(n + 1) sdiv k = n div k + 1"
  proof (cases "n mod k = k - 1")
    case True
    then have "n + 1 = (n div k + 1) * k"
      using q(1) by (simp add: algebra_simps)
    then show ?thesis
      using k rounding_cases(1) [of k "n + 1"] by simp
  next
    case False
    then have "(n + 1) div k = n div k" "(n + 1) mod k = n mod k + 1"
      using q int_div_pos_eq [OF q(1)] int_mod_pos_eq [OF q(1)] by simp_all
    moreover have "n mod k + 1 \<noteq> 0"
      using q(2) by linarith
    ultimately show ?thesis
      using k True rounding_cases(1) [of k "n + 1"] by simp
  qed
  then show ?thesis
    using True by (simp add: floor_div_by_def)
next
  case False
  then consider "n = -1" | "0 \<le> n"
    by linarith
  then show ?thesis
    using k by cases (simp_all add: floor_div_by_def rounding_cases zdiv_eq_0_iff div_eq_minus1)
qed

definition leap_days_before :: "int \<Rightarrow> int" where
  "leap_days_before y = (y - 1) div 4 - (y - 1) div 100 + (y - 1) div 400"

lemma years_to_days_closed: "years_to_days_since_epoch y = 365 * (y - 1970) + leap_days_before y - leap_days_before 1970"
  by (simp add: years_to_days_since_epoch_def mod_zeros_in_range_def floor_div_by_div leap_days_before_def)

lemma div_diff_pred:
  fixes y :: int
  assumes "0 < k"
  shows "y div k = (y - 1) div k + (if y mod k = 0 then 1 else 0)"
proof -
  have e: "y = (y div k) * k + y mod k" "0 \<le> y mod k" "y mod k < k"
    using assms by simp_all
  show ?thesis
  proof (cases "y mod k = 0")
    case True
    then have "y - 1 = k * (y div k - 1) + (k - 1)"
      using e(1) by (simp add: algebra_simps)
    then show ?thesis
      using True assms int_div_pos_eq [of "y - 1" k "y div k - 1" "k - 1"] by simp
  next
    case False
    then have "y - 1 = k * (y div k) + (y mod k - 1)"
      using e(1) by (simp add: algebra_simps)
    then show ?thesis
      using False e int_div_pos_eq [of "y - 1" k "y div k" "y mod k - 1"] by simp
  qed
qed

lemma leap_day_count:
  fixes a b c :: int
  assumes "p400 \<Longrightarrow> p100" "p100 \<Longrightarrow> p4"
  shows "a + (if p4 then 1 else 0) - (b + (if p100 then 1 else 0)) + (c + (if p400 then 1 else 0)) =
    a - b + c + (if p4 \<and> (\<not> p100 \<or> p400) then 1 else 0)"
  using assms by auto

lemma leap_days_before_Suc: "leap_days_before (y + 1) = leap_days_before y + (if is_leap_year y then 1 else 0)"
proof -
  have d: "(100::int) dvd 400" "(4::int) dvd 100"
    by simp_all
  have i: "y mod 400 = 0 \<Longrightarrow> y mod 100 = 0" "y mod 100 = 0 \<Longrightarrow> y mod 4 = 0"
    by (metis d dvd_eq_mod_eq_0 dvd_trans)+
  have s: "y div 4 = (y - 1) div 4 + (if y mod 4 = 0 then 1 else 0)"
    "y div 100 = (y - 1) div 100 + (if y mod 100 = 0 then 1 else 0)"
    "y div 400 = (y - 1) div 400 + (if y mod 400 = 0 then 1 else 0)"
    by (rule div_diff_pred, simp)+
  show ?thesis
    unfolding leap_days_before_def is_leap_year_mod add_diff_cancel_right' s
    by (rule leap_day_count) (fact i)+
qed

lemma year_length: "years_to_days_since_epoch (y + 1) = years_to_days_since_epoch y + days_in_year y"
  by (simp add: years_to_days_closed leap_days_before_Suc days_in_year_def)

lemma month_cases:
  fixes m :: nat
  assumes "1 \<le> m" "m \<le> 12"
  obtains "m = 1" | "m = 2" | "m = 3" | "m = 4" | "m = 5" | "m = 6"
    | "m = 7" | "m = 8" | "m = 9" | "m = 10" | "m = 11" | "m = 12"
proof -
  have "m = 1 \<or> m = 2 \<or> m = 3 \<or> m = 4 \<or> m = 5 \<or> m = 6 \<or> m = 7 \<or> m = 8 \<or> m = 9 \<or> m = 10 \<or> m = 11 \<or> m = 12"
    using assms by presburger
  then show thesis
    using that by blast
qed

lemma day_of_year_value:
  assumes "1 \<le> m" "m \<le> 12" "-1000000000 \<le> d" "d \<le> 1000000000"
  shows "day_of_year y m d = Some (month_offsets ! (m - 1) + d - 1 + (if is_leap_year y \<and> 3 \<le> m then 1 else 0))"
  by (rule month_cases [OF assms(1,2)])
    (use assms(3,4) in \<open>simp_all add: day_of_year_def month_offsets_def plain_def is_within_range_def\<close>)

lemma days_since_epoch_value:
  assumes "1 \<le> m" "m \<le> 12" "-1000000000 \<le> d" "d \<le> 1000000000"
  shows "days_since_epoch y m d = Some (years_to_days_since_epoch y + month_offsets ! (m - 1) + d - 1 +
    (if is_leap_year y \<and> 3 \<le> m then 1 else 0))"
  by (simp add: days_since_epoch_def day_of_year_value [OF assms])

text \<open>The calendar as a reader knows it: the day after a date.\<close>

definition valid_date :: "int \<Rightarrow> nat \<Rightarrow> int \<Rightarrow> bool" where
  "valid_date year month day \<longleftrightarrow>
     (case days_in_month year month of None \<Rightarrow> False | Some days \<Rightarrow> 1 \<le> day \<and> day \<le> days)"

definition next_day :: "int \<Rightarrow> nat \<Rightarrow> int \<Rightarrow> int \<times> nat \<times> int" where
  "next_day year month day =
     (if days_in_month year month \<noteq> Some day then (year, month, day + 1)
      else if month = 12 then (year + 1, 1, 1)
      else (year, month + 1, 1))"

lemma valid_date_bounds:
  assumes "valid_date y m d"
  shows "1 \<le> m" "m \<le> 12" "1 \<le> d" "d \<le> 31"
  using assms by (auto simp: valid_date_def days_in_month_def Let_def split: if_splits option.splits)

lemma next_day_counts:
  assumes v: "valid_date y m d"
  shows "case next_day y m d of (y', m', d') \<Rightarrow>
    valid_date y' m' d' \<and> days_since_epoch y' m' d' = map_option (\<lambda>n. n + 1) (days_since_epoch y m d)"
proof -
  note b = valid_date_bounds [OF v]
  show ?thesis
    by (rule month_cases [OF b(1,2)])
      (use v b in \<open>simp_all add: next_day_def valid_date_def days_since_epoch_value year_length days_in_year_def
        days_in_month_def Let_def month_offsets_def\<close>)
qed

lemma week_day_residue:
  fixes y a b c d t o e :: int
  assumes "e = 7 * g + t + 1"
  shows "(y + a - b + c + t + d) mod 7 = (365 * (y - 1970) + (a - b + c) - 477 + e + d - 1 + 4) mod 7"
proof -
  have "(365 * (y - 1970) + (a - b + c) - 477 + e + d - 1 + 4) - (y + a - b + c + t + d) = 7 * (52 * y - 102789 + g)"
    using assms by simp
  then show ?thesis
    by (metis mod_eq_dvd_iff dvd_triv_left)
qed

lemma day_of_week_chain:
  assumes "0 \<le> z" "z \<le> 500000000" "0 \<le> a" "a \<le> z" "0 \<le> b" "b \<le> z" "0 \<le> c" "c \<le> z"
    "0 \<le> t" "t \<le> 6" "1 \<le> d" "d \<le> 31"
  shows "do {
      sum \<leftarrow> plain i32 (z + a);
      sum \<leftarrow> plain i32 (sum - b);
      sum \<leftarrow> plain i32 (sum + c);
      sum \<leftarrow> plain i32 (sum + t);
      sum \<leftarrow> plain i32 (sum + d);
      Some (wrap (unsigned_type 32) (sum smod 7))
    } = Some ((z + a - b + c + t + d) mod 7)"
proof -
  let ?u = "z + a - b + c + t + d"
  have "?u smod 7 = ?u mod 7"
    using assms by (simp add: signed_modulo_int_eq_modulo_int sgn_if)
  moreover have "0 \<le> ?u mod 7" "?u mod 7 < 7"
    by simp_all
  then have "wrap (unsigned_type 32) (?u mod 7) = ?u mod 7"
    by (intro wrap_id) (simp add: is_within_range_def unsigned_type_def)
  ultimately show ?thesis
    using assms by (simp add: plain_def is_within_range_def)
qed

lemma day_of_week_value:
  assumes m: "1 \<le> m" "m \<le> 12" and y: "1 \<le> y" "y \<le> 500000000" and d: "1 \<le> d" "d \<le> 31"
  defines "z \<equiv> if m < 3 then y - 1 else y"
  shows "day_of_week y m d = Some ((z + z div 4 - z div 100 + z div 400 + week_offsets ! (m - 1) + d) mod 7)"
proof -
  have z: "0 \<le> z" "z \<le> 500000000" "(if m < 3 then plain i32 (y - 1) else Some y) = Some z"
    using y by (auto simp: z_def plain_def is_within_range_def)
  have t: "0 \<le> week_offsets ! (m - 1)" "week_offsets ! (m - 1) \<le> 6"
    by (rule month_cases [OF m]; simp add: week_offsets_def)+
  have q: "0 \<le> z div k" "z div k \<le> z" "z sdiv k = z div k" if "0 < k" for k
    using z that rounding_cases(1) [of k z] zdiv_mono2 [of z 1 k] by (auto simp: pos_imp_zdiv_nonneg_iff)
  show ?thesis
    unfolding day_of_week_def z(3) using m day_of_week_chain [OF z(1,2) q(1,2) q(1,2) q(1,2) t d, of 4 100 400]
    by (simp add: q(3))
qed

lemma day_of_week_days:
  assumes m: "1 \<le> m" "m \<le> 12" and y: "1 \<le> y" "y \<le> 500000000" and d: "1 \<le> d" "d \<le> 31"
  shows "day_of_week y m d = map_option (\<lambda>n. (n + 4) mod 7) (days_since_epoch y m d)"
proof -
  define z where "z = (if m < 3 then y - 1 else y)"
  define e where "e = month_offsets ! (m - 1) + (if m < 3 then 365 else 0)"
  have "\<exists>g. e = 7 * g + week_offsets ! (m - 1) + 1"
    by (rule month_cases [OF m]; simp add: e_def month_offsets_def week_offsets_def; presburger)
  then obtain g where g: "e = 7 * g + week_offsets ! (m - 1) + 1" ..
  have l: "leap_days_before 1970 = 477"
    by (simp add: leap_days_before_def)
  have "days_since_epoch y m d = Some (365 * (z - 1970) + leap_days_before (z + 1) - 477 + e + d - 1)"
    using days_since_epoch_value [OF m, of d y] d l leap_days_before_Suc [of y]
    by (simp add: years_to_days_closed z_def e_def)
  then show ?thesis
    using day_of_week_value [OF m y d] week_day_residue [OF g, of z "z div 4" "z div 100" "z div 400" d]
    by (simp add: z_def [symmetric] leap_days_before_def)
qed

lemma years_to_days_bounds:
  assumes "is_within_range i32 y"
  shows "-10000000000000 \<le> years_to_days_since_epoch y \<and> years_to_days_since_epoch y \<le> 10000000000000"
proof -
  have "is_within_range i64 (y - 1)" "-2147483649 \<le> y - 1" "y - 1 \<le> 2147483646"
    using assms by (simp_all add: is_within_range_def)
  then have "-2147483649 \<le> (y - 1) div k \<and> (y - 1) div k \<le> 2147483649" if "0 < k" for k
    using that div_within_range [of "\<lparr>type_min = -2147483649, type_max = 2147483649\<rparr>" "y - 1" k]
    by (simp add: is_within_range_def)
  from this [of 4] this [of 100] this [of 400] show ?thesis
    using assms by (simp add: years_to_days_closed leap_days_before_def is_within_range_def)
qed

lemma from_unix_time_parts_value:
  assumes y: "is_within_range i32 y" and m: "1 \<le> m" "m \<le> 12" and d: "1 \<le> d" "d \<le> 31"
    and t: "0 \<le> h" "h \<le> 255" "0 \<le> mi" "mi \<le> 255" "0 \<le> s" "s \<le> 255"
  shows "\<exists>days. days_since_epoch y m d = Some days \<and> duration_ok (from_seconds (days * 86400 + h * 3600 + mi * 60 + s)) \<and>
    from_unix_time_parts y m d h mi s 0 = Some (from_seconds (days * 86400 + h * 3600 + mi * 60 + s))"
proof -
  have o: "0 \<le> month_offsets ! (m - 1)" "month_offsets ! (m - 1) \<le> 334"
    by (rule month_cases [OF m]; simp add: month_offsets_def)+
  obtain days where days: "days_since_epoch y m d = Some days" "-10000000000001 \<le> days" "days \<le> 10000000001000"
    using days_since_epoch_value [OF m, of d y] d o years_to_days_bounds [OF y] by simp
  let ?s = "days * 86400 + h * 3600 + mi * 60 + s"
  have ok: "is_within_range i64 ?s"
    using days(2,3) t by (simp add: is_within_range_def)
  then have "from_milliseconds 0 = Some (Duration 0 0)" "duration_add (from_seconds ?s) (Duration 0 0) = Some (from_seconds ?s)"
    by (simp_all add: from_milliseconds_def sane_mod_value duration_add_def from_seconds_def Let_def add_seconds_def
        checked_defs checked_of_simps)
  then show ?thesis
    using days(1) ok by (simp add: from_unix_time_parts_def) (simp add: from_seconds_def)
qed

subsection \<open>Properties\<close>

text \<open>
  C34. Duration refines saturating integer arithmetic: for durations in normal form, addition and
  subtraction never fail, keep the normal form, and give the sum and the difference of the nanoseconds,
  or the closest of the least and the greatest duration; the comparison is that of the nanoseconds, and
  equal durations are those with equal nanoseconds.
\<close>

theorem duration_arithmetic_refines:
  assumes "duration_ok a" "duration_ok b"
  shows "(\<exists>c. duration_add a b = Some c \<and> duration_ok c \<and>
            nanoseconds_of c = saturate (nanoseconds_of a + nanoseconds_of b)) \<and>
         (\<exists>c. duration_sub a b = Some c \<and> duration_ok c \<and>
            nanoseconds_of c = saturate (nanoseconds_of a - nanoseconds_of b)) \<and>
         duration_compare a b = sgn (nanoseconds_of a - nanoseconds_of b) \<and>
         (a = b \<longleftrightarrow> nanoseconds_of a = nanoseconds_of b)"
  using assms duration_add_saturates duration_sub_saturates duration_compare_sgn nanoseconds_of_inject by simp

theorem duration_arithmetic_refines_witness:
  "(\<exists>c. duration_sub (Duration (-1) 0) min_duration = Some c \<and> duration_ok c \<and>
     nanoseconds_of c = saturate (-1000000000 - nanoseconds_of min_duration)) \<and>
   duration_sub (Duration (-1) 0) min_duration = Some (Duration 9223372036854775807 0)"
  using duration_arithmetic_refines [of "Duration (-1) 0" min_duration]
  by (simp add: is_within_range_def) (simp add: duration_sub_def min_duration_def)

text \<open>
  \<^verbatim>\<open>from_timespec\<close> accepts a time that is not in normal form and saturates, as long as its
  nanoseconds fit an \<^verbatim>\<open>i32\<close>; three seconds given in nanoseconds lose their upper bits.
  \<^verbatim>\<open>from_ticks\<close> takes the remainder of the ticks by the frequency for the whole seconds: five ticks of
  a hundredth of a second are converted to more than four seconds.
\<close>

lemma system_time_conversions:
  "(is_within_range i64 (tv_sec ts) \<and> is_within_range i32 (tv_nsec ts) \<longrightarrow>
     (\<exists>d. from_timespec ts = Some d \<and> duration_ok d \<and>
        nanoseconds_of d = saturate (tv_sec ts * 1000000000 + tv_nsec ts))) \<and>
   from_timespec \<lparr>tv_sec = 0, tv_nsec = 3000000000\<rparr> = Some (Duration (-2) 705032704) \<and>
   from_ticks 5 100 = Some (Duration 4 344967296)"
proof -
  have "from_timespec \<lparr>tv_sec = 0, tv_nsec = 3000000000\<rparr> = Some (Duration (-2) 705032704)"
    "from_ticks 5 100 = Some (Duration 4 344967296)"
    by code_simp+
  then show ?thesis
    using from_timespec_saturates by blast
qed

lemma system_time_conversions_witness:
  "\<exists>d. from_timespec \<lparr>tv_sec = 1, tv_nsec = 2012345678\<rparr> = Some d \<and> duration_ok d \<and> nanoseconds_of d = 3012345678"
  using system_time_conversions [of "\<lparr>tv_sec = 1, tv_nsec = 2012345678\<rparr>"]
  by (simp add: is_within_range_def saturate_def)

text \<open>
  C36. The conversions: the truncating ones round the nanoseconds towards zero, the others away from
  zero, and a result that does not fit an \<^verbatim>\<open>i64\<close> is the closest one that does.  In particular a
  negative time is truncated to a later one.  \<^verbatim>\<open>from_timespec\<close> saturates as long as the nanoseconds fit an
  \<^verbatim>\<open>i32\<close> and loses upper bits beyond; \<^verbatim>\<open>from_ticks\<close> makes more than four seconds of five hundredths.
\<close>

theorem duration_conversions:
  assumes "duration_ok d"
  shows "to_truncated_seconds d = Some (nanoseconds_of d sdiv 1000000000) \<and>
         to_truncated_milliseconds d = Some (clamp i64 (nanoseconds_of d sdiv 1000000)) \<and>
         to_truncated_microseconds d = Some (clamp i64 (nanoseconds_of d sdiv 1000)) \<and>
         to_seconds d = Some (clamp i64 (round_away (nanoseconds_of d) 1000000000)) \<and>
         to_milliseconds d = Some (clamp i64 (round_away (nanoseconds_of d) 1000000)) \<and>
         to_microseconds d = Some (clamp i64 (round_away (nanoseconds_of d) 1000)) \<and>
         to_nanoseconds d = Some (clamp i64 (nanoseconds_of d)) \<and>
         (is_within_range i64 (tv_sec ts) \<and> is_within_range i32 (tv_nsec ts) \<longrightarrow>
           (\<exists>d. from_timespec ts = Some d \<and> duration_ok d \<and>
              nanoseconds_of d = saturate (tv_sec ts * 1000000000 + tv_nsec ts))) \<and>
         from_timespec \<lparr>tv_sec = 0, tv_nsec = 3000000000\<rparr> = Some (Duration (-2) 705032704) \<and>
         from_ticks 5 100 = Some (Duration 4 344967296)"
  using assms system_time_conversions [of ts] truncated_units_value [OF assms, of 1000 1000000] truncated_units_value [OF assms, of 1000000 1000]
    rounded_units_value [OF assms, of 1000 1000000] rounded_units_value [OF assms, of 1000000 1000]
    rounded_units_value [OF assms, of 1000000000 1]
  by (simp add: to_truncated_seconds_value to_truncated_milliseconds_def to_truncated_microseconds_def
      to_seconds_value to_milliseconds_def to_microseconds_def to_nanoseconds_rounded round_away_def)

theorem duration_conversions_witness:
  "to_truncated_seconds (Duration (-2) 500000000) = Some (-1) \<and>
   nanoseconds_of (Duration (-2) 500000000) < nanoseconds_of (Duration (-1) 0) \<and>
   to_milliseconds (Duration 1 1) = Some 1001"
  using duration_conversions [of "Duration (-2) 500000000"] duration_conversions [of "Duration 1 1"]
  by (simp add: is_within_range_def signed_divide_int_def round_away_def clamp_def)

text \<open>
  C35. \<^verbatim>\<open>days_since_epoch\<close> numbers the days of the Gregorian calendar: the first of January 1970 is day
  zero, and the day after a valid date, in the same month, the next month or the next year, is a valid
  date with the next number.
\<close>

theorem days_since_epoch_counts_days:
  "days_since_epoch 1970 1 1 = Some 0 \<and>
   (valid_date y m d \<longrightarrow>
     (case next_day y m d of (y', m', d') \<Rightarrow>
        valid_date y' m' d' \<and> days_since_epoch y' m' d' = map_option (\<lambda>n. n + 1) (days_since_epoch y m d)))"
  using next_day_counts [of y m d]
  by (simp add: days_since_epoch_value years_to_days_closed month_offsets_def)

theorem days_since_epoch_counts_days_witness:
  "valid_date 2000 2 28 \<and> next_day 2000 2 28 = (2000, 2, 29) \<and>
   days_since_epoch 2000 2 29 = map_option (\<lambda>n. n + 1) (days_since_epoch 2000 2 28)"
  using days_since_epoch_counts_days [of 2000 2 28]
  by (simp add: valid_date_def next_day_def days_in_month_def is_leap_year_mod)

text \<open>
  C37. \<^verbatim>\<open>day_of_week\<close> agrees with the day count for every valid date of the years 1 to 500000000 (day 0
  of the epoch is a Thursday).  Outside that range the C++ division, which truncates towards zero, gives
  wrong answers: the first of January of the year 0, a Saturday, is reported as a Sunday, and a negative
  day, which the header allows, can give a number that is no day of the week.
\<close>

theorem day_of_week_correct:
  "(valid_date y m d \<and> 1 \<le> y \<and> y \<le> 500000000 \<longrightarrow>
     day_of_week y m d = map_option (\<lambda>n. (n + 4) mod 7) (days_since_epoch y m d)) \<and>
   day_of_week 0 1 1 = Some 0 \<and> map_option (\<lambda>n. (n + 4) mod 7) (days_since_epoch 0 1 1) = Some 6 \<and>
   day_of_week 1 1 (-5) = Some 4294967291"
proof -
  have "valid_date y m d \<and> 1 \<le> y \<and> y \<le> 500000000 \<longrightarrow>
     day_of_week y m d = map_option (\<lambda>n. (n + 4) mod 7) (days_since_epoch y m d)"
    using day_of_week_days valid_date_bounds by blast
  moreover have "day_of_week 0 1 1 = Some 0" "day_of_week 1 1 (-5) = Some 4294967291"
    by code_simp+
  moreover have "map_option (\<lambda>n. (n + 4) mod 7) (days_since_epoch 0 1 1) = Some 6"
    by (simp add: days_since_epoch_value years_to_days_closed leap_days_before_def month_offsets_def)
  ultimately show ?thesis
    by blast
qed

theorem day_of_week_correct_witness:
  "valid_date 2024 2 29 \<and> day_of_week 2024 2 29 = map_option (\<lambda>n. (n + 4) mod 7) (days_since_epoch 2024 2 29)"
  using day_of_week_correct [of 2024 2 29]
  by (simp add: valid_date_def days_in_month_def is_leap_year_mod)

end
