(* ===== verification/CookieDates.thy ===== *)
theory CookieDates
  imports Ipv4 DateTime
begin

text \<open>
  The cookie dates of \<^verbatim>\<open>LibWeb/Cookie/ParsedCookie.cpp\<close>: a date string is cut into tokens, and each token is
  tried as a time, a day, a month and a year, in this order, unless that part has been found.  The date
  format that HTTP prescribes is printed here to state that it is read back.
\<close>

text \<open>An \<^verbatim>\<open>Optional\<close> or \<^verbatim>\<open>ErrorOr\<close> whose value is asserted.\<close>

fun asserted :: "'a option \<Rightarrow> 'a outcome" where
  "asserted None = Crash"
| "asserted (Some x) = Success x"

definition split_view_char :: "bytes \<Rightarrow> char \<Rightarrow> bytes list" where
  "split_view_char view separator = (case split_view view [separator] Split_Nothing of None \<Rightarrow> [] | Some parts \<Rightarrow> parts)"

subsection \<open>The parser\<close>

record date_parser =
  date_hour :: nat
  date_minute :: nat
  date_second :: nat
  date_day_of_month :: nat
  date_month :: nat
  date_year :: nat
  found_time :: bool
  found_day_of_month :: bool
  found_month :: bool
  found_year :: bool

definition new_date_parser :: date_parser where
  "new_date_parser =
     \<lparr>date_hour = 0, date_minute = 0, date_second = 0, date_day_of_month = 0, date_month = 0, date_year = 0,
      found_time = False, found_day_of_month = False, found_month = False, found_year = False\<rparr>"

definition short_month_names :: "bytes list" where
  "short_month_names = [''Jan'', ''Feb'', ''Mar'', ''Apr'', ''May'', ''Jun'',
     ''Jul'', ''Aug'', ''Sep'', ''Oct'', ''Nov'', ''Dec'']"

definition to_uint :: "bytes \<Rightarrow> nat option" where
  "to_uint token =
     (if \<not> list_all (\<lambda>c. is_ascii_digit (ord_of c)) token then None
      else convert_to_uint (2 ^ 32 - 1) token True)"

text \<open>A token parser returns whether the token matched, and the updated variables.\<close>

definition parse_time :: "bytes \<Rightarrow> date_parser \<Rightarrow> bool \<times> date_parser" where
  "parse_time token st =
     (let parts = split_view_char token CHR '':'' in
      if length parts \<noteq> 3 then (False, st)
      else if list_ex (\<lambda>part. part = [] \<or> length part > 2) parts then (False, st)
      else (case to_uint (parts ! 0) of
              None \<Rightarrow> (False, st)
            | Some h \<Rightarrow>
                let st = st\<lparr>date_hour := h\<rparr> in
                (case to_uint (parts ! 1) of
                   None \<Rightarrow> (False, st)
                 | Some m \<Rightarrow>
                     let st = st\<lparr>date_minute := m\<rparr> in
                     (case to_uint (parts ! 2) of
                        None \<Rightarrow> (False, st)
                      | Some s \<Rightarrow> (True, st\<lparr>date_second := s\<rparr>)))))"

definition parse_day_of_month :: "bytes \<Rightarrow> date_parser \<Rightarrow> bool \<times> date_parser" where
  "parse_day_of_month token st =
     (if token = [] \<or> length token > 2 then (False, st)
      else case to_uint token of None \<Rightarrow> (False, st) | Some d \<Rightarrow> (True, st\<lparr>date_day_of_month := d\<rparr>))"

definition month_index :: "bytes \<Rightarrow> nat option" where
  "month_index token = find (\<lambda>i. equals_ignoring_ascii_case token (short_month_names ! i)) [0..<12]"

definition parse_month :: "bytes \<Rightarrow> date_parser \<Rightarrow> bool \<times> date_parser" where
  "parse_month token st =
     (case month_index token of
        None \<Rightarrow> (False, st)
      | Some i \<Rightarrow> (True, st\<lparr>date_month := i + 1\<rparr>))"

definition parse_year :: "bytes \<Rightarrow> date_parser \<Rightarrow> bool \<times> date_parser" where
  "parse_year token st =
     (if length token \<noteq> 2 \<and> length token \<noteq> 4 then (False, st)
      else case to_uint token of None \<Rightarrow> (False, st) | Some y \<Rightarrow> (True, st\<lparr>date_year := y\<rparr>))"

definition is_delimiter :: "char \<Rightarrow> bool" where
  "is_delimiter ch \<longleftrightarrow> (let c = ord_of ch in
     c = 0x09 \<or> (c \<ge> 0x20 \<and> c \<le> 0x2f) \<or> (c \<ge> 0x3b \<and> c \<le> 0x40) \<or> (c \<ge> 0x5b \<and> c \<le> 0x60) \<or> (c \<ge> 0x7b \<and> c \<le> 0x7e))"

text \<open>
  A production that is already found is not tried again; one that does not match is followed by the next
  one, with the variables it has set.
\<close>

definition try_production ::
  "(date_parser \<Rightarrow> bool) \<Rightarrow> (date_parser \<Rightarrow> bool \<times> date_parser) \<Rightarrow> (date_parser \<Rightarrow> date_parser) \<Rightarrow>
   (date_parser \<Rightarrow> date_parser) \<Rightarrow> date_parser \<Rightarrow> date_parser" where
  "try_production found parse set_found otherwise st =
     (if found st then otherwise st
      else case parse st of (matched, st) \<Rightarrow> if matched then set_found st else otherwise st)"

definition process_date_token :: "bytes \<Rightarrow> date_parser \<Rightarrow> date_parser" where
  "process_date_token token =
     try_production found_time (parse_time token) (\<lambda>st. st\<lparr>found_time := True\<rparr>)
       (try_production found_day_of_month (parse_day_of_month token) (\<lambda>st. st\<lparr>found_day_of_month := True\<rparr>)
         (try_production found_month (parse_month token) (\<lambda>st. st\<lparr>found_month := True\<rparr>)
           (try_production found_year (parse_year token) (\<lambda>st. st\<lparr>found_year := True\<rparr>) (\<lambda>st. st))))"

definition full_year :: "nat \<Rightarrow> nat" where
  "full_year year =
     (let year = (if year \<ge> 70 \<and> year \<le> 99 then year + 1900 else year)
      in if year \<le> 69 then year + 2000 else year)"

definition date_from_parts :: "date_parser \<Rightarrow> nat \<Rightarrow> unix_date_time outcome" where
  "date_from_parts st year =
     (if \<not> found_day_of_month st \<or> \<not> found_month st \<or> \<not> found_year st \<or> \<not> found_time st then Failure
      else if date_day_of_month st < 1 \<or> date_day_of_month st > 31 then Failure
      else if year < 1601 then Failure
      else if date_hour st > 23 then Failure
      else if date_minute st > 59 then Failure
      else if date_second st > 59 then Failure
      else outcome_bind (asserted (days_in_month (int year) (date_month st))) (\<lambda>days.
        if int (date_day_of_month st) > days then Failure
        else asserted (from_unix_time_parts (int year) (date_month st) (int (date_day_of_month st))
               (int (date_hour st)) (int (date_minute st)) (int (date_second st)) 0)))"

definition parse_date_time :: "bytes \<Rightarrow> unix_date_time outcome" where
  "parse_date_time date_string =
     (let st = fold process_date_token (split_view_if date_string is_delimiter Split_Nothing) new_date_parser
      in date_from_parts st (full_year (date_year st)))"

subsection \<open>Texts without white space\<close>

lemma trim_whitespace_visible:
  assumes "list_all (\<lambda>c. 0x20 < ord_of c) cs"
  shows "trim_whitespace cs TrimBoth = cs"
proof -
  let ?ws = "[CHR '' '', CHR 0x0A, CHR 0x09, CHR 0x0B, CHR 0x0C, CHR 0x0D]"
  have v: "c \<notin> set ?ws" if "c \<in> set cs" for c
    using assms that by (auto simp: list_all_iff)
  have h: "dropWhile (\<lambda>c. c \<in> set ?ws) xs = xs" if "set xs \<subseteq> set cs" for xs
    using v that by (cases xs) auto
  show ?thesis
    unfolding trim_whitespace_def trim_both by (simp add: h del: list.set set_simps)
qed

lemma trim_whitespace_length: "length (trim_whitespace cs TrimBoth) \<le> length cs"
  unfolding trim_whitespace_def trim_both
  by (metis (no_types, lifting) length_dropWhile_le length_rev order_trans)

lemma trim_whitespace_set: "set (trim_whitespace cs TrimBoth) \<subseteq> set cs"
  unfolding trim_whitespace_def trim_both set_rev by (intro subsetI) (metis set_dropWhileD set_rev)

lemma digit_visible:
  "list_all (\<lambda>c. is_ascii_digit (ord_of c)) cs \<Longrightarrow> list_all (\<lambda>c. 0x20 < ord_of c) cs"
  by (auto simp: list_all_iff is_ascii_digit_def)

subsection \<open>The token loop\<close>

text \<open>What the token loop keeps: a month that has been found is a month.\<close>

definition date_parser_ok :: "date_parser \<Rightarrow> bool" where
  "date_parser_ok st \<longleftrightarrow> (found_month st \<longrightarrow> 1 \<le> date_month st \<and> date_month st \<le> 12) \<and> date_year st \<le> 9999"

lemma to_uint_Some:
  "to_uint cs = Some n \<longleftrightarrow> cs \<noteq> [] \<and> list_all (\<lambda>c. is_ascii_digit (ord_of c)) cs \<and>
     n = foldl (\<lambda>v d. v * 10 + d) 0 (map (\<lambda>c. ord_of c - 48) cs) \<and> n \<le> 2 ^ 32 - 1"
proof (cases "list_all (\<lambda>c. is_ascii_digit (ord_of c)) cs")
  case True
  then have "trim_whitespace cs TrimBoth = cs"
    by (intro trim_whitespace_visible digit_visible)
  then show ?thesis
    using True by (auto simp: to_uint_def convert_to_uint_def uint_loop_Some)
qed (simp add: to_uint_def)

lemma foldl_digits_bound:
  assumes "list_all (\<lambda>c. is_ascii_digit (ord_of c)) cs"
  shows "foldl (\<lambda>v d. v * 10 + d) v (map (\<lambda>c. ord_of c - 48) cs) < (v + 1) * 10 ^ length cs"
  using assms
proof (induction cs arbitrary: v)
  case (Cons c cs)
  have "v * 10 + (ord_of c - 48) + 1 \<le> (v + 1) * 10"
    using Cons.prems by (auto simp: is_ascii_digit_def)
  then have le: "(v * 10 + (ord_of c - 48) + 1) * 10 ^ length cs \<le> (v + 1) * 10 * 10 ^ length cs"
    by (rule mult_le_mono1)
  have "foldl (\<lambda>v d. v * 10 + d) v (map (\<lambda>c. ord_of c - 48) (c # cs)) < (v * 10 + (ord_of c - 48) + 1) * 10 ^ length cs"
    using Cons.IH [of "v * 10 + (ord_of c - 48)"] Cons.prems by simp
  also note le
  also have "(v + 1) * 10 * 10 ^ length cs = (v + 1) * 10 ^ length (c # cs)"
    by (simp add: algebra_simps)
  finally show ?case .
qed simp

lemma to_uint_bound: "to_uint cs = Some n \<Longrightarrow> n < 10 ^ length cs"
  using foldl_digits_bound [of cs 0] by (auto simp: to_uint_Some)

lemma month_index_bound: "month_index token = Some i \<Longrightarrow> i < 12"
  unfolding month_index_def find_Some_iff by auto

lemma try_production_ok:
  assumes "date_parser_ok st"
    and "\<And>st b st'. date_parser_ok st \<Longrightarrow> parse st = (b, st') \<Longrightarrow> date_parser_ok st' \<and> (b \<longrightarrow> date_parser_ok (set_found st'))"
    and "\<And>st. date_parser_ok st \<Longrightarrow> date_parser_ok (otherwise st)"
  shows "date_parser_ok (try_production found parse set_found otherwise st)"
  using assms by (auto simp: try_production_def split: prod.split)

lemma parse_time_ok:
  "date_parser_ok st \<Longrightarrow> parse_time token st = (b, st') \<Longrightarrow> date_parser_ok st' \<and> (b \<longrightarrow> date_parser_ok (st'\<lparr>found_time := True\<rparr>))"
  by (auto simp: parse_time_def date_parser_ok_def Let_def split: option.splits if_splits)

lemma parse_day_of_month_ok:
  "date_parser_ok st \<Longrightarrow> parse_day_of_month token st = (b, st') \<Longrightarrow>
     date_parser_ok st' \<and> (b \<longrightarrow> date_parser_ok (st'\<lparr>found_day_of_month := True\<rparr>))"
  by (auto simp: parse_day_of_month_def date_parser_ok_def split: option.splits if_splits)

lemma parse_month_ok:
  assumes "date_parser_ok st" "parse_month token st = (b, st')"
  shows "date_parser_ok st' \<and> (b \<longrightarrow> date_parser_ok (st'\<lparr>found_month := True\<rparr>))"
proof (cases "month_index token")
  case None
  then show ?thesis
    using assms by (simp add: parse_month_def)
next
  case (Some i)
  have "i + 1 \<le> 12"
    using month_index_bound [OF Some] by simp
  then show ?thesis
    using assms Some by (auto simp: parse_month_def date_parser_ok_def)
qed

lemma parse_year_ok:
  assumes "date_parser_ok st" "parse_year token st = (b, st')"
  shows "date_parser_ok st' \<and> (b \<longrightarrow> date_parser_ok (st'\<lparr>found_year := True\<rparr>))"
proof (cases "to_uint token")
  case None
  then show ?thesis
    using assms by (simp add: parse_year_def split: if_splits)
next
  case (Some n)
  have "n \<le> 9999" if "length token = 2 \<or> length token = 4"
    using to_uint_bound [OF Some] that by auto
  then show ?thesis
    using assms Some by (auto simp: parse_year_def date_parser_ok_def split: if_splits)
qed

lemma process_date_token_ok: "date_parser_ok st \<Longrightarrow> date_parser_ok (process_date_token token st)"
  unfolding process_date_token_def
  by (assumption
      | rule try_production_ok [OF _ parse_time_ok] try_production_ok [OF _ parse_day_of_month_ok]
          try_production_ok [OF _ parse_month_ok] try_production_ok [OF _ parse_year_ok])+

lemma date_tokens_ok: "date_parser_ok st \<Longrightarrow> date_parser_ok (fold process_date_token tokens st)"
  by (induction tokens arbitrary: st) (simp_all add: process_date_token_ok)

lemma days_in_month_Some: "1 \<le> m \<Longrightarrow> m \<le> 12 \<Longrightarrow> \<exists>d. days_in_month y m = Some d \<and> d \<le> 31"
  by (simp add: days_in_month_def Let_def)

lemma full_year_bound: "y \<le> 9999 \<Longrightarrow> full_year y \<le> 9999"
  by (simp add: full_year_def Let_def)

lemma date_from_parts_ok:
  assumes ok: "date_parser_ok st" and y: "y \<le> 9999"
  shows "date_from_parts st y = Failure \<or> (\<exists>n. date_from_parts st y = Success (from_seconds n) \<and> duration_ok (from_seconds n))"
proof (cases "date_from_parts st y = Failure")
  case False
  then have c: "found_month st" "1 \<le> date_day_of_month st" "date_day_of_month st \<le> 31" "date_hour st \<le> 23"
      "date_minute st \<le> 59" "date_second st \<le> 59"
    unfolding date_from_parts_def by (metis not_le)+
  then have m: "1 \<le> date_month st" "date_month st \<le> 12"
    using ok by (simp_all add: date_parser_ok_def)
  obtain days where days: "days_in_month (int y) (date_month st) = Some days"
    using days_in_month_Some [OF m] by blast
  have r: "is_within_range i32 (int y)"
    using y by (simp add: is_within_range_def)
  obtain n where n: "from_unix_time_parts (int y) (date_month st) (int (date_day_of_month st))
      (int (date_hour st)) (int (date_minute st)) (int (date_second st)) 0 = Some (from_seconds n)"
    "duration_ok (from_seconds n)"
    using from_unix_time_parts_value [OF r m, of "int (date_day_of_month st)" "int (date_hour st)"
        "int (date_minute st)" "int (date_second st)"] c by auto
  then have "date_from_parts st y \<in> {Failure, Success (from_seconds n)}"
    using days by (simp add: date_from_parts_def)
  then show ?thesis
    using n(2) by blast
qed simp

lemma parse_date_time_ok:
  "parse_date_time s = Failure \<or> (\<exists>n. parse_date_time s = Success (from_seconds n) \<and> duration_ok (from_seconds n))"
proof -
  define st where "st = fold process_date_token (split_view_if s is_delimiter Split_Nothing) new_date_parser"
  have ok: "date_parser_ok st"
    unfolding st_def by (rule date_tokens_ok) (simp add: date_parser_ok_def new_date_parser_def)
  then have "full_year (date_year st) \<le> 9999"
    by (intro full_year_bound) (simp add: date_parser_ok_def)
  then show ?thesis
    using date_from_parts_ok [OF ok] by (simp add: parse_date_time_def Let_def st_def)
qed

subsection \<open>The date format of HTTP\<close>

abbreviation digit_char :: "nat \<Rightarrow> char" where
  "digit_char n \<equiv> char_of (48 + n)"

definition two_digits :: "nat \<Rightarrow> bytes" where
  "two_digits n = [digit_char (n div 10), digit_char (n mod 10)]"

definition four_digits :: "nat \<Rightarrow> bytes" where
  "four_digits n = [digit_char (n div 1000), digit_char (n div 100 mod 10), digit_char (n div 10 mod 10), digit_char (n mod 10)]"

definition short_day_names :: "bytes list" where
  "short_day_names = [''Sun'', ''Mon'', ''Tue'', ''Wed'', ''Thu'', ''Fri'', ''Sat'']"

definition time_text :: "nat \<Rightarrow> nat \<Rightarrow> nat \<Rightarrow> bytes" where
  "time_text h mi s = join_with '':'' [two_digits h, two_digits mi, two_digits s]"

definition http_date :: "bytes \<Rightarrow> nat \<Rightarrow> nat \<Rightarrow> nat \<Rightarrow> nat \<Rightarrow> nat \<Rightarrow> nat \<Rightarrow> bytes" where
  "http_date weekday y m d h mi s =
     weekday @ '', '' @ two_digits d @ '' '' @ short_month_names ! (m - 1) @ '' '' @ four_digits y @ '' '' @
     time_text h mi s @ '' GMT''"

lemma digit_char_facts:
  assumes "n < 10"
  shows "ord_of (digit_char n) = 48 + n" "is_ascii_digit (ord_of (digit_char n))" "\<not> is_delimiter (digit_char n)"
    "digit_char n \<noteq> CHR '':''"
  using assms by (simp_all add: is_ascii_digit_def is_delimiter_def Let_def char_eq_iff_ord)

lemma four_digits_bounds: "n \<le> 9999 \<Longrightarrow> n div 1000 < 10" "n div 100 mod 10 < 10" "n div 10 mod 10 < 10" "n mod 10 < (10::nat)"
  by auto

lemma to_uint_two_digits: "n \<le> 99 \<Longrightarrow> to_uint (two_digits n) = Some n"
  by (auto simp: to_uint_Some two_digits_def digit_char_facts is_ascii_digit_def)

lemma to_uint_four_digits:
  assumes "n \<le> 9999"
  shows "to_uint (four_digits n) = Some n"
proof -
  have "((n div 1000 * 10 + n div 100 mod 10) * 10 + n div 10 mod 10) * 10 + n mod 10 = n"
  proof -
    have "n div 100 = n div 10 div 10" "n div 1000 = n div 10 div 10 div 10"
      by (simp_all flip: div_mult2_eq)
    then show ?thesis
      by (simp only: div_mult_mod_eq)
  qed
  moreover have "k mod 10 \<le> (9::nat)" for k
    using mod_less_divisor [of 10 k] by linarith
  ultimately show ?thesis
    using assms four_digits_bounds [of n]
    by (simp add: to_uint_Some four_digits_def digit_char_facts is_ascii_digit_def)
qed

lemma two_digits_set: "n \<le> 99 \<Longrightarrow> c \<in> set (two_digits n) \<Longrightarrow> \<not> is_delimiter c \<and> c \<noteq> CHR '':''"
  by (auto simp: two_digits_def digit_char_facts)

lemma four_digits_set: "n \<le> 9999 \<Longrightarrow> c \<in> set (four_digits n) \<Longrightarrow> \<not> is_delimiter c \<and> c \<noteq> CHR '':''"
  by (auto simp: four_digits_def digit_char_facts four_digits_bounds)

lemma names_set:
  "w \<in> set short_day_names \<Longrightarrow> list_all (\<lambda>c. \<not> is_delimiter c \<and> c \<noteq> CHR '':'') w \<and> length w = 3 \<and> month_index w = None"
  "w \<in> set short_month_names \<Longrightarrow> list_all (\<lambda>c. \<not> is_delimiter c \<and> c \<noteq> CHR '':'') w \<and> length w = 3"
proof -
  have "list_all (\<lambda>w. list_all (\<lambda>c. \<not> is_delimiter c \<and> c \<noteq> CHR '':'') w \<and> length w = 3 \<and> month_index w = None) short_day_names"
    "list_all (\<lambda>w. list_all (\<lambda>c. \<not> is_delimiter c \<and> c \<noteq> CHR '':'') w \<and> length w = 3) short_month_names"
    by code_simp+
  then show "w \<in> set short_day_names \<Longrightarrow> list_all (\<lambda>c. \<not> is_delimiter c \<and> c \<noteq> CHR '':'') w \<and> length w = 3 \<and> month_index w = None"
    "w \<in> set short_month_names \<Longrightarrow> list_all (\<lambda>c. \<not> is_delimiter c \<and> c \<noteq> CHR '':'') w \<and> length w = 3"
    by (simp_all add: list_all_iff)
qed

lemma month_index_name:
  assumes "1 \<le> m" "m \<le> 12"
  shows "month_index (short_month_names ! (m - 1)) = Some (m - 1) \<and> short_month_names ! (m - 1) \<in> set short_month_names"
proof -
  have "list_all (\<lambda>i. month_index (short_month_names ! i) = Some i) [0..<12]" "length short_month_names = 12"
    by code_simp+
  then show ?thesis
    using assms by (auto simp: list_all_iff)
qed

lemma split_if_loop_token:
  assumes "list_all (\<lambda>c. \<not> P c) xs"
  shows "split_if_loop P Split_Nothing part (xs @ ys) = split_if_loop P Split_Nothing (part @ xs) ys"
  using assms by (induction xs arbitrary: part) simp_all

lemma split_view_char_join:
  assumes "list_all (\<lambda>p. p \<noteq> [] \<and> c \<notin> set p) parts" "parts \<noteq> []"
  shows "split_view_char (join_with [c] parts) c = parts"
proof -
  have "join_with [c] parts \<noteq> []"
    using assms by (cases parts; cases "tl parts = []") (auto simp: join_with_Cons neq_Nil_conv)
  moreover have "filter (\<lambda>p. p \<noteq> []) parts = parts"
    using assms(1) by (auto simp: list_all_iff filter_id_conv)
  ultimately show ?thesis
    using assms split_loop_join [of parts c]
    by (auto simp: split_view_char_def split_view_def split_loop_Nothing list_all_iff)
qed

lemma http_date_tokens:
  assumes "w \<in> set short_day_names" "1 \<le> m" "m \<le> 12" "d \<le> 99" "y \<le> 9999" "h \<le> 99" "mi \<le> 99" "s \<le> 99"
  shows "split_view_if (http_date w y m d h mi s) is_delimiter Split_Nothing =
    [w, two_digits d, short_month_names ! (m - 1), four_digits y, time_text h mi s, ''GMT'']"
proof -
  have t: "list_all (\<lambda>c. \<not> is_delimiter c) w" "w \<noteq> []" "list_all (\<lambda>c. \<not> is_delimiter c) (two_digits d)"
    "list_all (\<lambda>c. \<not> is_delimiter c) (short_month_names ! (m - 1))" "short_month_names ! (m - 1) \<noteq> []"
    "list_all (\<lambda>c. \<not> is_delimiter c) (four_digits y)"
    using names_set(1) [OF assms(1)] names_set(2) [of "short_month_names ! (m - 1)"] month_index_name [OF assms(2,3)]
      assms two_digits_set [of d] four_digits_set [of y]
    by (auto simp: list_all_iff)
  have "set (time_text h mi s) \<subseteq> set (two_digits h) \<union> set (two_digits mi) \<union> set (two_digits s) \<union> {CHR '':''}"
    by (auto simp: time_text_def)
  moreover have "\<not> is_delimiter CHR '':''"
    by code_simp
  ultimately have c: "list_all (\<lambda>c. \<not> is_delimiter c) (time_text h mi s)"
    using assms two_digits_set unfolding list_all_iff by blast
  have e: "two_digits n \<noteq> []" "four_digits n \<noteq> []" "time_text h mi s \<noteq> []" for n
    by (simp_all add: time_text_def two_digits_def four_digits_def)
  have dl: "is_delimiter CHR '' ''" "is_delimiter CHR '',''" "list_all (\<lambda>c. \<not> is_delimiter c) ''GMT''"
    by code_simp+
  show ?thesis
    using t c e dl
    by (simp add: split_view_if_def http_date_def split_if_loop_token Split_Nothing_def [symmetric])
      (simp add: Split_Nothing_def split_if_loop_token [unfolded Split_Nothing_def])
qed

lemma parse_time_plain:
  assumes "CHR '':'' \<notin> set t" "t \<noteq> []"
  shows "parse_time t st = (False, st)"
proof -
  have "split_view_char (join_with '':'' [t]) CHR '':'' = [t]"
    by (rule split_view_char_join) (simp_all add: assms)
  then have "split_view_char t CHR '':'' = [t]"
    by simp
  then show ?thesis
    unfolding parse_time_def by simp
qed

lemma process_weekday:
  assumes "w \<in> set short_day_names"
  shows "process_date_token w st = st"
proof -
  note n = names_set(1) [OF assms]
  have l: "CHR '':'' \<notin> set w" "w \<noteq> []" "length w = 3" "month_index w = None"
    using n unfolding list_all_iff by (blast, cases w, simp_all)
  have "parse_time w st = (False, st)" "parse_day_of_month w st = (False, st)" "parse_month w st = (False, st)"
    "parse_year w st = (False, st)"
    using l by (simp_all add: parse_time_plain parse_day_of_month_def parse_month_def parse_year_def)
  then show ?thesis
    by (simp add: process_date_token_def try_production_def)
qed

lemma parse_time_text:
  assumes "h \<le> 99" "mi \<le> 99" "s \<le> 99"
  shows "parse_time (time_text h mi s) st = (True, st\<lparr>date_hour := h, date_minute := mi, date_second := s\<rparr>)"
proof -
  have l: "two_digits n \<noteq> []" "length (two_digits n) = 2" for n
    by (simp_all add: two_digits_def)
  have "split_view_char (time_text h mi s) CHR '':'' = [two_digits h, two_digits mi, two_digits s]"
    unfolding time_text_def using assms two_digits_set l
    by (intro split_view_char_join) auto
  then show ?thesis
    using assms l by (simp add: parse_time_def to_uint_two_digits)
qed

text \<open>The loop over the tokens of an HTTP date finds all the parts.\<close>

lemma http_date_parts:
  assumes w: "w \<in> set short_day_names" and m: "1 \<le> m" "m \<le> 12" and d: "d \<le> 99" and y: "y \<le> 9999"
    and t: "h \<le> 99" "mi \<le> 99" "s \<le> 99"
  shows "fold process_date_token
      [w, two_digits d, short_month_names ! (m - 1), four_digits y, time_text h mi s, ''GMT''] new_date_parser =
    \<lparr>date_hour = h, date_minute = mi, date_second = s, date_day_of_month = d, date_month = m, date_year = y,
     found_time = True, found_day_of_month = True, found_month = True, found_year = True\<rparr>"
proof -
  note mn = month_index_name [OF m]
  have c: "CHR '':'' \<notin> set (two_digits d)" "CHR '':'' \<notin> set (four_digits y)" "CHR '':'' \<notin> set (short_month_names ! (m - 1))"
    "length (short_month_names ! (m - 1)) = 3"
    using two_digits_set [OF d] four_digits_set [OF y] names_set(2) [of "short_month_names ! (m - 1)"] mn
    by (auto simp: list_all_iff)
  have l: "two_digits d \<noteq> []" "length (two_digits d) = 2" "four_digits y \<noteq> []" "length (four_digits y) = 4"
    "short_month_names ! (m - 1) \<noteq> []"
    using c(4) by (auto simp: two_digits_def four_digits_def)
  define s1 where "s1 = new_date_parser\<lparr>date_day_of_month := d, found_day_of_month := True\<rparr>"
  define s2 where "s2 = s1\<lparr>date_month := m, found_month := True\<rparr>"
  define s3 where "s3 = s2\<lparr>date_year := y, found_year := True\<rparr>"
  define s4 where "s4 = s3\<lparr>date_hour := h, date_minute := mi, date_second := s, found_time := True\<rparr>"
  have p1: "process_date_token (two_digits d) new_date_parser = s1"
    using c l d by (simp add: process_date_token_def try_production_def parse_time_plain parse_day_of_month_def
        to_uint_two_digits s1_def new_date_parser_def)
  have p2: "process_date_token (short_month_names ! (m - 1)) s1 = s2"
    using c l m mn by (simp add: process_date_token_def try_production_def parse_time_plain parse_month_def
        s2_def s1_def new_date_parser_def)
  have p3: "process_date_token (four_digits y) s2 = s3"
    using c l y by (simp add: process_date_token_def try_production_def parse_time_plain parse_year_def
        to_uint_four_digits s3_def s2_def s1_def new_date_parser_def)
  have p4: "process_date_token (time_text h mi s) s3 = s4"
    using t by (simp add: process_date_token_def try_production_def parse_time_text s4_def s3_def s2_def s1_def new_date_parser_def)
  have p5: "process_date_token ''GMT'' s4 = s4"
    by (simp add: process_date_token_def try_production_def s4_def s3_def s2_def s1_def)
  show ?thesis
    using p1 p2 p3 p4 p5 process_weekday [OF w] by (simp add: s4_def s3_def s2_def s1_def new_date_parser_def)
qed

subsection \<open>Properties\<close>

text \<open>
  C30. The dates that HTTP prescribes are read back: for every valid date of the years 1601 to 9999, time of
  day and weekday name, the cookie date parser returns the time that is as many seconds after the epoch as
  the day count and the time of day say.
\<close>

theorem http_date_round_trip:
  assumes w: "w \<in> set short_day_names" and v: "valid_date (int y) m (int d)" and y: "1601 \<le> y" "y \<le> 9999"
    and t: "h \<le> 23" "mi \<le> 59" "s \<le> 59"
  shows "\<exists>days. days_since_epoch (int y) m (int d) = Some days \<and>
    parse_date_time (http_date w y m d h mi s) =
      Success (from_seconds (days * 86400 + int h * 3600 + int mi * 60 + int s))"
proof -
  note b = valid_date_bounds [OF v]
  have r: "is_within_range i32 (int y)"
    using y by (simp add: is_within_range_def)
  obtain days where days: "days_since_epoch (int y) m (int d) = Some days"
      "from_unix_time_parts (int y) m (int d) (int h) (int mi) (int s) 0 =
        Some (from_seconds (days * 86400 + int h * 3600 + int mi * 60 + int s))"
    using from_unix_time_parts_value [OF r b, of "int h" "int mi" "int s"] t by auto
  obtain n where n: "days_in_month (int y) m = Some n" "int d \<le> n"
    using v by (auto simp: valid_date_def split: option.splits)
  have "full_year y = y"
    using y by (simp add: full_year_def)
  then have "parse_date_time (http_date w y m d h mi s) =
      Success (from_seconds (days * 86400 + int h * 3600 + int mi * 60 + int s))"
    using http_date_tokens [OF w b(1,2), of d y h mi s] http_date_parts [OF w b(1,2), of d y h mi s] b(3,4) y t n days(2)
    by (simp add: parse_date_time_def Let_def date_from_parts_def)
  then show ?thesis
    using days(1) by blast
qed

theorem http_date_round_trip_witness:
  "http_date ''Wed'' 2015 10 21 7 28 0 = ''Wed, 21 Oct 2015 07:28:00 GMT'' \<and>
   (\<exists>days. days_since_epoch 2015 10 21 = Some days \<and>
      parse_date_time (http_date ''Wed'' 2015 10 21 7 28 0) = Success (from_seconds (days * 86400 + 7 * 3600 + 28 * 60)))"
proof -
  have "http_date ''Wed'' 2015 10 21 7 28 0 = ''Wed, 21 Oct 2015 07:28:00 GMT''"
    by code_simp
  moreover have "valid_date (int 2015) 10 (int 21)" "''Wed'' \<in> set short_day_names"
    by (simp_all add: valid_date_def days_in_month_def short_day_names_def)
  ultimately show ?thesis
    using http_date_round_trip [of "''Wed''" 2015 10 21 7 28 0] by simp
qed

end
