(* ===== verification/ParsedCookies.thy ===== *)
theory ParsedCookies
  imports Url CookieDates
begin

text \<open>
  \<^verbatim>\<open>LibWeb/Cookie\<close>: the cookie record, the parser of the \<^verbatim>\<open>Set-Cookie\<close> header with its attributes and its
  dates, and the two predicates of the cookie specification, domain-match and default-path.  The parser
  reads the clock, which is the argument \<open>now\<close>, and creates strings from bytes, which asserts that they are
  UTF-8: the validator is the argument \<open>validate\<close>.
\<close>

subsection \<open>Cookies\<close>

datatype same_site = SameSite_Default | SameSite_None | SameSite_Strict | SameSite_Lax

datatype cookie_source = NonHttp | Http

record cookie =
  cookie_name :: bytes
  cookie_value :: bytes
  same_site_of :: same_site
  creation_time :: unix_date_time
  last_access_time :: unix_date_time
  expiry_time :: unix_date_time
  cookie_domain :: bytes
  cookie_path :: bytes
  secure :: bool
  http_only :: bool
  host_only :: bool
  persistent :: bool

fun same_site_to_string :: "same_site \<Rightarrow> bytes" where
  "same_site_to_string SameSite_Default = ''Default''"
| "same_site_to_string SameSite_None = ''None''"
| "same_site_to_string SameSite_Lax = ''Lax''"
| "same_site_to_string SameSite_Strict = ''Strict''"

definition same_site_from_string :: "bytes \<Rightarrow> same_site" where
  "same_site_from_string same_site_mode =
     (if equals_ignoring_ascii_case same_site_mode ''None'' then SameSite_None
      else if equals_ignoring_ascii_case same_site_mode ''Strict'' then SameSite_Strict
      else if equals_ignoring_ascii_case same_site_mode ''Lax'' then SameSite_Lax
      else SameSite_Default)"

record parsed_cookie =
  parsed_name :: bytes
  parsed_value :: bytes
  same_site_attribute :: same_site
  expiry_time_from_expires_attribute :: "unix_date_time option"
  expiry_time_from_max_age_attribute :: "unix_date_time option"
  parsed_domain :: "bytes option"
  parsed_path :: "bytes option"
  secure_attribute_present :: bool
  http_only_attribute_present :: bool

definition new_parsed_cookie :: "bytes \<Rightarrow> bytes \<Rightarrow> parsed_cookie" where
  "new_parsed_cookie name val =
     \<lparr>parsed_name = name, parsed_value = val, same_site_attribute = SameSite_Default,
      expiry_time_from_expires_attribute = None, expiry_time_from_max_age_attribute = None,
      parsed_domain = None, parsed_path = None,
      secure_attribute_present = False, http_only_attribute_present = False\<rparr>"

definition from_utf8 :: "(bytes \<Rightarrow> bool) \<Rightarrow> bytes \<Rightarrow> bytes option" where
  "from_utf8 validate view = (if validate view then Some view else None)"

subsection \<open>Domain and path\<close>

definition ipv4_octet :: "bytes \<Rightarrow> nat" where
  "ipv4_octet part = (case convert_to_uint (2 ^ 32 - 1) part True of None \<Rightarrow> 256 | Some n \<Rightarrow> n)"

definition ipv4_from_string :: "bytes \<Rightarrow> (nat \<times> nat \<times> nat \<times> nat) option" where
  "ipv4_from_string view =
     (case (case split_view_char view CHR ''.'' of
              [p] \<Rightarrow> Some (0, 0, 0, ipv4_octet p)
            | [p, q] \<Rightarrow> Some (ipv4_octet p, 0, 0, ipv4_octet q)
            | [p, q, r] \<Rightarrow> Some (ipv4_octet p, ipv4_octet q, 0, ipv4_octet r)
            | [p, q, r, s] \<Rightarrow> Some (ipv4_octet p, ipv4_octet q, ipv4_octet r, ipv4_octet s)
            | _ \<Rightarrow> None) of
        None \<Rightarrow> None
      | Some (a, b, c, d) \<Rightarrow> if a > 255 \<or> b > 255 \<or> c > 255 \<or> d > 255 then None else Some (a, b, c, d))"

definition domain_matches :: "bytes \<Rightarrow> bytes \<Rightarrow> bool" where
  "domain_matches str domain_string =
     (if str = domain_string then True
      else if \<not> ends_with str domain_string CaseSensitive then False
      else if str ! (length str - length domain_string - 1) \<noteq> CHR ''.'' then False
      else if ipv4_from_string str \<noteq> None then False
      else True)"

definition default_path :: "(bytes \<Rightarrow> bool) \<Rightarrow> url \<Rightarrow> bytes outcome" where
  "default_path validate u =
     outcome_bind (asserted (serialize_path u)) (\<lambda>serialized.
     outcome_bind (asserted (percent_decode serialized)) (\<lambda>uri_path.
       if uri_path = [] \<or> uri_path ! 0 \<noteq> CHR ''/'' then Success ''/''
       else outcome_bind (asserted (find_last_char uri_path CHR ''/'')) (\<lambda>last_separator.
         if last_separator = 0 then Success ''/''
         else asserted (from_utf8 validate (take last_separator uri_path)))))"

subsection \<open>Attributes\<close>

definition maximum_cookie_age :: duration where
  "maximum_cookie_age = from_seconds (400 * 24 * 60 * 60)"

definition on_expires_attribute :: "unix_date_time \<Rightarrow> parsed_cookie \<Rightarrow> bytes \<Rightarrow> parsed_cookie outcome" where
  "on_expires_attribute now c attribute_value =
     (case parse_date_time attribute_value of
        Crash \<Rightarrow> Crash
      | Failure \<Rightarrow> Success c
      | Success expiry \<Rightarrow>
          outcome_bind (asserted (duration_add now maximum_cookie_age)) (\<lambda>cookie_age_limit.
          outcome_bind (asserted (to_seconds expiry)) (\<lambda>expiry_seconds.
          outcome_bind (asserted (to_seconds cookie_age_limit)) (\<lambda>limit_seconds.
            let expiry = (if expiry_seconds > limit_seconds then cookie_age_limit else expiry);
                expiry = (if duration_compare expiry earliest < 0 then earliest else expiry)
            in Success (c\<lparr>expiry_time_from_expires_attribute := Some expiry\<rparr>)))))"

definition max_age_delta_seconds :: "bytes \<Rightarrow> int" where
  "max_age_delta_seconds attribute_value =
     (case convert_to_int (type_min i64) (type_max i64) attribute_value True of
        Some n \<Rightarrow> n
      | None \<Rightarrow> if attribute_value ! 0 = CHR ''-'' then type_min i64 else type_max i64)"

definition on_max_age_attribute :: "unix_date_time \<Rightarrow> parsed_cookie \<Rightarrow> bytes \<Rightarrow> parsed_cookie outcome" where
  "on_max_age_attribute now c attribute_value =
     (if attribute_value = [] then Success c
      else let digits = (if attribute_value ! 0 = CHR ''-'' then drop 1 attribute_value else attribute_value)
      in if digits = [] \<or> \<not> list_all (\<lambda>ch. is_ascii_digit (ord_of ch)) digits then Success c
      else let delta_seconds = max_age_delta_seconds attribute_value
      in outcome_bind (asserted (to_seconds maximum_cookie_age)) (\<lambda>limit.
           let delta_seconds = (if delta_seconds > limit then limit else delta_seconds)
           in outcome_bind (if delta_seconds \<le> 0 then Success earliest
                            else asserted (duration_add now (from_seconds delta_seconds))) (\<lambda>expiry.
                Success (c\<lparr>expiry_time_from_max_age_attribute := Some expiry\<rparr>))))"

text \<open>\<^verbatim>\<open>Infra::to_ascii_lowercase\<close> rebuilds the string from its code points.\<close>

definition infra_to_ascii_lowercase :: "bytes \<Rightarrow> bytes" where
  "infra_to_ascii_lowercase str =
     fold (\<lambda>code_point builder. append_code_point builder (to_ascii_lowercase code_point)) (utf8_decode str) []"

definition on_domain_attribute :: "(bytes \<Rightarrow> bool) \<Rightarrow> parsed_cookie \<Rightarrow> bytes \<Rightarrow> parsed_cookie outcome" where
  "on_domain_attribute validate c attribute_value =
     (let domain = (if attribute_value \<noteq> [] \<and> attribute_value ! 0 = CHR ''.'' then drop 1 attribute_value else attribute_value)
      in outcome_bind (asserted (from_utf8 validate (infra_to_ascii_lowercase domain))) (\<lambda>lowercase_cookie_domain.
           Success (c\<lparr>parsed_domain := Some lowercase_cookie_domain\<rparr>)))"

definition on_path_attribute :: "(bytes \<Rightarrow> bool) \<Rightarrow> url \<Rightarrow> parsed_cookie \<Rightarrow> bytes \<Rightarrow> parsed_cookie outcome" where
  "on_path_attribute validate u c attribute_value =
     outcome_bind
       (if attribute_value = [] \<or> attribute_value ! 0 \<noteq> CHR ''/'' then default_path validate u
        else asserted (from_utf8 validate attribute_value))
       (\<lambda>path. Success (c\<lparr>parsed_path := Some path\<rparr>))"

definition on_secure_attribute :: "parsed_cookie \<Rightarrow> parsed_cookie" where
  "on_secure_attribute c = c\<lparr>secure_attribute_present := True\<rparr>"

definition on_http_only_attribute :: "parsed_cookie \<Rightarrow> parsed_cookie" where
  "on_http_only_attribute c = c\<lparr>http_only_attribute_present := True\<rparr>"

definition on_same_site_attribute :: "parsed_cookie \<Rightarrow> bytes \<Rightarrow> parsed_cookie" where
  "on_same_site_attribute c attribute_value = c\<lparr>same_site_attribute := same_site_from_string attribute_value\<rparr>"

definition process_attribute ::
  "unix_date_time \<Rightarrow> (bytes \<Rightarrow> bool) \<Rightarrow> url \<Rightarrow> parsed_cookie \<Rightarrow> bytes \<Rightarrow> bytes \<Rightarrow> parsed_cookie outcome" where
  "process_attribute now validate u c attribute_name attribute_value =
     (if equals_ignoring_ascii_case attribute_name ''Expires'' then on_expires_attribute now c attribute_value
      else if equals_ignoring_ascii_case attribute_name ''Max-Age'' then on_max_age_attribute now c attribute_value
      else if equals_ignoring_ascii_case attribute_name ''Domain'' then on_domain_attribute validate c attribute_value
      else if equals_ignoring_ascii_case attribute_name ''Path'' then on_path_attribute validate u c attribute_value
      else if equals_ignoring_ascii_case attribute_name ''Secure'' then Success (on_secure_attribute c)
      else if equals_ignoring_ascii_case attribute_name ''HttpOnly'' then Success (on_http_only_attribute c)
      else if equals_ignoring_ascii_case attribute_name ''SameSite'' then Success (on_same_site_attribute c attribute_value)
      else Success c)"

text \<open>The parts of a string around its first \<^verbatim>\<open>;\<close> and \<^verbatim>\<open>=\<close>.\<close>

definition split_first_semicolon :: "bytes \<Rightarrow> bytes \<times> bytes" where
  "split_first_semicolon str =
     (case find_char str CHR '';'' 0 of Some position \<Rightarrow> (take position str, drop position str) | None \<Rightarrow> (str, []))"

definition value_after :: "bytes \<Rightarrow> nat \<Rightarrow> bytes" where
  "value_after str position = (if position < length str - 1 then drop (position + 1) str else [])"

lemma find_first_loop_bound: "find_first_loop P cs i = Some j \<Longrightarrow> i \<le> j \<and> j < i + length cs"
  by (induction cs arbitrary: i) (fastforce split: if_splits)+

lemma find_char_bound: "find_char str c start = Some j \<Longrightarrow> start \<le> j \<and> j < length str"
  using find_first_loop_bound [of _ "drop start str" start j] by (auto simp: find_char_def split: if_splits)

lemma split_first_semicolon_length [simp]: "length (snd (split_first_semicolon str)) \<le> length str"
  by (simp add: split_first_semicolon_def split: option.splits)

text \<open>The name and the value of the first attribute, and what follows it.\<close>

definition next_attribute :: "bytes \<Rightarrow> bytes \<times> bytes \<times> bytes" where
  "next_attribute unparsed_attributes =
     (let (cookie_av, rest) = split_first_semicolon (drop 1 unparsed_attributes);
          (attribute_name, attribute_value) =
            (case find_char cookie_av CHR ''='' 0 of
               Some position \<Rightarrow> (take position cookie_av, value_after cookie_av position)
             | None \<Rightarrow> (cookie_av, []))
      in (trim_whitespace attribute_name TrimBoth, trim_whitespace attribute_value TrimBoth, rest))"

lemma next_attribute_rest:
  assumes "next_attribute s = (n, v, rest)" "s \<noteq> []"
  shows "length rest < length s"
proof -
  have "rest = snd (split_first_semicolon (drop 1 s))"
    using assms(1) by (simp add: next_attribute_def Let_def split: prod.splits)
  then show ?thesis
    using assms(2) by (cases s) (auto simp: less_Suc_eq_le)
qed

function parse_attributes ::
  "unix_date_time \<Rightarrow> (bytes \<Rightarrow> bool) \<Rightarrow> url \<Rightarrow> parsed_cookie \<Rightarrow> bytes \<Rightarrow> parsed_cookie outcome" where
  "parse_attributes now validate u c unparsed_attributes =
     (if unparsed_attributes = [] then Success c
      else case next_attribute unparsed_attributes of
        (attribute_name, attribute_value, rest) \<Rightarrow>
          if length attribute_value > 1024 then parse_attributes now validate u c rest
          else case process_attribute now validate u c attribute_name attribute_value of
                 Crash \<Rightarrow> Crash
               | Failure \<Rightarrow> Failure
               | Success c \<Rightarrow> parse_attributes now validate u c rest)"
  by pat_completeness auto
termination
  by (relation "measure (\<lambda>(now, validate, u, c, unparsed_attributes). length unparsed_attributes)")
    (auto dest: next_attribute_rest [OF sym])

declare parse_attributes.simps [simp del]

definition cookie_contains_invalid_control_character :: "bytes \<Rightarrow> bool" where
  "cookie_contains_invalid_control_character cookie_string =
     list_ex (\<lambda>code_point. code_point \<le> 0x08 \<or> (code_point \<ge> 0x0a \<and> code_point \<le> 0x1f) \<or> code_point = 0x7f)
       (utf8_decode cookie_string)"

definition parse_cookie :: "unix_date_time \<Rightarrow> (bytes \<Rightarrow> bool) \<Rightarrow> url \<Rightarrow> bytes \<Rightarrow> parsed_cookie outcome" where
  "parse_cookie now validate u cookie_string =
     (if cookie_contains_invalid_control_character cookie_string then Failure
      else let (name_value_pair, unparsed_attributes) = split_first_semicolon cookie_string;
               (name, val) =
                 (case find_char name_value_pair CHR ''='' 0 of
                    None \<Rightarrow> ([], name_value_pair)
                  | Some position \<Rightarrow> (take position name_value_pair, value_after name_value_pair position));
               name = trim_whitespace name TrimBoth;
               val = trim_whitespace val TrimBoth
      in if length name + length val > 4096 then Failure
         else outcome_bind (asserted (from_utf8 validate name)) (\<lambda>name.
              outcome_bind (asserted (from_utf8 validate val)) (\<lambda>val.
                parse_attributes now validate u (new_parsed_cookie name val) unparsed_attributes)))"

subsection \<open>Domain matching\<close>

lemma domain_matches_iff:
  "domain_matches s d \<longleftrightarrow> s = d \<or> suffix (CHR ''.'' # d) s \<and> ipv4_from_string s = None"
proof -
  have "suffix (CHR ''.'' # d) s \<longleftrightarrow> suffix d s \<and> s \<noteq> d \<and> s ! (length s - length d - 1) = CHR ''.''" (is "?l \<longleftrightarrow> ?r")
  proof
    assume ?l
    then show ?r
      by (auto simp: suffix_def nth_append)
  next
    assume r: ?r
    then obtain p where p: "s = p @ d"
      by (auto simp: suffix_def)
    then have "p \<noteq> []"
      using r by auto
    then have "last p = CHR ''.''"
      using r p by (simp add: last_conv_nth nth_append)
    then have "s = butlast p @ CHR ''.'' # d"
      using p \<open>p \<noteq> []\<close> by (metis append.assoc append_Cons append_Nil append_butlast_last_id)
    then show ?l
      by (auto simp: suffix_def)
  qed
  then show ?thesis
    by (auto simp: domain_matches_def ends_with_suffix simp del: not_None_eq)
qed

lemma domain_matches_trans:
  assumes "domain_matches a b" "domain_matches b c"
  shows "domain_matches a c"
  using assms by (auto simp: domain_matches_iff suffix_def)

subsection \<open>Numbers\<close>

definition digits_value :: "bytes \<Rightarrow> int" where
  "digits_value cs = foldl (\<lambda>v c. v * 10 + (int (ord_of c) - 48)) 0 cs"

lemma signed_foldl_mono:
  assumes "list_all (\<lambda>c. is_ascii_digit (ord_of c)) cs"
  shows "0 \<le> (v::int) \<Longrightarrow> v \<le> foldl (\<lambda>v c. v * 10 + 1 * (int (ord_of c) - 48)) v cs"
    and "(v::int) \<le> 0 \<Longrightarrow> foldl (\<lambda>v c. v * 10 + (-1) * (int (ord_of c) - 48)) v cs \<le> v"
  using assms
proof (induction cs arbitrary: v)
  case (Cons c cs)
  {
    case 1
    then have "0 \<le> v * 10 + 1 * (int (ord_of c) - 48)" "v \<le> v * 10 + 1 * (int (ord_of c) - 48)"
      by (simp_all add: is_ascii_digit_def)
    then show ?case
      using 1 Cons.IH(1) [of "v * 10 + 1 * (int (ord_of c) - 48)"] by simp
  next
    case 2
    then have "v * 10 + (-1) * (int (ord_of c) - 48) \<le> 0" "v * 10 + (-1) * (int (ord_of c) - 48) \<le> v"
      by (simp_all add: is_ascii_digit_def)
    then show ?case
      using 2 Cons.IH(2) [of "v * 10 + (-1) * (int (ord_of c) - 48)"] by simp
  }
qed simp_all

lemma int_loop_foldl:
  assumes "list_all (\<lambda>c. is_ascii_digit (ord_of c)) cs" "lo \<le> 0" "0 \<le> hi"
    "sign = 1 \<and> 0 \<le> v \<or> sign = -1 \<and> v \<le> 0" "lo \<le> v" "v \<le> hi"
  shows "int_loop lo hi sign cs v =
    (let w = foldl (\<lambda>v c. v * 10 + sign * (int (ord_of c) - 48)) v cs in if lo \<le> w \<and> w \<le> hi then Some w else None)"
  using assms
proof (induction cs arbitrary: v)
  case (Cons c cs)
  define d where "d = int (ord_of c) - 48"
  define v' where "v' = v * 10 + sign * d"
  define w where "w = foldl (\<lambda>v c. v * 10 + sign * (int (ord_of c) - 48)) v' cs"
  have d: "0 \<le> d" "\<not> ord_of c < 48" "\<not> ord_of c > 57" and ds: "list_all (\<lambda>c. is_ascii_digit (ord_of c)) cs"
    using Cons.prems(1) by (auto simp: d_def is_ascii_digit_def)
  have sv: "sign = 1 \<and> 0 \<le> v' \<and> v * 10 \<le> v' \<or> sign = -1 \<and> v' \<le> 0 \<and> v' \<le> v * 10"
    using Cons.prems(4) d(1) by (auto simp: v'_def)
  have m: "sign = 1 \<Longrightarrow> 0 \<le> v' \<Longrightarrow> v' \<le> w" "sign = -1 \<Longrightarrow> v' \<le> 0 \<Longrightarrow> w \<le> v'"
    using signed_foldl_mono [OF ds, of v'] by (simp_all add: w_def)
  have l: "int_loop lo hi sign (c # cs) v =
      (if v * 10 < lo \<or> v * 10 > hi then None else if v' < lo \<or> v' > hi then None else int_loop lo hi sign cs v')"
    using d by (simp add: v'_def d_def Let_def)
  have f: "foldl (\<lambda>v c. v * 10 + sign * (int (ord_of c) - 48)) v (c # cs) = w"
    by (simp add: w_def v'_def d_def)
  show ?case
  proof (cases "lo \<le> v' \<and> v' \<le> hi")
    case True
    then have "int_loop lo hi sign cs v' = (if lo \<le> w \<and> w \<le> hi then Some w else None)"
      using Cons.IH [OF ds Cons.prems(2,3), of v'] sv by (auto simp: w_def Let_def)
    moreover have "\<not> (v * 10 < lo \<or> v * 10 > hi)"
      using True sv Cons.prems(2-4) by auto
    ultimately show ?thesis
      using True unfolding l f by simp
  next
    case False
    then have "\<not> (lo \<le> w \<and> w \<le> hi)"
      using sv m Cons.prems(2,3) by auto
    then show ?thesis
      using False unfolding l f by auto
  qed
qed simp

lemma digits_value_nonneg: "list_all (\<lambda>c. is_ascii_digit (ord_of c)) cs \<Longrightarrow> 0 \<le> digits_value cs"
  using signed_foldl_mono(1) [of cs 0] by (simp add: digits_value_def)

lemma negated_foldl: "foldl (\<lambda>v c. v * 10 + (-1) * (int (ord_of c) - 48)) (- v) cs = - foldl (\<lambda>v c. v * 10 + (int (ord_of c) - 48)) v cs"
proof (induction cs arbitrary: v)
  case (Cons c cs)
  then show ?case
    using Cons.IH [of "v * 10 + (int (ord_of c) - 48)"] by (simp add: algebra_simps)
qed simp

lemma convert_to_int_digits:
  assumes "list_all (\<lambda>c. is_ascii_digit (ord_of c)) cs" "cs \<noteq> []" "lo \<le> 0" "0 \<le> hi"
  shows "convert_to_int lo hi cs True = (if digits_value cs \<le> hi then Some (digits_value cs) else None)"
    and "convert_to_int lo hi (CHR ''-'' # cs) True = (if lo \<le> - digits_value cs then Some (- digits_value cs) else None)"
proof -
  obtain c r where cr: "cs = c # r"
    using assms(2) by (cases cs) auto
  then have "is_ascii_digit (ord_of c)"
    using assms(1) by simp
  then have c: "cs = c # r" "c \<noteq> CHR ''-''" "c \<noteq> CHR ''+''"
    using cr by (auto simp: is_ascii_digit_def)
  have t: "trim_whitespace cs TrimBoth = cs" "trim_whitespace (CHR ''-'' # cs) TrimBoth = CHR ''-'' # cs"
    using digit_visible [OF assms(1)] by (simp_all add: trim_whitespace_visible)
  have n: "0 \<le> digits_value cs"
    using digits_value_nonneg assms(1) .
  show "convert_to_int lo hi cs True = (if digits_value cs \<le> hi then Some (digits_value cs) else None)"
    using int_loop_foldl [OF assms(1,3,4), of 1 0] n assms(3,4) c t(1)
    by (simp add: convert_to_int_def digits_value_def Let_def)
  show "convert_to_int lo hi (CHR ''-'' # cs) True = (if lo \<le> - digits_value cs then Some (- digits_value cs) else None)"
    using int_loop_foldl [OF assms(1,3,4), of "-1" 0] n assms(2-4) t(2) negated_foldl [of 0 cs]
    by (simp add: convert_to_int_def digits_value_def Let_def)
qed

subsection \<open>Max-Age\<close>

text \<open>The number that a \<^verbatim>\<open>Max-Age\<close> value denotes.\<close>

fun max_age_value :: "bytes \<Rightarrow> int option" where
  "max_age_value [] = None"
| "max_age_value (c # cs) =
     (let digits = (if c = CHR ''-'' then cs else c # cs) in
      if digits = [] \<or> \<not> list_all (\<lambda>ch. is_ascii_digit (ord_of ch)) digits then None
      else Some (if c = CHR ''-'' then - digits_value digits else digits_value digits))"

lemma maximum_cookie_age_simps [simp]:
  "duration_ok maximum_cookie_age" "to_seconds maximum_cookie_age = Some 34560000"
  "nanoseconds_of maximum_cookie_age = 34560000000000000"
  by (simp_all add: maximum_cookie_age_def from_seconds_def to_seconds_def is_within_range_def)

text \<open>The seconds before they are limited: the number, or the bound of \<^verbatim>\<open>i64\<close> it exceeds.\<close>

lemma max_age_delta:
  assumes "max_age_value v = Some n"
  shows "v \<noteq> []"
    and "max_age_delta_seconds v = clamp i64 n"
proof -
  show "v \<noteq> []"
    using assms by auto
  then obtain c cs where v: "v = c # cs"
    by (cases v) auto
  define ds where "ds = (if c = CHR ''-'' then cs else c # cs)"
  have ds: "ds \<noteq> []" "list_all (\<lambda>ch. is_ascii_digit (ord_of ch)) ds"
    and n: "n = (if c = CHR ''-'' then - digits_value ds else digits_value ds)"
    using assms by (auto simp: v ds_def Let_def split: if_splits)
  note d = convert_to_int_digits [OF ds(2,1), of "type_min i64" "type_max i64"] and p = digits_value_nonneg [OF ds(2)]
  show "max_age_delta_seconds v = clamp i64 n"
  proof (cases "c = CHR ''-''")
    case True
    then show ?thesis
      using d(2) n p v by (simp add: max_age_delta_seconds_def ds_def clamp_def)
  next
    case False
    then show ?thesis
      using d(1) n p v by (simp add: max_age_delta_seconds_def ds_def clamp_def)
  qed
qed

lemma on_max_age_attribute_value:
  assumes now: "duration_ok now"
  shows "case max_age_value v of
      None \<Rightarrow> on_max_age_attribute now c v = Success c
    | Some n \<Rightarrow> \<exists>e. on_max_age_attribute now c v = Success (c\<lparr>expiry_time_from_max_age_attribute := Some e\<rparr>) \<and> duration_ok e \<and>
        (if n \<le> 0 then e = earliest
         else nanoseconds_of e = saturate (nanoseconds_of now + min n 34560000 * 1000000000))"
proof (cases "max_age_value v")
  case None
  then have "on_max_age_attribute now c v = Success c"
    by (cases v) (auto simp: on_max_age_attribute_def Let_def split: if_splits)
  then show ?thesis
    using None by simp
next
  case (Some n)
  define delta where "delta = min (clamp i64 n) 34560000"
  have e: "on_max_age_attribute now c v =
      outcome_bind (if delta \<le> 0 then Success earliest else asserted (duration_add now (from_seconds delta)))
        (\<lambda>expiry. Success (c\<lparr>expiry_time_from_max_age_attribute := Some expiry\<rparr>))"
    using Some max_age_delta [OF Some]
    by (cases v) (auto simp: on_max_age_attribute_def Let_def delta_def min_def split: if_splits)
  have s: "delta \<le> 0 \<longleftrightarrow> n \<le> 0" "\<not> n \<le> 0 \<Longrightarrow> delta = min n 34560000" "is_within_range i64 delta"
    by (auto simp: delta_def clamp_def is_within_range_def)
  show ?thesis
  proof (cases "n \<le> 0")
    case True
    then show ?thesis
      using Some s(1) by (simp add: e earliest_def)
  next
    case False
    then show ?thesis
      using Some s duration_add_saturates [OF now, of "from_seconds delta"] from_units_exact(4) [OF s(3)]
      by (auto simp: e)
  qed
qed

subsection \<open>Expiry\<close>

text \<open>An expiry time is less than a second after the limit of 400 days from now.\<close>

definition age_limited :: "unix_date_time \<Rightarrow> unix_date_time \<Rightarrow> bool" where
  "age_limited now e \<longleftrightarrow> duration_ok e \<and>
     nanoseconds_of e < saturate (nanoseconds_of now + 34560000000000000) + 1000000000"

lemma age_limited_earliest: "duration_ok now \<Longrightarrow> age_limited now earliest"
  by (auto simp: age_limited_def earliest_def saturate_def)

lemma round_away_less: "0 < u \<Longrightarrow> k \<le> round_away n u \<Longrightarrow> k * u < n + u"
proof -
  assume u: "0 < u" and k: "k \<le> round_away n u"
  have m: "n div u * u + n mod u = n" "0 \<le> n mod u" "n mod u < u"
    using u by simp_all
  have le: "k * u \<le> round_away n u * u"
    using u k by simp
  have "round_away n u = n div u + 1 \<and> n mod u \<noteq> 0 \<or> round_away n u = n div u"
    by (auto simp: rounding_cases(2) [OF u])
  then have "round_away n u * u < n + u"
  proof
    assume a: "round_away n u = n div u + 1 \<and> n mod u \<noteq> 0"
    then have "round_away n u * u = n div u * u + u"
      by (simp add: distrib_right)
    then show ?thesis
      using m a by linarith
  next
    assume "round_away n u = n div u"
    then have "round_away n u * u = n div u * u"
      by simp
    then show ?thesis
      using m u by linarith
  qed
  then show ?thesis
    using le by linarith
qed

lemma on_expires_attribute_ok:
  assumes now: "duration_ok now"
  shows "on_expires_attribute now c v = Success c \<or>
    (\<exists>e. on_expires_attribute now c v = Success (c\<lparr>expiry_time_from_expires_attribute := Some e\<rparr>) \<and> age_limited now e)"
proof (cases "parse_date_time v")
  case (Success t)
  then obtain n where t: "t = from_seconds n" "duration_ok t"
    using parse_date_time_ok [of v] by auto
  obtain l where l: "duration_add now maximum_cookie_age = Some l" "duration_ok l"
      "nanoseconds_of l = saturate (nanoseconds_of now + 34560000000000000)"
    using duration_add_saturates [OF now, of maximum_cookie_age] by auto
  have n: "is_within_range i64 n" "nanoseconds_of t = n * 1000000000"
    using t by (simp_all add: from_seconds_def)
  have ts: "to_seconds t = Some n"
    using n t by (simp add: to_seconds_value rounding_cases(2))
  obtain k where k: "to_seconds l = Some k" "k = clamp i64 (round_away (nanoseconds_of l) 1000000000)"
    using to_seconds_value [OF l(2)] by blast
  define e where "e = (if n > k then l else t)"
  have "age_limited now e"
  proof (cases "n > k")
    case True
    then show ?thesis
      using l by (simp add: e_def age_limited_def)
  next
    case False
    have "round_away (nanoseconds_of l) 1000000000 \<ge> type_min i64"
      using nanoseconds_of_bounds [OF l(2)] zdiv_mono1 [of "nanoseconds_of min_duration" "nanoseconds_of l" 1000000000]
      by (simp add: rounding_cases(2))
    then have "n \<le> round_away (nanoseconds_of l) 1000000000"
      using False k(2) by (simp add: clamp_def)
    then have "n * 1000000000 < nanoseconds_of l + 1000000000"
      by (intro round_away_less) simp_all
    then show ?thesis
      using False t(2) n l by (simp add: e_def age_limited_def)
  qed
  moreover have "duration_compare e earliest \<ge> 0"
    using \<open>age_limited now e\<close> nanoseconds_of_bounds [of e]
    by (simp add: age_limited_def earliest_def duration_compare_sgn sgn_if)
  ultimately show ?thesis
    using Success l(1) ts k(1) by (auto simp: on_expires_attribute_def Let_def e_def)
next
  case Crash
  then show ?thesis
    using parse_date_time_ok [of v] by auto
qed (simp add: on_expires_attribute_def)

lemma saturate_mono: "a \<le> b \<Longrightarrow> saturate a \<le> saturate b"
  by (auto simp: saturate_def)

lemma on_max_age_attribute_ok:
  assumes now: "duration_ok now"
  shows "on_max_age_attribute now c v = Success c \<or>
    (\<exists>e. on_max_age_attribute now c v = Success (c\<lparr>expiry_time_from_max_age_attribute := Some e\<rparr>) \<and> age_limited now e)"
proof (cases "max_age_value v")
  case None
  then show ?thesis
    using on_max_age_attribute_value [OF now, where v = v and c = c] by simp
next
  case (Some n)
  then obtain e where e: "on_max_age_attribute now c v = Success (c\<lparr>expiry_time_from_max_age_attribute := Some e\<rparr>)" "duration_ok e"
      "if n \<le> 0 then e = earliest else nanoseconds_of e = saturate (nanoseconds_of now + min n 34560000 * 1000000000)"
    using on_max_age_attribute_value [OF now, where v = v and c = c] by auto
  have "saturate (nanoseconds_of now + min n 34560000 * 1000000000) \<le> saturate (nanoseconds_of now + 34560000000000000)"
    by (rule saturate_mono) (simp add: min_def)
  then have "age_limited now e"
    using age_limited_earliest [OF now] e(2,3) by (auto simp: age_limited_def split: if_splits)
  then show ?thesis
    using e(1) by blast
qed

subsection \<open>What the parser returns\<close>

lemma find_first_loop_Some:
  "find_first_loop P cs i = Some j \<Longrightarrow> P (cs ! (j - i)) \<and> list_all (\<lambda>c. \<not> P c) (take (j - i) cs)"
proof (induction cs arbitrary: i)
  case (Cons c cs)
  show ?case
  proof (cases "P c")
    case False
    then have f: "find_first_loop P cs (i + 1) = Some j"
      using Cons.prems by simp
    then obtain k where "j - i = Suc k" "j - (i + 1) = k"
      using find_first_loop_bound [OF f] by (cases "j - i") auto
    then show ?thesis
      using Cons.IH [OF f] False by simp
  qed (use Cons.prems in simp)
qed simp

lemma find_first_loop_None: "find_first_loop P cs i = None \<longleftrightarrow> list_all (\<lambda>c. \<not> P c) cs"
  by (induction cs arbitrary: i) auto

lemma find_char_Some: "find_char s c 0 = Some j \<Longrightarrow> j < length s \<and> s ! j = c \<and> c \<notin> set (take j s)"
  using find_first_loop_Some [of "\<lambda>x. x = c" s 0 j] find_char_bound [of s c 0 j]
  by (auto simp: find_char_def list_all_iff split: if_splits)

lemma find_char_None: "find_char s c 0 = None \<longleftrightarrow> c \<notin> set s"
  by (auto simp: find_char_def find_first_loop_None list_all_iff)

lemma split_first_semicolon_set:
  "split_first_semicolon s = (a, b) \<Longrightarrow> CHR '';'' \<notin> set a \<and> set a \<subseteq> set s \<and> set b \<subseteq> set s \<and> (b \<noteq> [] \<longrightarrow> hd b = CHR '';'')"
  using find_char_Some [of s "CHR '';''"] find_char_None [of s "CHR '';''"]
  by (auto simp: split_first_semicolon_def hd_drop_conv_nth split: option.splits dest: in_set_takeD in_set_dropD)

lemma value_after_set: "set (value_after s j) \<subseteq> set s"
  by (auto simp: value_after_def dest: in_set_dropD)

lemma next_attribute_set:
  assumes "next_attribute s = (n, v, rest)"
  shows "set v \<subseteq> set s \<and> set rest \<subseteq> set s"
proof -
  obtain av where av: "split_first_semicolon (drop 1 s) = (av, rest)"
      "v = [] \<or> (\<exists>j. v = trim_whitespace (value_after av j) TrimBoth)"
    using assms trim_whitespace_set [of "[]"] by (auto simp: next_attribute_def Let_def split: prod.splits option.splits)
  have d: "set (drop 1 s) \<subseteq> set s"
    by (rule set_drop_subset)
  then show ?thesis
    using split_first_semicolon_set [OF av(1)] av(2) trim_whitespace_set [of "value_after av _"] value_after_set [of av]
    by (auto; blast)
qed

lemma default_path_slash:
  assumes "default_path validate u = Success p"
  shows "p \<noteq> [] \<and> hd p = CHR ''/''"
  using assms
  by (auto simp: default_path_def from_utf8_def outcome_bind_Success hd_take hd_conv_nth split: if_splits
      elim!: asserted.elims)

text \<open>What every attribute keeps.\<close>

definition parsed_attributes_ok :: "unix_date_time \<Rightarrow> (bytes \<Rightarrow> bool) \<Rightarrow> url \<Rightarrow> parsed_cookie \<Rightarrow> bool" where
  "parsed_attributes_ok now validate u c \<longleftrightarrow>
     pred_option (age_limited now) (expiry_time_from_expires_attribute c) \<and>
     pred_option (age_limited now) (expiry_time_from_max_age_attribute c) \<and>
     pred_option (\<lambda>p. p \<noteq> [] \<and> hd p = CHR ''/'' \<and> (length p \<le> 1024 \<or> default_path validate u = Success p)) (parsed_path c)"

lemma on_path_attribute_ok:
  assumes "parsed_attributes_ok now validate u c" "length v \<le> 1024" "on_path_attribute validate u c v = Success c'"
  shows "parsed_attributes_ok now validate u c' \<and> parsed_name c' = parsed_name c \<and> parsed_value c' = parsed_value c"
proof (cases "v = [] \<or> v ! 0 \<noteq> CHR ''/''")
  case True
  then obtain p where "default_path validate u = Success p" "c' = c\<lparr>parsed_path := Some p\<rparr>"
    using assms(3) by (auto simp: on_path_attribute_def outcome_bind_Success)
  then show ?thesis
    using assms(1) default_path_slash by (simp add: parsed_attributes_ok_def)
next
  case False
  then have "c' = c\<lparr>parsed_path := Some v\<rparr>"
    using assms(3) by (auto simp: on_path_attribute_def outcome_bind_Success from_utf8_def split: if_splits)
  then show ?thesis
    using assms(1,2) False by (simp add: parsed_attributes_ok_def hd_conv_nth)
qed

lemma process_attribute_cases:
  "process_attribute now validate u c n v \<in>
     {on_expires_attribute now c v, on_max_age_attribute now c v, on_domain_attribute validate c v,
      on_path_attribute validate u c v} \<union>
     Success ` {on_secure_attribute c, on_http_only_attribute c, on_same_site_attribute c v, c}"
  unfolding process_attribute_def by simp

lemma process_attribute_ok:
  assumes now: "duration_ok now" and ok: "parsed_attributes_ok now validate u c" and v: "length v \<le> 1024"
    and p: "process_attribute now validate u c n v = Success c'"
  shows "parsed_attributes_ok now validate u c' \<and> parsed_name c' = parsed_name c \<and> parsed_value c' = parsed_value c"
proof -
  have q: ?thesis if "on_expires_attribute now c v = Success c' \<or> on_max_age_attribute now c v = Success c'"
    using that ok on_expires_attribute_ok [OF now, where v = v and c = c]
      on_max_age_attribute_ok [OF now, where v = v and c = c]
    by (auto simp: parsed_attributes_ok_def)
  have d: ?thesis if "on_domain_attribute validate c v = Success c'"
    using that ok by (auto simp: on_domain_attribute_def outcome_bind_Success Let_def parsed_attributes_ok_def)
  have r: ?thesis if "c' \<in> {on_secure_attribute c, on_http_only_attribute c, on_same_site_attribute c v, c}"
    using that ok
    by (auto simp: on_secure_attribute_def on_http_only_attribute_def on_same_site_attribute_def parsed_attributes_ok_def)
  consider "Success c' = on_expires_attribute now c v" | "Success c' = on_max_age_attribute now c v"
    | "Success c' = on_domain_attribute validate c v" | "Success c' = on_path_attribute validate u c v"
    | "c' \<in> {on_secure_attribute c, on_http_only_attribute c, on_same_site_attribute c v, c}"
    using process_attribute_cases [of now validate u c n v] unfolding p by blast
  then show ?thesis
  proof cases
    case 1
    show ?thesis
      by (rule q) (simp only: 1 simp_thms)
  next
    case 2
    show ?thesis
      by (rule q) (simp only: 2 simp_thms)
  next
    case 3
    show ?thesis
      by (rule d) (simp only: 3)
  next
    case 4
    show ?thesis
      by (rule on_path_attribute_ok [OF ok v]) (simp only: 4)
  next
    case 5
    then show ?thesis
      by (rule r)
  qed
qed

lemma parse_attributes_Cons:
  assumes "s \<noteq> []" "next_attribute s = (n, v, rest)"
  shows "parse_attributes now validate u c s =
    (if length v > 1024 then parse_attributes now validate u c rest
     else case process_attribute now validate u c n v of Crash \<Rightarrow> Crash | Failure \<Rightarrow> Failure
          | Success c \<Rightarrow> parse_attributes now validate u c rest)"
  using assms by (subst parse_attributes.simps) simp

lemma parse_attributes_Nil [simp]: "parse_attributes now validate u c [] = Success c"
  by (simp add: parse_attributes.simps)

lemma parse_attributes_invariant:
  assumes "P c" "parse_attributes now validate u c s = Success c'"
    and step: "\<And>c n v c'. P c \<Longrightarrow> length v \<le> 1024 \<Longrightarrow> process_attribute now validate u c n v = Success c' \<Longrightarrow> P c'"
  shows "P c'"
  using assms(1,2)
proof (induction "length s" arbitrary: s c rule: less_induct)
  case less
  show ?case
  proof (cases "s = []")
    case False
    obtain n v rest where nx: "next_attribute s = (n, v, rest)"
      by (cases "next_attribute s")
    note IH = less.hyps [OF next_attribute_rest [OF nx False]] and e = parse_attributes_Cons [OF False nx]
    show ?thesis
    proof (cases "length v > 1024")
      case True
      then show ?thesis
        using less.prems IH unfolding e by simp
    next
      case False
      then obtain c2 where "process_attribute now validate u c n v = Success c2" "parse_attributes now validate u c2 rest = Success c'"
        using less.prems unfolding e by (auto split: outcome.splits)
      then show ?thesis
        using False less.prems(1) IH step [of c v n c2] by simp
    qed
  qed (use less.prems in simp)
qed

lemma parse_attributes_no_crash:
  assumes "set s \<subseteq> A"
    and step: "\<And>c n v. set v \<subseteq> A \<Longrightarrow> \<exists>c'. process_attribute now validate u c n v = Success c'"
  shows "\<exists>c'. parse_attributes now validate u c s = Success c'"
  using assms(1)
proof (induction "length s" arbitrary: s c rule: less_induct)
  case less
  show ?case
  proof (cases "s = []")
    case False
    obtain n v rest where nx: "next_attribute s = (n, v, rest)"
      by (cases "next_attribute s")
    note IH = less.hyps [OF next_attribute_rest [OF nx False]] and e = parse_attributes_Cons [OF False nx]
    have "set v \<subseteq> A" "set rest \<subseteq> A"
      using next_attribute_set [OF nx] less.prems by auto
    then show ?thesis
      using IH step [of v c n] unfolding e by auto
  qed simp
qed

abbreviation ascii_bytes :: "char set" where
  "ascii_bytes \<equiv> {b. ord_of b < 128}"

lemma infra_to_ascii_lowercase_ascii:
  assumes "set s \<subseteq> ascii_bytes"
  shows "set (infra_to_ascii_lowercase s) \<subseteq> ascii_bytes"
proof -
  have l: "set (utf8_encode (to_ascii_lowercase c)) \<subseteq> ascii_bytes" if "c < 128" for c
    using that utf8_encode_bytes(1) [of "to_ascii_lowercase c"]
    by (auto simp: to_ascii_lowercase_def is_ascii_upper_alpha_def)
  have f: "set (fold (\<lambda>c b. append_code_point b (to_ascii_lowercase c)) cs b) \<subseteq> ascii_bytes"
    if "list_all (\<lambda>c. c < 128) cs" "set b \<subseteq> ascii_bytes" for cs b
    using that l by (induction cs arbitrary: b) (auto simp: append_code_point_encode)
  have "utf8_decode s = map ord_of s"
    using assms by (intro utf8_decode_ascii) (auto simp: list_all_iff)
  then show ?thesis
    unfolding infra_to_ascii_lowercase_def using assms by (intro f) (auto simp: list_all_iff)
qed

lemma process_attribute_total:
  assumes now: "duration_ok now" and val: "\<And>s. set s \<subseteq> ascii_bytes \<Longrightarrow> validate s"
    and path: "default_path validate u \<noteq> Crash" "default_path validate u \<noteq> Failure" and v: "set v \<subseteq> ascii_bytes"
  shows "\<exists>c'. process_attribute now validate u c n v = Success c'"
proof -
  have "\<exists>c'. on_expires_attribute now c v = Success c'" "\<exists>c'. on_max_age_attribute now c v = Success c'"
    using on_expires_attribute_ok [OF now, where v = v and c = c] on_max_age_attribute_ok [OF now, where v = v and c = c]
    by blast+
  moreover have "set (drop 1 v) \<subseteq> ascii_bytes"
    using v set_drop_subset [of 1 v] by blast
  then have "\<exists>c'. on_domain_attribute validate c v = Success c'"
    using v val infra_to_ascii_lowercase_ascii by (simp add: on_domain_attribute_def Let_def from_utf8_def)
  moreover have "\<exists>c'. on_path_attribute validate u c v = Success c'"
    using v val path by (cases "default_path validate u") (simp_all add: on_path_attribute_def from_utf8_def)
  ultimately show ?thesis
    using process_attribute_cases [of now validate u c n v] by auto
qed

text \<open>The name and the value of a cookie.\<close>

definition cookie_pair :: "bytes \<Rightarrow> bytes \<times> bytes" where
  "cookie_pair s = (let p = fst (split_first_semicolon s) in
     case find_char p CHR ''='' 0 of
       None \<Rightarrow> ([], trim_whitespace p TrimBoth)
     | Some j \<Rightarrow> (trim_whitespace (take j p) TrimBoth, trim_whitespace (value_after p j) TrimBoth))"

lemma parse_cookie_pair:
  "parse_cookie now validate u s =
     (let (n, v) = cookie_pair s in
      if cookie_contains_invalid_control_character s \<or> length n + length v > 4096 then Failure
      else if \<not> validate n \<or> \<not> validate v then Crash
      else parse_attributes now validate u (new_parsed_cookie n v) (snd (split_first_semicolon s)))"
  by (cases "split_first_semicolon s")
    (auto simp: parse_cookie_def cookie_pair_def Let_def from_utf8_def trim_whitespace_def trim_both split: option.split)

lemma cookie_pair_set:
  assumes "cookie_pair s = (n, v)"
  shows "CHR '';'' \<notin> set n \<and> CHR ''='' \<notin> set n \<and> CHR '';'' \<notin> set v \<and> set n \<subseteq> set s \<and> set v \<subseteq> set s"
proof -
  obtain p r where p: "split_first_semicolon s = (p, r)"
    by (cases "split_first_semicolon s")
  have s: "CHR '';'' \<notin> set p" "set p \<subseteq> set s"
    using split_first_semicolon_set [OF p] by simp_all
  show ?thesis
  proof (cases "find_char p CHR ''='' 0")
    case None
    then have "n = []" "v = trim_whitespace p TrimBoth"
      using assms by (simp_all add: cookie_pair_def Let_def p)
    then show ?thesis
      using s trim_whitespace_set [of p] by auto
  next
    case (Some j)
    then have nv: "n = trim_whitespace (take j p) TrimBoth" "v = trim_whitespace (value_after p j) TrimBoth"
      using assms by (simp_all add: cookie_pair_def Let_def p)
    have "set n \<subseteq> set (take j p)" "set v \<subseteq> set p"
      using nv trim_whitespace_set value_after_set by (metis order_trans)+
    then show ?thesis
      using s find_char_Some [OF Some] set_take_subset [of j p] by blast
  qed
qed

lemma parse_cookie_attributes:
  assumes now: "duration_ok now" and p: "parse_cookie now validate u s = Success c"
  shows "parsed_attributes_ok now validate u c \<and> cookie_pair s = (parsed_name c, parsed_value c) \<and>
    length (parsed_name c) + length (parsed_value c) \<le> 4096"
proof -
  obtain n v where nv: "cookie_pair s = (n, v)"
    by (cases "cookie_pair s")
  have l: "length n + length v \<le> 4096"
    and a: "parse_attributes now validate u (new_parsed_cookie n v) (snd (split_first_semicolon s)) = Success c"
    using p by (auto simp: parse_cookie_pair nv split: if_splits)
  have "parsed_attributes_ok now validate u c \<and> parsed_name c = n \<and> parsed_value c = v"
  proof (rule parse_attributes_invariant [OF _ a])
    show "parsed_attributes_ok now validate u (new_parsed_cookie n v) \<and>
        parsed_name (new_parsed_cookie n v) = n \<and> parsed_value (new_parsed_cookie n v) = v"
      by (simp add: new_parsed_cookie_def parsed_attributes_ok_def)
  qed (use process_attribute_ok [OF now] in metis)
  then show ?thesis
    using l nv by simp
qed

subsection \<open>Properties\<close>

text \<open>
  C13. What the cookie parser accepts: a parsed cookie has a name without \<^verbatim>\<open>=\<close>, a name and a value without
  \<^verbatim>\<open>;\<close> of at most 4096 bytes together, expiry times less than a second after the limit of 400 days from
  now, and a path that starts with a slash and is at most 1024 bytes long or the default path of the URL.
\<close>

theorem parse_cookie_sound:
  assumes now: "duration_ok now" and p: "parse_cookie now validate u s = Success c"
  shows "length (parsed_name c) + length (parsed_value c) \<le> 4096 \<and>
    CHR ''='' \<notin> set (parsed_name c) \<and> CHR '';'' \<notin> set (parsed_name c) \<and> CHR '';'' \<notin> set (parsed_value c) \<and>
    pred_option (age_limited now) (expiry_time_from_expires_attribute c) \<and>
    pred_option (age_limited now) (expiry_time_from_max_age_attribute c) \<and>
    pred_option (\<lambda>p. p \<noteq> [] \<and> hd p = CHR ''/'' \<and> (length p \<le> 1024 \<or> default_path validate u = Success p)) (parsed_path c)"
proof -
  note a = parse_cookie_attributes [OF assms]
  then show ?thesis
    using cookie_pair_set [of s "parsed_name c" "parsed_value c"] by (simp add: parsed_attributes_ok_def)
qed

abbreviation witness_url :: url where
  "witness_url \<equiv> empty_url\<lparr>url_scheme := ''https'', url_host := Host_String ''example.com'', url_paths := [''a'', ''b'']\<rparr>"

abbreviation ascii_only :: "bytes \<Rightarrow> bool" where
  "ascii_only \<equiv> list_all (\<lambda>b. ord_of b < 128)"

theorem parse_cookie_sound_witness:
  "\<exists>c. parse_cookie (Duration 0 0) ascii_only witness_url ''k=v; Max-Age=99999999999; Path=/a'' = Success c \<and>
     parsed_path c = Some ''/a'' \<and> pred_option (age_limited (Duration 0 0)) (expiry_time_from_max_age_attribute c)"
proof -
  have "map_option parsed_path (outcome_option (parse_cookie (Duration 0 0) ascii_only witness_url
      ''k=v; Max-Age=99999999999; Path=/a'')) = Some (Some ''/a'')"
    by code_simp
  then obtain c where "parse_cookie (Duration 0 0) ascii_only witness_url ''k=v; Max-Age=99999999999; Path=/a'' = Success c"
      "parsed_path c = Some ''/a''"
    by (auto elim: outcome_option.elims)
  then show ?thesis
    using parse_cookie_sound [of "Duration 0 0" ascii_only witness_url _ c] by (auto simp: is_within_range_def)
qed




text \<open>
  \<^verbatim>\<open>Max-Age\<close>: a value that is a decimal number, of any number of digits and with an optional minus
  sign, sets the expiry time to the earliest representable time when it is not positive, and otherwise to
  that many seconds from now, but no more than 400 days; every other value is ignored.
\<close>

lemma max_age_semantics:
  assumes "duration_ok now"
  shows "case max_age_value v of
      None \<Rightarrow> on_max_age_attribute now c v = Success c
    | Some n \<Rightarrow> \<exists>e. on_max_age_attribute now c v = Success (c\<lparr>expiry_time_from_max_age_attribute := Some e\<rparr>) \<and> duration_ok e \<and>
        (if n \<le> 0 then e = earliest
         else nanoseconds_of e = saturate (nanoseconds_of now + min n 34560000 * 1000000000))"
  using on_max_age_attribute_value [OF assms] .

lemma max_age_semantics_witness:
  "\<exists>e. on_max_age_attribute (Duration 7 0) (new_parsed_cookie ''k'' ''v'') ''100000000000000000000'' =
       Success ((new_parsed_cookie ''k'' ''v'')\<lparr>expiry_time_from_max_age_attribute := Some e\<rparr>) \<and>
     nanoseconds_of e = 34560007000000000"
proof -
  have "max_age_value ''100000000000000000000'' = Some 100000000000000000000"
    by code_simp
  then show ?thesis
    using max_age_semantics [of "Duration 7 0" "new_parsed_cookie ''k'' ''v''" "''100000000000000000000''"]
    by (auto simp: is_within_range_def saturate_def)
qed

end
