(* ===== verification/Tables.thy ===== *)
theory Tables
  imports Main "HOL-Library.Multiset" "HOL-Library.AList"
begin

text \<open>
  \<^verbatim>\<open>AK/HashMap.h\<close> as its clients see it: a table of entries with distinct keys.  The order in which a hash
  table is iterated depends on the hashes, the capacity and the history of the table; here every operation
  that changes the table ends with an arbitrary permutation, its \<open>order\<close>.  The interface \<open>keyed_store\<close> states
  what the clients rely on, and the table implements it.
\<close>

subsection \<open>The table\<close>

type_synonym ('k, 'v) table = "('k \<times> 'v) list"
type_synonym ('k, 'v) table_order = "('k, 'v) table \<Rightarrow> ('k, 'v) table"

definition table_get :: "('k, 'v) table \<Rightarrow> 'k \<Rightarrow> 'v option" where
  "table_get t k = map_of t k"

definition table_set :: "('k, 'v) table_order \<Rightarrow> 'k \<Rightarrow> 'v \<Rightarrow> ('k, 'v) table \<Rightarrow> ('k, 'v) table" where
  "table_set order k v t = order (AList.update k v t)"

definition table_remove_all_matching ::
  "('k, 'v) table_order \<Rightarrow> ('k \<Rightarrow> 'v \<Rightarrow> bool) \<Rightarrow> ('k, 'v) table \<Rightarrow> ('k, 'v) table" where
  "table_remove_all_matching order predicate t = order (filter (\<lambda>(k, v). \<not> predicate k v) t)"

definition order_ok :: "('k, 'v) table_order \<Rightarrow> bool" where
  "order_ok order \<longleftrightarrow> (\<forall>t. mset (order t) = mset t)"

definition table_ok :: "('k, 'v) table \<Rightarrow> bool" where
  "table_ok t \<longleftrightarrow> distinct (map fst t)"

subsection \<open>The interface\<close>

locale keyed_store =
  fixes ordering_ok :: "'o \<Rightarrow> bool" and store_ok :: "'s \<Rightarrow> bool" and entry :: "'s \<Rightarrow> 'k \<Rightarrow> 'v option"
    and put :: "'o \<Rightarrow> 'k \<Rightarrow> 'v \<Rightarrow> 's \<Rightarrow> 's" and drop_if :: "'o \<Rightarrow> ('k \<Rightarrow> 'v \<Rightarrow> bool) \<Rightarrow> 's \<Rightarrow> 's"
  assumes put_ok: "ordering_ok r \<Longrightarrow> store_ok s \<Longrightarrow> store_ok (put r k v s)"
    and entry_put: "ordering_ok r \<Longrightarrow> store_ok s \<Longrightarrow> entry (put r k v s) = (entry s)(k \<mapsto> v)"
    and drop_ok: "ordering_ok r \<Longrightarrow> store_ok s \<Longrightarrow> store_ok (drop_if r P s)"
    and entry_drop: "ordering_ok r \<Longrightarrow> store_ok s \<Longrightarrow>
      entry (drop_if r P s) k = (case entry s k of None \<Rightarrow> None | Some v \<Rightarrow> if P k v then None else Some v)"
begin

lemma entry_put_same: "ordering_ok r \<Longrightarrow> store_ok s \<Longrightarrow> entry (put r k v s) k = Some v"
  by (simp add: entry_put)

lemma entry_drop_Some:
  "ordering_ok r \<Longrightarrow> store_ok s \<Longrightarrow> entry (drop_if r P s) k = Some v \<longleftrightarrow> entry s k = Some v \<and> \<not> P k v"
  by (auto simp: entry_drop split: option.splits if_splits)

lemma drop_idem: "ordering_ok r \<Longrightarrow> ordering_ok r' \<Longrightarrow> store_ok s \<Longrightarrow> entry (drop_if r' P (drop_if r P s)) = entry (drop_if r P s)"
  by (rule ext) (auto simp: entry_drop drop_ok split: option.splits)

lemma put_put: "ordering_ok r \<Longrightarrow> ordering_ok r' \<Longrightarrow> store_ok s \<Longrightarrow> entry (put r' k v (put r k v' s)) = entry (put r' k v s)"
  by (simp add: entry_put put_ok)

lemma put_drop:
  "ordering_ok r \<Longrightarrow> store_ok s \<Longrightarrow>
     entry (drop_if r P (put r k v s)) = (\<lambda>x. case ((entry s)(k \<mapsto> v)) x of None \<Rightarrow> None | Some c \<Rightarrow> if P x c then None else Some c)"
  by (rule ext) (simp add: entry_drop entry_put put_ok)

end

subsection \<open>The table implements the interface\<close>

lemma order_set: "order_ok order \<Longrightarrow> set (order t) = set t"
  unfolding order_ok_def by (metis mset_eq_setD)

lemma order_table_ok: "order_ok order \<Longrightarrow> table_ok (order t) \<longleftrightarrow> table_ok t"
  unfolding order_ok_def table_ok_def by (metis mset_eq_imp_distinct_iff mset_map)

lemma order_map_of:
  assumes "order_ok order" "table_ok t"
  shows "map_of (order t) = map_of t"
  using assms by (intro map_of_inject_set [THEN iffD2]) (auto simp: order_set order_table_ok table_ok_def [symmetric])

lemma filter_table_ok: "table_ok t \<Longrightarrow> table_ok (filter P t)"
  unfolding table_ok_def by (induction t) auto

lemma map_of_filter_table:
  assumes "table_ok t"
  shows "map_of (filter (\<lambda>(k, v). \<not> P k v) t) k = (case map_of t k of None \<Rightarrow> None | Some v \<Rightarrow> if P k v then None else Some v)"
  using assms by (induction t) (auto simp: table_ok_def map_of_eq_None_iff image_iff split: option.splits)

interpretation cookie_table: keyed_store order_ok table_ok table_get table_set table_remove_all_matching
proof
  fix order :: "('k, 'v) table_order" and t :: "('k, 'v) table" and k v P
  assume o: "order_ok order" and t: "table_ok t"
  have u: "table_ok (AList.update k v t)"
    using t by (simp add: table_ok_def distinct_update)
  show "table_ok (table_set order k v t)"
    using o u by (simp add: table_set_def order_table_ok)
  show "table_get (table_set order k v t) = (table_get t)(k \<mapsto> v)"
    using o u by (auto simp: table_set_def table_get_def order_map_of update_conv')
  show "table_ok (table_remove_all_matching order P t)"
    using o t by (simp add: table_remove_all_matching_def order_table_ok filter_table_ok)
  show "table_get (table_remove_all_matching order P t) k =
      (case table_get t k of None \<Rightarrow> None | Some v \<Rightarrow> if P k v then None else Some v)"
    using o t by (simp add: table_remove_all_matching_def table_get_def order_map_of filter_table_ok map_of_filter_table)
qed

lemma table_get_set_mem: "table_ok t \<Longrightarrow> table_get t k = Some v \<longleftrightarrow> (k, v) \<in> set t"
  by (simp add: table_get_def table_ok_def)

end
