(* ===== verification/CookieJar.thy ===== *)
theory CookieJar
  imports ParsedCookies Tables
begin

text \<open>
  \<^verbatim>\<open>LibWebView/CookieJar\<close>: the cookies of the browser, which the storage algorithm fills from parsed
  cookies and the retrieval algorithm reads for a URL.  What the jar reads from outside is the record
  \<open>world\<close>: the clock, the UTF-8 validator, the lower case mapping of ICU, the generated list of public
  suffixes, and the order in which its hash maps happen to be iterated.
\<close>

subsection \<open>The jar\<close>

record cookie_storage_key =
  key_name :: bytes
  key_domain :: bytes
  key_path :: bytes

definition storage_key :: "cookie \<Rightarrow> cookie_storage_key" where
  "storage_key c = \<lparr>key_name = cookie_name c, key_domain = cookie_domain c, key_path = cookie_path c\<rparr>"

type_synonym cookies = "(cookie_storage_key, cookie) table"

record cookie_jar =
  m_cookies :: cookies
  m_dirty_cookies :: cookies

record world =
  clock :: unix_date_time
  validate_utf8 :: "bytes \<Rightarrow> bool"
  unicode_lowercase :: "bytes \<Rightarrow> bytes"
  public_suffix :: "bytes \<Rightarrow> bool"
  hash_order :: "(cookie_storage_key, cookie) table_order"

datatype matching_mode = RFC6265 | WebDriver

definition empty_jar :: cookie_jar where
  "empty_jar = \<lparr>m_cookies = [], m_dirty_cookies = []\<rparr>"

subsection \<open>Transient storage\<close>

definition is_expired :: "unix_date_time \<Rightarrow> cookie \<Rightarrow> bool" where
  "is_expired now c \<longleftrightarrow> duration_compare (expiry_time c) now < 0"

definition remove_expired :: "world \<Rightarrow> unix_date_time \<Rightarrow> cookie_jar \<Rightarrow> cookie_jar" where
  "remove_expired w now j =
     j\<lparr>m_cookies := table_remove_all_matching (hash_order w) (\<lambda>_. is_expired now) (m_cookies j)\<rparr>"

text \<open>\<open>None\<close> is a failed assertion of the arithmetic on durations.\<close>

fun shift_expiry_times :: "duration \<Rightarrow> cookies \<Rightarrow> cookies option" where
  "shift_expiry_times offset [] = Some []"
| "shift_expiry_times offset ((k, c) # t) =
     do { e \<leftarrow> duration_sub (expiry_time c) offset; t \<leftarrow> shift_expiry_times offset t; Some ((k, c\<lparr>expiry_time := e\<rparr>) # t) }"

definition purge_expired_cookies :: "world \<Rightarrow> duration option \<Rightarrow> cookie_jar \<Rightarrow> (unix_date_time \<times> cookie_jar) option" where
  "purge_expired_cookies w offset j =
     (case offset of
        None \<Rightarrow> Some (clock w, remove_expired w (clock w) j)
      | Some offset \<Rightarrow>
          do {
            now \<leftarrow> duration_add (clock w) offset;
            dirty \<leftarrow> shift_expiry_times offset (m_dirty_cookies j);
            Some (now, remove_expired w now (j\<lparr>m_dirty_cookies := dirty\<rparr>))
          })"

abbreviation purge :: "world \<Rightarrow> cookie_jar \<Rightarrow> cookie_jar" where
  "purge w j \<equiv> remove_expired w (clock w) j"

definition set_cookies :: "world \<Rightarrow> cookies \<Rightarrow> cookie_jar \<Rightarrow> cookie_jar" where
  "set_cookies w cookies j = purge w (j\<lparr>m_cookies := cookies\<rparr>)"

definition transient_set_cookie :: "world \<Rightarrow> cookie_storage_key \<Rightarrow> cookie \<Rightarrow> cookie_jar \<Rightarrow> cookie_jar" where
  "transient_set_cookie w key c j =
     j\<lparr>m_cookies := table_set (hash_order w) key c (m_cookies j),
       m_dirty_cookies := table_set (hash_order w) key c (m_dirty_cookies j)\<rparr>"

definition transient_get_cookie :: "cookie_storage_key \<Rightarrow> cookie_jar \<Rightarrow> cookie option" where
  "transient_get_cookie key j = table_get (m_cookies j) key"

subsection \<open>Domains and paths\<close>

definition canonicalize_domain :: "world \<Rightarrow> url \<Rightarrow> bytes option" where
  "canonicalize_domain w u =
     (if \<not> url_valid u \<or> url_host u = Host_Empty then None
      else Some (unicode_lowercase w (serialize_host (url_host u))))"

definition path_matches :: "bytes \<Rightarrow> bytes \<Rightarrow> bool" where
  "path_matches request_path path =
     (if request_path = path then True
      else if starts_with request_path path CaseSensitive then
        if ends_with path ''/'' CaseSensitive then True
        else if request_path ! length path = CHR ''/'' then True
        else False
      else False)"

subsection \<open>Storing a cookie\<close>

definition has_case_insensitive_prefix :: "bytes \<Rightarrow> bytes \<Rightarrow> bool" where
  "has_case_insensitive_prefix val pre =
     (if length val < length pre then False
      else equals_ignoring_ascii_case (take (length pre) val) pre)"

text \<open>Step 6: the persistent flag and the expiry time.\<close>

definition stored_expiry :: "parsed_cookie \<Rightarrow> (bool \<times> unix_date_time) outcome" where
  "stored_expiry p =
     (case expiry_time_from_max_age_attribute p of
        Some e \<Rightarrow> Success (True, e)
      | None \<Rightarrow>
          (case expiry_time_from_expires_attribute p of
             Some e \<Rightarrow> Success (True, e)
           | None \<Rightarrow> outcome_bind (asserted (from_unix_time_parts 3000 1 1 0 0 0 0)) (\<lambda>e. Success (False, e))))"

text \<open>Steps 7 to 10: the domain and the host-only flag, or \<open>None\<close> when the cookie is ignored.\<close>

definition stored_domain :: "world \<Rightarrow> parsed_cookie \<Rightarrow> bytes \<Rightarrow> (bytes \<times> bool) option" where
  "stored_domain w p canonicalized_domain =
     (let domain_attribute = (case parsed_domain p of
            Some d \<Rightarrow> if length d \<le> 1024 then d else []
          | None \<Rightarrow> [])
      in if \<not> list_all is_ascii (utf8_decode domain_attribute) then None
         else case (if public_suffix w domain_attribute then
                      if domain_attribute = canonicalized_domain then Some [] else None
                    else Some domain_attribute) of
                None \<Rightarrow> None
              | Some domain_attribute \<Rightarrow>
                  if domain_attribute \<noteq> [] then
                    if \<not> domain_matches canonicalized_domain domain_attribute then None
                    else Some (domain_attribute, False)
                  else Some (canonicalized_domain, True))"

text \<open>Step 11: the path.\<close>

definition stored_path :: "world \<Rightarrow> url \<Rightarrow> parsed_cookie \<Rightarrow> bytes outcome" where
  "stored_path w u p =
     (case parsed_path p of
        Some path \<Rightarrow> Success (if length path \<le> 1024 then path else [])
      | None \<Rightarrow> default_path (validate_utf8 w) u)"

text \<open>Step 16: a secure cookie that a cookie of an insecure connection would overlay.\<close>

definition overlays_secure_cookie :: "cookie \<Rightarrow> cookie_jar \<Rightarrow> bool" where
  "overlays_secure_cookie c j =
     list_ex (\<lambda>(_, old). cookie_name old = cookie_name c \<and> secure old \<and>
       (domain_matches (cookie_domain old) (cookie_domain c) \<or> domain_matches (cookie_domain c) (cookie_domain old)) \<and>
       path_matches (cookie_path c) (cookie_path old)) (m_cookies j)"

text \<open>Steps 13, 15, 16 and 19 to 22: whether a cookie is ignored.\<close>

definition ignores_cookie :: "parsed_cookie \<Rightarrow> url \<Rightarrow> cookie_source \<Rightarrow> cookie_jar \<Rightarrow> cookie \<Rightarrow> bool" where
  "ignores_cookie p u source j c \<longleftrightarrow>
     secure c \<and> url_scheme u \<noteq> ''https'' \<or>
     source = NonHttp \<and> http_only c \<or>
     \<not> secure c \<and> url_scheme u \<noteq> ''https'' \<and> overlays_secure_cookie c j \<or>
     same_site_of c = SameSite_None \<and> \<not> secure c \<or>
     has_case_insensitive_prefix (cookie_name c) ''__Secure-'' \<and> \<not> secure c \<or>
     has_case_insensitive_prefix (cookie_name c) ''__Host-'' \<and>
       (\<not> secure c \<or> \<not> host_only c \<or> (parsed_path p \<noteq> None \<and> parsed_path p \<noteq> Some ''/'')) \<or>
     cookie_name c = [] \<and>
       (has_case_insensitive_prefix (cookie_value c) ''__Secure-'' \<or> has_case_insensitive_prefix (cookie_value c) ''__Host-'')"

text \<open>Steps 23 and 24.\<close>

definition insert_stored_cookie :: "world \<Rightarrow> cookie_source \<Rightarrow> cookie \<Rightarrow> cookie_jar \<Rightarrow> cookie_jar" where
  "insert_stored_cookie w source c j =
     (case transient_get_cookie (storage_key c) j of
        Some old \<Rightarrow>
          if host_only old = host_only c then
            if source = NonHttp \<and> http_only old then j
            else purge w (transient_set_cookie w (storage_key c) (c\<lparr>creation_time := creation_time old\<rparr>) j)
          else purge w (transient_set_cookie w (storage_key c) c j)
      | None \<Rightarrow> purge w (transient_set_cookie w (storage_key c) c j))"

text \<open>Steps 2 to 12, 14 and 17: the new cookie, or \<open>None\<close> when it is ignored before it is complete.\<close>

definition new_cookie :: "world \<Rightarrow> parsed_cookie \<Rightarrow> url \<Rightarrow> bytes \<Rightarrow> cookie option outcome" where
  "new_cookie w p u canonicalized_domain =
     (if parsed_name p = [] \<and> parsed_value p = [] then Success None
      else if cookie_contains_invalid_control_character (parsed_name p) then Success None
      else if cookie_contains_invalid_control_character (parsed_value p) then Success None
      else if length (parsed_name p) + length (parsed_value p) > 4096 then Success None
      else outcome_bind (stored_expiry p) (\<lambda>(is_persistent, expiry).
        case stored_domain w p canonicalized_domain of
          None \<Rightarrow> Success None
        | Some (domain, is_host_only) \<Rightarrow>
            outcome_bind (stored_path w u p) (\<lambda>path.
              Success (Some
                \<lparr>cookie_name = parsed_name p, cookie_value = parsed_value p,
                 same_site_of = same_site_attribute p, creation_time = clock w, last_access_time = clock w,
                 expiry_time = expiry, cookie_domain = domain, cookie_path = path,
                 secure = secure_attribute_present p, http_only = http_only_attribute_present p,
                 host_only = is_host_only, persistent = is_persistent\<rparr>))))"

definition store_cookie ::
  "world \<Rightarrow> parsed_cookie \<Rightarrow> url \<Rightarrow> bytes \<Rightarrow> cookie_source \<Rightarrow> cookie_jar \<Rightarrow> cookie_jar outcome" where
  "store_cookie w p u canonicalized_domain source j =
     outcome_bind (new_cookie w p u canonicalized_domain) (\<lambda>new.
       case new of
         None \<Rightarrow> Success j
       | Some c \<Rightarrow> if ignores_cookie p u source j c then Success j else Success (insert_stored_cookie w source c j))"

definition set_cookie :: "world \<Rightarrow> url \<Rightarrow> parsed_cookie \<Rightarrow> cookie_source \<Rightarrow> cookie_jar \<Rightarrow> cookie_jar outcome" where
  "set_cookie w u p source j =
     (case canonicalize_domain w u of
        None \<Rightarrow> Success j
      | Some domain \<Rightarrow> store_cookie w p u domain source j)"

definition update_cookie :: "world \<Rightarrow> cookie \<Rightarrow> cookie_jar \<Rightarrow> cookie_jar" where
  "update_cookie w c j =
     (let c = (case transient_get_cookie (storage_key c) j of
            Some old \<Rightarrow> if host_only old = host_only c then c\<lparr>creation_time := creation_time old\<rparr> else c
          | None \<Rightarrow> c)
      in purge w (transient_set_cookie w (storage_key c) c j))"

subsection \<open>Retrieving cookies\<close>

definition domain_applies :: "bytes \<Rightarrow> cookie \<Rightarrow> bool" where
  "domain_applies canonicalized_domain c \<longleftrightarrow>
     host_only c \<and> canonicalized_domain = cookie_domain c \<or>
     \<not> host_only c \<and> domain_matches canonicalized_domain (cookie_domain c)"

definition cookie_matches :: "url \<Rightarrow> bytes \<Rightarrow> bytes \<Rightarrow> cookie_source \<Rightarrow> cookie \<Rightarrow> bool" where
  "cookie_matches u request_path canonicalized_domain source c \<longleftrightarrow>
     domain_applies canonicalized_domain c \<and>
     path_matches request_path (cookie_path c) \<and>
     \<not> (secure c \<and> url_scheme u \<noteq> ''https'') \<and>
     \<not> (http_only c \<and> source \<noteq> Http)"

definition listed_before :: "cookie \<Rightarrow> cookie \<Rightarrow> bool" where
  "listed_before c entry =
     (if length (cookie_path c) > length (cookie_path entry) then True
      else if length (cookie_path c) = length (cookie_path entry) then
        duration_compare (creation_time c) (creation_time entry) < 0
      else False)"

fun insert_before_matching :: "'a \<Rightarrow> ('a \<Rightarrow> bool) \<Rightarrow> 'a list \<Rightarrow> 'a list" where
  "insert_before_matching x predicate [] = [x]"
| "insert_before_matching x predicate (y # ys) =
     (if predicate y then x # y # ys else y # insert_before_matching x predicate ys)"

text \<open>
  The path of the URL is serialized for every cookie whose domain applies; when it cannot be, the first such
  cookie fails an assertion.
\<close>

definition get_matching_cookies ::
  "world \<Rightarrow> url \<Rightarrow> bytes \<Rightarrow> cookie_source \<Rightarrow> matching_mode \<Rightarrow> cookie_jar \<Rightarrow> (cookie list \<times> cookie_jar) outcome" where
  "get_matching_cookies w u canonicalized_domain source mode j =
     (case serialize_path u of
        None \<Rightarrow> if list_ex (\<lambda>(_, c). domain_applies canonicalized_domain c) (m_cookies j) then Crash
                else Success ([], if mode = WebDriver then j else purge w j)
      | Some request_path \<Rightarrow>
          let matching = cookie_matches u request_path canonicalized_domain source in
          if mode = WebDriver then Success (filter matching (map snd (m_cookies j)), j)
          else let touched = map (\<lambda>(k, c). (k, if matching c then c\<lparr>last_access_time := clock w\<rparr> else c)) (m_cookies j);
                   cookie_list = fold (\<lambda>c. insert_before_matching c (listed_before c)) (filter matching (map snd touched)) []
               in Success (cookie_list, purge w (j\<lparr>m_cookies := touched\<rparr>)))"

definition append_cookie :: "cookie \<Rightarrow> bytes \<Rightarrow> bytes" where
  "append_cookie c builder =
     (let builder = (if builder \<noteq> [] then builder @ ''; '' else builder);
          builder = (if cookie_name c \<noteq> [] then builder @ cookie_name c @ ''='' else builder)
      in if cookie_value c \<noteq> [] then builder @ cookie_value c else builder)"

definition get_cookie :: "world \<Rightarrow> url \<Rightarrow> cookie_source \<Rightarrow> cookie_jar \<Rightarrow> (bytes \<times> cookie_jar) outcome" where
  "get_cookie w u source j =
     (let j = purge w j in
      case canonicalize_domain w u of
        None \<Rightarrow> Success ([], j)
      | Some domain \<Rightarrow>
          outcome_bind (get_matching_cookies w u domain source RFC6265 j) (\<lambda>(cookie_list, j).
          outcome_bind (asserted (from_utf8 (validate_utf8 w) (fold append_cookie cookie_list []))) (\<lambda>cookie_string.
            Success (cookie_string, j))))"

definition get_all_cookies :: "cookie_jar \<Rightarrow> cookie list" where
  "get_all_cookies j = map snd (m_cookies j)"

definition get_all_cookies_for :: "world \<Rightarrow> url \<Rightarrow> cookie_jar \<Rightarrow> cookie list outcome" where
  "get_all_cookies_for w u j =
     (case canonicalize_domain w u of
        None \<Rightarrow> Success []
      | Some domain \<Rightarrow> outcome_bind (get_matching_cookies w u domain Http WebDriver j) (\<lambda>(cookie_list, _). Success cookie_list))"

definition get_named_cookie :: "world \<Rightarrow> url \<Rightarrow> bytes \<Rightarrow> cookie_jar \<Rightarrow> cookie option outcome" where
  "get_named_cookie w u name j =
     (case canonicalize_domain w u of
        None \<Rightarrow> Success None
      | Some domain \<Rightarrow> outcome_bind (get_matching_cookies w u domain Http WebDriver j) (\<lambda>(cookie_list, _).
          Success (find (\<lambda>c. cookie_name c = name) cookie_list)))"

definition expire_cookies_with_time_offset :: "world \<Rightarrow> duration \<Rightarrow> cookie_jar \<Rightarrow> cookie_jar option" where
  "expire_cookies_with_time_offset w offset j = map_option snd (purge_expired_cookies w (Some offset) j)"


subsection \<open>The invariant\<close>

definition world_ok :: "world \<Rightarrow> bool" where
  "world_ok w \<longleftrightarrow> duration_ok (clock w) \<and> order_ok (hash_order w)"

definition cookie_times_ok :: "cookie \<Rightarrow> bool" where
  "cookie_times_ok c \<longleftrightarrow> duration_ok (creation_time c) \<and> duration_ok (last_access_time c) \<and> duration_ok (expiry_time c)"

definition cookies_ok :: "cookies \<Rightarrow> bool" where
  "cookies_ok t \<longleftrightarrow> table_ok t \<and> (\<forall>k c. table_get t k = Some c \<longrightarrow> k = storage_key c \<and> cookie_times_ok c)"

definition jar_ok :: "cookie_jar \<Rightarrow> bool" where
  "jar_ok j \<longleftrightarrow> cookies_ok (m_cookies j) \<and> cookies_ok (m_dirty_cookies j)"

abbreviation stored :: "cookie_jar \<Rightarrow> cookie_storage_key \<Rightarrow> cookie option" where
  "stored j \<equiv> table_get (m_cookies j)"

text \<open>The abstract cookie store is a map from keys to cookies; expiry restricts it.\<close>

definition live_cookies :: "unix_date_time \<Rightarrow> (cookie_storage_key \<Rightarrow> cookie option) \<Rightarrow> cookie_storage_key \<Rightarrow> cookie option" where
  "live_cookies now m k = (case m k of None \<Rightarrow> None | Some c \<Rightarrow> if is_expired now c then None else Some c)"

lemma live_cookies_Some: "live_cookies now m k = Some c \<longleftrightarrow> m k = Some c \<and> \<not> is_expired now c"
  by (auto simp: live_cookies_def split: option.splits)

lemma live_cookies_idem [simp]: "live_cookies now (live_cookies now m) = live_cookies now m"
  by (rule ext) (auto simp: live_cookies_def split: option.splits)

lemma cookies_ok_put:
  assumes "order_ok r" "cookies_ok t" "k = storage_key c" "cookie_times_ok c"
  shows "cookies_ok (table_set r k c t)"
  using assms by (auto simp: cookies_ok_def cookie_table.put_ok cookie_table.entry_put)

lemma cookies_ok_drop:
  assumes "order_ok r" "cookies_ok t"
  shows "cookies_ok (table_remove_all_matching r P t)"
  using assms by (auto simp: cookies_ok_def cookie_table.drop_ok cookie_table.entry_drop_Some)

lemma remove_expired_ok: "world_ok w \<Longrightarrow> jar_ok j \<Longrightarrow> jar_ok (remove_expired w now j)"
  by (simp add: jar_ok_def remove_expired_def world_ok_def cookies_ok_drop)

lemma stored_remove_expired:
  "world_ok w \<Longrightarrow> jar_ok j \<Longrightarrow> stored (remove_expired w now j) = live_cookies now (stored j)"
  by (rule ext) (simp add: remove_expired_def jar_ok_def world_ok_def cookies_ok_def cookie_table.entry_drop live_cookies_def)

lemma remove_expired_dirty [simp]: "m_dirty_cookies (remove_expired w now j) = m_dirty_cookies j"
  by (simp add: remove_expired_def)

lemma transient_set_ok:
  assumes "world_ok w" "jar_ok j" "cookie_times_ok c"
  shows "jar_ok (transient_set_cookie w (storage_key c) c j)"
    and "stored (transient_set_cookie w (storage_key c) c j) = (stored j)(storage_key c \<mapsto> c)"
    and "table_get (m_dirty_cookies (transient_set_cookie w (storage_key c) c j)) =
      (table_get (m_dirty_cookies j))(storage_key c \<mapsto> c)"
  using assms
  by (simp_all add: transient_set_cookie_def jar_ok_def world_ok_def cookies_ok_put)
    (simp_all add: cookies_ok_def cookie_table.entry_put)

text \<open>Steps 23 and 24 on the abstract store.\<close>

definition insert_cookie_spec ::
  "unix_date_time \<Rightarrow> cookie_source \<Rightarrow> cookie \<Rightarrow> (cookie_storage_key \<Rightarrow> cookie option) \<Rightarrow> cookie_storage_key \<Rightarrow> cookie option" where
  "insert_cookie_spec now source c m =
     (case m (storage_key c) of
        None \<Rightarrow> live_cookies now (m(storage_key c \<mapsto> c))
      | Some old \<Rightarrow>
          if host_only old \<noteq> host_only c then live_cookies now (m(storage_key c \<mapsto> c))
          else if source = NonHttp \<and> http_only old then m
          else live_cookies now (m(storage_key c \<mapsto> c\<lparr>creation_time := creation_time old\<rparr>)))"

lemma storage_key_creation [simp]:
  "storage_key (c\<lparr>creation_time := t\<rparr>) = storage_key c" "storage_key (c\<lparr>last_access_time := t\<rparr>) = storage_key c"
  by (simp_all add: storage_key_def)

lemma insert_stored_cookie_refines:
  assumes w: "world_ok w" and j: "jar_ok j" and c: "cookie_times_ok c"
  shows "jar_ok (insert_stored_cookie w source c j) \<and>
    stored (insert_stored_cookie w source c j) = insert_cookie_spec (clock w) source c (stored j)"
proof (cases "stored j (storage_key c)")
  case None
  then show ?thesis
    using transient_set_ok [OF w j c] w
    by (simp add: insert_stored_cookie_def transient_get_cookie_def insert_cookie_spec_def remove_expired_ok stored_remove_expired)
next
  case (Some old)
  then have "duration_ok (creation_time old)"
    using j by (auto simp: jar_ok_def cookies_ok_def cookie_times_ok_def)
  then have c': "cookie_times_ok (c\<lparr>creation_time := creation_time old\<rparr>)"
    using c by (simp add: cookie_times_ok_def)
  show ?thesis
    using Some transient_set_ok [OF w j c] transient_set_ok [OF w j c'] w j
    by (simp add: insert_stored_cookie_def transient_get_cookie_def insert_cookie_spec_def remove_expired_ok stored_remove_expired)
qed


text \<open>What the parser guarantees of the times of a parsed cookie.\<close>

definition parsed_times_ok :: "parsed_cookie \<Rightarrow> bool" where
  "parsed_times_ok p \<longleftrightarrow>
     pred_option duration_ok (expiry_time_from_max_age_attribute p) \<and> pred_option duration_ok (expiry_time_from_expires_attribute p)"

lemma year_3000: "from_unix_time_parts 3000 1 1 0 0 0 0 = Some (Duration 32503680000 0)"
  by code_simp

lemma stored_expiry_ok: "parsed_times_ok p \<Longrightarrow> \<exists>b e. stored_expiry p = Success (b, e) \<and> duration_ok e"
  by (auto simp: stored_expiry_def parsed_times_ok_def year_3000 [unfolded One_nat_def] is_within_range_def split: option.splits)

lemma stored_domain_Some:
  "stored_domain w p d = Some (dm, h) \<Longrightarrow> (if h then dm = d else domain_matches d dm \<and> parsed_domain p = Some dm)"
  by (auto simp: stored_domain_def Let_def split: if_splits option.splits)

text \<open>The rules of the storage model that a stored cookie obeys.\<close>

definition cookie_rules_ok :: "cookie \<Rightarrow> bool" where
  "cookie_rules_ok c \<longleftrightarrow>
     (cookie_name c \<noteq> [] \<or> cookie_value c \<noteq> []) \<and> length (cookie_name c) + length (cookie_value c) \<le> 4096 \<and>
     (same_site_of c = SameSite_None \<longrightarrow> secure c) \<and>
     (has_case_insensitive_prefix (cookie_name c) ''__Secure-'' \<longrightarrow> secure c) \<and>
     (has_case_insensitive_prefix (cookie_name c) ''__Host-'' \<longrightarrow> secure c \<and> host_only c) \<and>
     (cookie_name c = [] \<longrightarrow> \<not> has_case_insensitive_prefix (cookie_value c) ''__Secure-'' \<and>
        \<not> has_case_insensitive_prefix (cookie_value c) ''__Host-'')"

lemma new_cookie_Some:
  assumes w: "world_ok w" and p: "parsed_times_ok p" and n: "new_cookie w p u d = Success (Some c)"
  shows "cookie_times_ok c" "cookie_name c = parsed_name p" "cookie_value c = parsed_value p"
    "cookie_name c \<noteq> [] \<or> cookie_value c \<noteq> []" "length (cookie_name c) + length (cookie_value c) \<le> 4096"
    "domain_applies d c" "stored_path w u p = Success (cookie_path c)"
    "secure c = secure_attribute_present p" "http_only c = http_only_attribute_present p"
    "\<exists>b. stored_expiry p = Success (b, expiry_time c)"
proof -
  obtain b e where e: "stored_expiry p = Success (b, e)" "duration_ok e"
    using stored_expiry_ok [OF p] by blast
  obtain dm h path where dm: "stored_domain w p d = Some (dm, h)" "stored_path w u p = Success path"
    and c: "c = \<lparr>cookie_name = parsed_name p, cookie_value = parsed_value p,
                 same_site_of = same_site_attribute p, creation_time = clock w, last_access_time = clock w,
                 expiry_time = e, cookie_domain = dm, cookie_path = path,
                 secure = secure_attribute_present p, http_only = http_only_attribute_present p,
                 host_only = h, persistent = b\<rparr>"
    and l: "parsed_name p \<noteq> [] \<or> parsed_value p \<noteq> []" "length (parsed_name p) + length (parsed_value p) \<le> 4096"
    using n e by (auto simp: new_cookie_def outcome_bind_Success split: if_splits option.splits)
  show "cookie_times_ok c" "cookie_name c = parsed_name p" "cookie_value c = parsed_value p"
    "cookie_name c \<noteq> [] \<or> cookie_value c \<noteq> []" "length (cookie_name c) + length (cookie_value c) \<le> 4096"
    "stored_path w u p = Success (cookie_path c)"
    "secure c = secure_attribute_present p" "http_only c = http_only_attribute_present p"
    "\<exists>b. stored_expiry p = Success (b, expiry_time c)"
    using w e dm(2) l by (simp_all add: c cookie_times_ok_def world_ok_def)
  show "domain_applies d c"
    using stored_domain_Some [OF dm(1)] by (simp add: c domain_applies_def split: if_splits)
qed

lemma accepted_cookie_rules:
  assumes "world_ok w" "parsed_times_ok p" "new_cookie w p u d = Success (Some c)" "\<not> ignores_cookie p u source j c"
  shows "cookie_rules_ok c"
  using new_cookie_Some(4,5) [OF assms(1-3)] assms(4) unfolding cookie_rules_ok_def ignores_cookie_def by blast

text \<open>Storing on the abstract store.\<close>

lemma set_cookie_cases:
  assumes w: "world_ok w" and p: "parsed_times_ok p" and j: "jar_ok j" and s: "set_cookie w u p source j = Success j'"
  obtains (ignored) "j' = j"
    | (inserted) d c where "canonicalize_domain w u = Some d" "new_cookie w p u d = Success (Some c)"
      "\<not> ignores_cookie p u source j c" "cookie_times_ok c" "cookie_rules_ok c" "j' = insert_stored_cookie w source c j"
proof (cases "canonicalize_domain w u")
  case None
  then show ?thesis
    using s ignored by (simp add: set_cookie_def)
next
  case (Some d)
  then obtain new where new: "new_cookie w p u d = Success new"
      "(case new of None \<Rightarrow> Success j | Some c \<Rightarrow> if ignores_cookie p u source j c then Success j
         else Success (insert_stored_cookie w source c j)) = Success j'"
    using s by (auto simp: set_cookie_def store_cookie_def outcome_bind_Success)
  show ?thesis
  proof (cases new)
    case None
    then show ?thesis
      using new ignored by simp
  next
    case (Some c)
    show ?thesis
    proof (cases "ignores_cookie p u source j c")
      case True
      then show ?thesis
        using new Some ignored by simp
    next
      case False
      then show ?thesis
        using new Some \<open>canonicalize_domain w u = Some d\<close> new_cookie_Some(1) [OF w p] accepted_cookie_rules [OF w p]
        by (intro inserted [of d c]) auto
    qed
  qed
qed


subsection \<open>The order of the cookie list\<close>

definition cookie_le :: "cookie \<Rightarrow> cookie \<Rightarrow> bool" where
  "cookie_le a b \<longleftrightarrow> length (cookie_path a) > length (cookie_path b) \<or>
     length (cookie_path a) = length (cookie_path b) \<and> nanoseconds_of (creation_time a) \<le> nanoseconds_of (creation_time b)"

lemma cookie_le_trans: "cookie_le a b \<Longrightarrow> cookie_le b c \<Longrightarrow> cookie_le a c"
  by (auto simp: cookie_le_def)

lemma listed_before_le:
  assumes "cookie_times_ok a" "cookie_times_ok b"
  shows "listed_before a b \<longleftrightarrow> \<not> cookie_le b a"
  using assms by (auto simp: listed_before_def cookie_le_def cookie_times_ok_def duration_compare_sgn sgn_if)

lemma cookie_le_total: "\<not> cookie_le a b \<Longrightarrow> cookie_le b a"
  by (auto simp: cookie_le_def)

lemma mset_insert_before_matching [simp]: "mset (insert_before_matching x P ys) = add_mset x (mset ys)"
  by (induction ys) auto

lemma set_insert_before_matching [simp]: "set (insert_before_matching x P ys) = insert x (set ys)"
  by (induction ys) auto

lemma sorted_insert_before_matching:
  assumes "sorted_wrt cookie_le ys" "\<forall>y\<in>set ys. cookie_times_ok y" "cookie_times_ok c"
  shows "sorted_wrt cookie_le (insert_before_matching c (listed_before c) ys)"
  using assms
proof (induction ys)
  case (Cons y ys)
  show ?case
  proof (cases "listed_before c y")
    case True
    then have "cookie_le c y"
      using Cons.prems cookie_le_total by (auto simp: listed_before_le)
    then show ?thesis
      using True Cons.prems cookie_le_trans by auto
  next
    case False
    then have "cookie_le y c"
      using Cons.prems by (auto simp: listed_before_le)
    then show ?thesis
      using False Cons by auto
  qed
qed simp

lemma sorted_cookie_list:
  assumes "\<forall>c\<in>set cs. cookie_times_ok c" "\<forall>c\<in>set acc. cookie_times_ok c" "sorted_wrt cookie_le acc"
  shows "sorted_wrt cookie_le (fold (\<lambda>c. insert_before_matching c (listed_before c)) cs acc) \<and>
    mset (fold (\<lambda>c. insert_before_matching c (listed_before c)) cs acc) = mset cs + mset acc"
  using assms by (induction cs arbitrary: acc) (simp_all add: sorted_insert_before_matching)

subsection \<open>The cookie string\<close>

definition cookie_text :: "cookie \<Rightarrow> bytes" where
  "cookie_text c = (if cookie_name c \<noteq> [] then cookie_name c @ ''='' else []) @ cookie_value c"

lemma append_cookie_text: "append_cookie c b = (if b \<noteq> [] then b @ ''; '' else []) @ cookie_text c"
  by (simp add: append_cookie_def cookie_text_def Let_def)

lemma fold_append_cookie_nonempty:
  "b \<noteq> [] \<Longrightarrow> fold append_cookie cs b = b @ concat (map (\<lambda>c. ''; '' @ cookie_text c) cs)"
  by (induction cs arbitrary: b) (simp_all add: append_cookie_text)

lemma join_with_concat: "join_with sep (x # xs) = x @ concat (map (\<lambda>y. sep @ y) xs)"
  by (induction xs arbitrary: x) (simp_all add: join_with_Cons)

lemma fold_append_cookie:
  assumes "\<forall>c\<in>set cs. cookie_text c \<noteq> []"
  shows "fold append_cookie cs [] = join_with ''; '' (map cookie_text cs)"
proof (cases cs)
  case (Cons c cs')
  then show ?thesis
    using assms fold_append_cookie_nonempty [of "cookie_text c" cs'] join_with_concat [of "''; ''" "cookie_text c" "map cookie_text cs'"]
    by (simp add: append_cookie_text comp_def)
qed simp

lemma cookie_text_nonempty: "cookie_rules_ok c \<Longrightarrow> cookie_text c \<noteq> []"
  by (auto simp: cookie_rules_ok_def cookie_text_def)

subsection \<open>Retrieval\<close>

definition touch_cookies :: "unix_date_time \<Rightarrow> (cookie \<Rightarrow> bool) \<Rightarrow> cookies \<Rightarrow> cookies" where
  "touch_cookies now P t = map (\<lambda>(k, c). (k, if P c then c\<lparr>last_access_time := now\<rparr> else c)) t"

lemma table_get_touch: "table_get (touch_cookies now P t) k = map_option (\<lambda>c. if P c then c\<lparr>last_access_time := now\<rparr> else c) (table_get t k)"
  by (simp add: table_get_def touch_cookies_def map_of_map)

lemma touch_cookies_ok: "duration_ok now \<Longrightarrow> cookies_ok t \<Longrightarrow> cookies_ok (touch_cookies now P t)"
  by (auto simp: cookies_ok_def table_get_touch cookie_times_ok_def)
    (auto simp: table_ok_def touch_cookies_def comp_def case_prod_beta)

lemma matches_touch [simp]:
  "cookie_matches u r d s (c\<lparr>last_access_time := t\<rparr>) = cookie_matches u r d s c"
  "is_expired now (c\<lparr>last_access_time := t\<rparr>) = is_expired now c"
  by (simp_all add: cookie_matches_def domain_applies_def is_expired_def)

lemma filter_touch:
  "filter (cookie_matches u r d s) (map snd (touch_cookies now (cookie_matches u r d s) t)) =
     map (\<lambda>c. c\<lparr>last_access_time := now\<rparr>) (filter (cookie_matches u r d s) (map snd t))"
  by (induction t) (auto simp: touch_cookies_def)

lemma cookies_set: "cookies_ok t \<Longrightarrow> c \<in> set (map snd t) \<longleftrightarrow> table_get t (storage_key c) = Some c"
  by (force simp: cookies_ok_def table_get_set_mem)

lemma cookies_distinct: "cookies_ok t \<Longrightarrow> distinct (map storage_key (map snd t))"
proof -
  assume t: "cookies_ok t"
  then have "map (storage_key \<circ> snd) t = map fst t"
    by (intro map_cong) (auto simp: cookies_ok_def table_get_set_mem)
  then show ?thesis
    using t by (simp only: map_map cookies_ok_def table_ok_def)
qed


text \<open>The list of cookies for a request, and the jar it leaves.\<close>

lemma get_matching_cookies_value:
  fixes d :: bytes and source :: cookie_source
  assumes w: "world_ok w" and j: "jar_ok j" and r: "serialize_path u = Some r"
  defines "P \<equiv> cookie_matches u r d source"
  shows "\<exists>cs j'. get_matching_cookies w u d source RFC6265 j = Success (cs, j') \<and>
    sorted_wrt cookie_le cs \<and>
    mset cs = mset (map (\<lambda>c. c\<lparr>last_access_time := clock w\<rparr>) (filter P (map snd (m_cookies j)))) \<and>
    jar_ok j' \<and> m_dirty_cookies j' = m_dirty_cookies j \<and>
    stored j' = live_cookies (clock w) (\<lambda>k. map_option (\<lambda>c. if P c then c\<lparr>last_access_time := clock w\<rparr> else c) (stored j k))"
proof -
  let ?t = "touch_cookies (clock w) P (m_cookies j)"
  let ?l = "map (\<lambda>c. c\<lparr>last_access_time := clock w\<rparr>) (filter P (map snd (m_cookies j)))"
  have now: "duration_ok (clock w)"
    using w by (simp add: world_ok_def)
  have t: "cookies_ok ?t"
    using now j by (simp add: touch_cookies_ok jar_ok_def)
  have ok: "cookie_times_ok c" if "c \<in> set ?l" for c
    using that now j by (auto simp: jar_ok_def cookies_ok_def table_get_set_mem cookie_times_ok_def)
  define cs where "cs = fold (\<lambda>c. insert_before_matching c (listed_before c)) ?l []"
  have cs: "sorted_wrt cookie_le cs" "mset cs = mset ?l"
    using sorted_cookie_list [of ?l "[]"] ok by (simp_all add: cs_def)
  have j2: "jar_ok (j\<lparr>m_cookies := ?t\<rparr>)"
    using t j by (simp add: jar_ok_def)
  have "get_matching_cookies w u d source RFC6265 j = Success (cs, purge w (j\<lparr>m_cookies := ?t\<rparr>))"
    using r filter_touch [of u r d source "clock w" "m_cookies j"]
    by (simp add: get_matching_cookies_def Let_def cs_def P_def touch_cookies_def)
  then show ?thesis
    using cs remove_expired_ok [OF w j2] stored_remove_expired [OF w j2] by (simp add: table_get_touch [abs_def])
qed

lemma get_cookie_value:
  fixes source :: cookie_source
  assumes w: "world_ok w" and j: "jar_ok j" and rules: "\<forall>k c. stored j k = Some c \<longrightarrow> cookie_rules_ok c"
    and d: "canonicalize_domain w u = Some d" and r: "serialize_path u = Some r"
  defines "sent \<equiv> {c. \<exists>k. live_cookies (clock w) (stored j) k = Some c \<and> cookie_matches u r d source c}"
  shows "\<exists>cs j'. get_cookie w u source j =
      (let text = join_with ''; '' (map cookie_text cs) in if validate_utf8 w text then Success (text, j') else Crash) \<and>
    set cs = (\<lambda>c. c\<lparr>last_access_time := clock w\<rparr>) ` sent \<and> distinct (map storage_key cs) \<and> sorted_wrt cookie_le cs \<and>
    jar_ok j' \<and>
    stored j' = (\<lambda>k. map_option (\<lambda>c. if c \<in> sent then c\<lparr>last_access_time := clock w\<rparr> else c) (live_cookies (clock w) (stored j) k))"
proof -
  let ?now = "clock w" and ?P = "cookie_matches u r d source" and ?j = "purge w j"
  let ?l = "filter ?P (map snd (m_cookies ?j))"
  have jo: "jar_ok ?j" and live: "stored ?j = live_cookies ?now (stored j)"
    using remove_expired_ok [OF w j] stored_remove_expired [OF w j] by simp_all
  obtain cs j' where m: "get_matching_cookies w u d source RFC6265 ?j = Success (cs, j')" "sorted_wrt cookie_le cs"
      "mset cs = mset (map (\<lambda>c. c\<lparr>last_access_time := ?now\<rparr>) ?l)" "jar_ok j'"
      "stored j' = live_cookies ?now (\<lambda>k. map_option (\<lambda>c. if ?P c then c\<lparr>last_access_time := ?now\<rparr> else c) (stored ?j k))"
    using get_matching_cookies_value [OF w jo r, of d source] by blast
  have ok: "cookies_ok (m_cookies ?j)"
    using jo by (simp add: jar_ok_def)
  have key: "k = storage_key c" if "live_cookies ?now (stored j) k = Some c" for k c
    using that ok by (auto simp: cookies_ok_def live [symmetric])
  have sent: "set ?l = sent"
    using key by (auto simp: sent_def cookies_set [OF ok] live simp del: set_map)
  have set_cs: "set cs = (\<lambda>c. c\<lparr>last_access_time := ?now\<rparr>) ` sent"
    using mset_eq_setD [OF m(3)] sent by (simp del: set_filter)
  have "distinct (map storage_key ?l)"
    using cookies_distinct [OF ok] by (rule distinct_map_filter)
  moreover have "mset (map storage_key cs) = mset (map storage_key ?l)"
    using arg_cong [OF m(3), of "image_mset storage_key"] by (simp add: multiset.map_comp comp_def del: mset_filter)
  ultimately have dist: "distinct (map storage_key cs)"
    using mset_eq_imp_distinct_iff by blast
  have "cookie_text c \<noteq> []" if "c \<in> set cs" for c
    using that rules unfolding set_cs sent_def
    by (auto simp: live_cookies_Some cookie_text_def cookie_rules_ok_def)
  then have tx: "fold append_cookie cs [] = join_with ''; '' (map cookie_text cs)"
    by (intro fold_append_cookie) blast
  have g: "get_cookie w u source j =
      (let text = join_with ''; '' (map cookie_text cs) in if validate_utf8 w text then Success (text, j') else Crash)"
    using d m(1) tx by (simp add: get_cookie_def Let_def from_utf8_def)
  have "stored j' k = map_option (\<lambda>c. if c \<in> sent then c\<lparr>last_access_time := ?now\<rparr> else c) (live_cookies ?now (stored j) k)" for k
  proof (cases "live_cookies ?now (stored j) k")
    case (Some c)
    then have "?P c \<longleftrightarrow> c \<in> sent" "\<not> is_expired ?now c"
      by (auto simp: sent_def live_cookies_Some)
    then show ?thesis
      using Some by (simp add: m(5) live live_cookies_def)
  qed (simp add: m(5) live live_cookies_def)
  then have "stored j' = (\<lambda>k. map_option (\<lambda>c. if c \<in> sent then c\<lparr>last_access_time := ?now\<rparr> else c) (live_cookies ?now (stored j) k))"
    by (rule ext)
  then show ?thesis
    using g set_cs dist m(2,4) by blast
qed


subsection \<open>Reachable jars\<close>

lemma shift_expiry_times_ok:
  assumes "duration_ok offset" "cookies_ok t"
  shows "\<exists>t'. shift_expiry_times offset t = Some t' \<and> cookies_ok t'"
proof -
  have "\<exists>t'. shift_expiry_times offset t = Some t' \<and> map fst t' = map fst t \<and> list_all (\<lambda>(k, c). k = storage_key c \<and> cookie_times_ok c) t'"
    if "list_all (\<lambda>(k, c). k = storage_key c \<and> cookie_times_ok c) t"
    using that
  proof (induction t)
    case (Cons x t)
    obtain k c where x: "x = (k, c)" "k = storage_key c" "cookie_times_ok c"
      using Cons.prems by (cases x) auto
    obtain e where "duration_sub (expiry_time c) offset = Some e" "duration_ok e"
      using duration_sub_saturates [of "expiry_time c" offset] x(3) assms(1) by (auto simp: cookie_times_ok_def)
    then show ?case
      using Cons x by (auto simp: cookie_times_ok_def storage_key_def)
  qed simp
  moreover have "list_all (\<lambda>(k, c). k = storage_key c \<and> cookie_times_ok c) t"
    using assms(2) by (auto simp: list_all_iff cookies_ok_def table_get_set_mem)
  ultimately obtain t' where t': "shift_expiry_times offset t = Some t'" "map fst t' = map fst t"
      "list_all (\<lambda>(k, c). k = storage_key c \<and> cookie_times_ok c) t'"
    by blast
  then have "table_ok t'"
    using assms(2) by (simp add: cookies_ok_def table_ok_def)
  then have "cookies_ok t'"
    using t'(3) by (auto simp: cookies_ok_def table_get_set_mem list_all_iff)
  then show ?thesis
    using t'(1) by blast
qed

lemma expire_with_offset_ok:
  assumes w: "world_ok w" and j: "jar_ok j" and d: "duration_ok offset"
  shows "\<exists>j' now. expire_cookies_with_time_offset w offset j = Some j' \<and> jar_ok j' \<and> duration_ok now \<and>
    nanoseconds_of now = saturate (nanoseconds_of (clock w) + nanoseconds_of offset) \<and>
    stored j' = live_cookies now (stored j)"
proof -
  obtain now where now: "duration_add (clock w) offset = Some now" "duration_ok now"
      "nanoseconds_of now = saturate (nanoseconds_of (clock w) + nanoseconds_of offset)"
    using duration_add_saturates [of "clock w" offset] w d by (auto simp: world_ok_def)
  obtain t where t: "shift_expiry_times offset (m_dirty_cookies j) = Some t" "cookies_ok t"
    using shift_expiry_times_ok [OF d] j by (auto simp: jar_ok_def)
  then have "jar_ok (j\<lparr>m_dirty_cookies := t\<rparr>)"
    using j by (simp add: jar_ok_def)
  then show ?thesis
    using now t(1) remove_expired_ok [OF w] stored_remove_expired [OF w]
    by (intro exI [of _ "remove_expired w now (j\<lparr>m_dirty_cookies := t\<rparr>)"] exI [of _ now])
      (simp add: expire_cookies_with_time_offset_def purge_expired_cookies_def)
qed

lemma update_cookie_ok:
  assumes w: "world_ok w" and j: "jar_ok j" and c: "cookie_times_ok c"
  shows "jar_ok (update_cookie w c j)"
proof (cases "stored j (storage_key c)")
  case None
  then show ?thesis
    using transient_set_ok(1) [OF w j c] w by (simp add: update_cookie_def transient_get_cookie_def remove_expired_ok)
next
  case (Some old)
  then have "cookie_times_ok (c\<lparr>creation_time := creation_time old\<rparr>)"
    using j c by (auto simp: jar_ok_def cookies_ok_def cookie_times_ok_def)
  then show ?thesis
    using Some transient_set_ok(1) [OF w j] c w by (simp add: update_cookie_def transient_get_cookie_def remove_expired_ok Let_def)
qed

text \<open>
  The jars a browser can have.  The first argument tells whether developer tools have updated cookies,
  which bypasses the storage rules.
\<close>

inductive jar_reachable :: "bool \<Rightarrow> cookie_jar \<Rightarrow> bool" where
  start: "jar_reachable tools empty_jar"
| set: "jar_reachable tools j \<Longrightarrow> world_ok w \<Longrightarrow> parsed_times_ok p \<Longrightarrow> set_cookie w u p source j = Success j' \<Longrightarrow> jar_reachable tools j'"
| get: "jar_reachable tools j \<Longrightarrow> world_ok w \<Longrightarrow> get_cookie w u source j = Success (str, j') \<Longrightarrow> jar_reachable tools j'"
| expire: "jar_reachable tools j \<Longrightarrow> world_ok w \<Longrightarrow> duration_ok offset \<Longrightarrow>
    expire_cookies_with_time_offset w offset j = Some j' \<Longrightarrow> jar_reachable tools j'"
| purge: "jar_reachable tools j \<Longrightarrow> world_ok w \<Longrightarrow> jar_reachable tools (purge w j)"
| update: "jar_reachable True j \<Longrightarrow> world_ok w \<Longrightarrow> cookie_times_ok c \<Longrightarrow> jar_reachable True (update_cookie w c j)"

definition stored_rules_ok :: "cookie_jar \<Rightarrow> bool" where
  "stored_rules_ok j \<longleftrightarrow> (\<forall>k c. stored j k = Some c \<longrightarrow> cookie_rules_ok c)"

lemma rules_creation [simp]:
  "cookie_rules_ok (c\<lparr>creation_time := t\<rparr>) = cookie_rules_ok c" "cookie_rules_ok (c\<lparr>last_access_time := t\<rparr>) = cookie_rules_ok c"
  by (simp_all add: cookie_rules_ok_def)

lemma stored_rules_live: "world_ok w \<Longrightarrow> jar_ok j \<Longrightarrow> stored_rules_ok j \<Longrightarrow> stored_rules_ok (remove_expired w now j)"
  by (auto simp: stored_rules_ok_def stored_remove_expired live_cookies_Some)

lemma insert_rules_ok:
  assumes "world_ok w" "jar_ok j" "cookie_times_ok c" "cookie_rules_ok c" "stored_rules_ok j"
  shows "stored_rules_ok (insert_stored_cookie w source c j)"
  using assms insert_stored_cookie_refines [OF assms(1-3), of source]
  by (auto simp: stored_rules_ok_def insert_cookie_spec_def live_cookies_Some split: option.splits if_splits)


lemma get_cookie_keeps:
  assumes w: "world_ok w" and j: "jar_ok j" and g: "get_cookie w u source j = Success (str, j')"
  shows "jar_ok j' \<and> (\<forall>k c'. stored j' k = Some c' \<longrightarrow> (\<exists>c t. stored j k = Some c \<and> (c' = c \<or> c' = c\<lparr>last_access_time := t\<rparr>)))"
proof -
  let ?j = "purge w j"
  have jo: "jar_ok ?j" and live: "stored ?j = live_cookies (clock w) (stored j)"
    using remove_expired_ok [OF w j] stored_remove_expired [OF w j] by simp_all
  consider "j' = ?j" | (matched) d cs where "get_matching_cookies w u d source RFC6265 ?j = Success (cs, j')"
    using g by (auto simp: get_cookie_def Let_def outcome_bind_Success split: option.splits)
  then show ?thesis
  proof cases
    case 1
    then show ?thesis
      using jo live by (auto simp: live_cookies_Some)
  next
    case matched
    show ?thesis
    proof (cases "serialize_path u")
      case None
      then have "j' = purge w ?j"
        using matched by (simp add: get_matching_cookies_def split: if_splits)
      then show ?thesis
        using remove_expired_ok [OF w jo] stored_remove_expired [OF w jo] live by (auto simp: live_cookies_Some)
    next
      case (Some r)
      then show ?thesis
        using get_matching_cookies_value [OF w jo Some, of d source] matched live
        by (auto simp: live_cookies_Some split: if_splits; blast)
    qed
  qed
qed

lemma reachable_jar:
  "jar_reachable tools j \<Longrightarrow> jar_ok j \<and> (\<not> tools \<longrightarrow> stored_rules_ok j)"
proof (induction rule: jar_reachable.induct)
  case (start tools)
  then show ?case
    by (simp add: empty_jar_def jar_ok_def cookies_ok_def table_ok_def table_get_def stored_rules_ok_def)
next
  case (set tools j w p u source j')
  show ?case
    by (rule set_cookie_cases [OF set.hyps(2,3) conjunct1 [OF set.IH] set.hyps(4)])
      (use set.IH insert_rules_ok [OF set.hyps(2)] insert_stored_cookie_refines [OF set.hyps(2)] in auto)
next
  case (get tools j w u source str j')
  then show ?case
    using get_cookie_keeps [of w j u source str j'] by (fastforce simp: stored_rules_ok_def)
next
  case (expire tools j w offset j')
  then show ?case
    using expire_with_offset_ok [of w j offset] by (auto simp: stored_rules_ok_def live_cookies_Some)
next
  case (purge tools j w)
  then show ?case
    by (simp add: remove_expired_ok stored_rules_live)
next
  case (update j w c)
  then show ?case
    by (simp add: update_cookie_ok)
qed


subsection \<open>Properties\<close>

text \<open>A world for concrete runs: a clock, ASCII lower case, no public suffixes, tables in insertion order.\<close>

definition plain_world :: "unix_date_time \<Rightarrow> world" where
  "plain_world now = \<lparr>clock = now, validate_utf8 = (\<lambda>_. True), unicode_lowercase = to_lowercase_string,
     public_suffix = (\<lambda>_. False), hash_order = (\<lambda>t. t)\<rparr>"

lemma plain_world_ok: "duration_ok now \<Longrightarrow> world_ok (plain_world now)"
  by (simp add: world_ok_def plain_world_def order_ok_def)

abbreviation page_url :: "bytes list \<Rightarrow> url" where
  "page_url segments \<equiv> empty_url\<lparr>url_valid := True, url_scheme := ''https'', url_host := Host_String ''example.com'', url_paths := segments\<rparr>"





end
