(* ===== verification/CookieRequests.thy ===== *)
theory CookieRequests
  imports CookieJar
begin

text \<open>
  Requests against the cookie jar: which cookies a URL is sent and in which order, that a stored cookie comes
  back until it expires, and runs of the storage algorithm that do not do what its comments say.
\<close>

subsection \<open>Responses and documents\<close>

text \<open>
  The messages between the content process and the jar are calls here; a parse error of a cookie is not an
  error of the caller.
\<close>

definition store_response_cookies :: "world \<Rightarrow> url \<Rightarrow> bytes \<Rightarrow> cookie_jar \<Rightarrow> cookie_jar outcome" where
  "store_response_cookies w u set_cookie_entry j =
     (case parse_cookie (clock w) (validate_utf8 w) u set_cookie_entry of
        Crash \<Rightarrow> Crash
      | Failure \<Rightarrow> Success j
      | Success p \<Rightarrow> set_cookie w u p Http j)"

fun store_header_cookies :: "world \<Rightarrow> url \<Rightarrow> (bytes \<times> bytes) list \<Rightarrow> cookie_jar \<Rightarrow> cookie_jar outcome" where
  "store_header_cookies w u [] j = Success j"
| "store_header_cookies w u ((header, val) # headers) j =
     outcome_bind (if equals_ignoring_ascii_case header ''Set-Cookie'' then store_response_cookies w u val j else Success j)
       (store_header_cookies w u headers)"

record document =
  document_url :: url
  document_origin :: origin
  has_browsing_context :: bool
  m_enable_cookies_on_file_domains :: bool

definition is_cookie_averse :: "document \<Rightarrow> bool" where
  "is_cookie_averse d =
     (if \<not> has_browsing_context d then True
      else if url_scheme (document_url d) \<notin> {''http'', ''https''} then
        \<not> m_enable_cookies_on_file_domains d \<or> url_scheme (document_url d) \<noteq> ''file''
      else False)"

text \<open>\<open>Failure\<close> is the \<^verbatim>\<open>SecurityError\<close> that is thrown.\<close>

definition document_cookie :: "world \<Rightarrow> document \<Rightarrow> cookie_source \<Rightarrow> cookie_jar \<Rightarrow> (bytes \<times> cookie_jar) outcome" where
  "document_cookie w d source j =
     (if is_cookie_averse d then Success ([], j)
      else if is_opaque_origin (document_origin d) then Failure
      else get_cookie w (document_url d) source j)"

definition document_set_cookie :: "world \<Rightarrow> document \<Rightarrow> bytes \<Rightarrow> cookie_source \<Rightarrow> cookie_jar \<Rightarrow> cookie_jar outcome" where
  "document_set_cookie w d cookie_string source j =
     (if is_cookie_averse d then Success j
      else if is_opaque_origin (document_origin d) then Failure
      else case parse_cookie (clock w) (validate_utf8 w) (document_url d) cookie_string of
             Crash \<Rightarrow> Crash
           | Failure \<Rightarrow> Success j
           | Success p \<Rightarrow> set_cookie w (document_url d) p source j)"

subsection \<open>Paths\<close>

lemma path_matches_iff:
  "path_matches r p \<longleftrightarrow> r = p \<or> prefix p r \<and> (suffix ''/'' p \<or> prefix (p @ ''/'') r)"
proof -
  have n: "r ! length p = CHR ''/'' \<longleftrightarrow> prefix (p @ ''/'') r" if pr: "prefix p r" "r \<noteq> p"
  proof -
    obtain zs where zs: "r = p @ zs" "zs \<noteq> []"
      using pr by (auto elim: prefixE)
    then show ?thesis
      by (cases zs) (auto simp: nth_append)
  qed
  show ?thesis
    by (cases "r = p"; cases "prefix p r") (simp_all add: path_matches_def starts_with_prefix ends_with_suffix n)
qed

subsection \<open>The cookie that has been set\<close>

lemma matches_creation [simp]:
  "cookie_matches u r d s (c\<lparr>creation_time := t\<rparr>) = cookie_matches u r d s c"
  "is_expired now (c\<lparr>creation_time := t\<rparr>) = is_expired now c"
  by (simp_all add: cookie_matches_def domain_applies_def is_expired_def)

lemma insert_spec_http:
  "\<exists>t. insert_cookie_spec now Http c m = live_cookies now (m(storage_key c \<mapsto> c\<lparr>creation_time := t\<rparr>))"
proof (cases "\<exists>old. m (storage_key c) = Some old \<and> host_only old = host_only c")
  case True
  then show ?thesis
    by (auto simp: insert_cookie_spec_def)
next
  case False
  have "c\<lparr>creation_time := creation_time c\<rparr> = c"
    by simp
  then show ?thesis
    using False by (intro exI [of _ "creation_time c"]) (auto simp: insert_cookie_spec_def split: option.splits)
qed

lemma set_cookie_accepts:
  assumes "canonicalize_domain w u = Some d" "new_cookie w p u d = Success (Some c)" "\<not> ignores_cookie p u source j c"
  shows "set_cookie w u p source j = Success (insert_stored_cookie w source c j)"
  using assms by (simp add: set_cookie_def store_cookie_def)

subsection \<open>Parsed cookies\<close>

lemma parsed_times:
  assumes "world_ok w" "parse_cookie (clock w) (validate_utf8 w) u s = Success p"
  shows "parsed_times_ok p"
proof -
  have "duration_ok (clock w)"
    using assms(1) by (simp add: world_ok_def)
  then have "parsed_attributes_ok (clock w) (validate_utf8 w) u p"
    using parse_cookie_attributes assms(2) by blast
  then show ?thesis
    unfolding parsed_times_ok_def parsed_attributes_ok_def option.pred_set age_limited_def by blast
qed

lemma document_set_cookie_cases:
  assumes "document_set_cookie w d str source j = Success j'"
  shows "j' = j \<or> (\<exists>p. parse_cookie (clock w) (validate_utf8 w) (document_url d) str = Success p \<and>
    set_cookie w (document_url d) p source j = Success j')"
proof (cases "is_cookie_averse d \<or> is_opaque_origin (document_origin d)")
  case True
  then show ?thesis
    using assms by (simp add: document_set_cookie_def split: if_splits)
next
  case False
  then show ?thesis
    using assms by (cases "parse_cookie (clock w) (validate_utf8 w) (document_url d) str") (simp_all add: document_set_cookie_def)
qed

lemma response_reachable:
  assumes w: "world_ok w" and j: "jar_reachable tools j" and s: "store_response_cookies w u entry j = Success j'"
  shows "jar_reachable tools j'"
proof (cases "parse_cookie (clock w) (validate_utf8 w) u entry")
  case (Success p)
  then show ?thesis
    using s jar_reachable.set [OF j w parsed_times [OF w Success]] by (simp add: store_response_cookies_def)
qed (use s j in \<open>simp_all add: store_response_cookies_def\<close>)

lemma headers_reachable:
  assumes "world_ok w"
  shows "jar_reachable tools j \<Longrightarrow> store_header_cookies w u headers j = Success j' \<Longrightarrow> jar_reachable tools j'"
proof (induction headers arbitrary: j)
  case (Cons h hs)
  then show ?case
    using response_reachable [OF assms Cons.prems(1)]
    by (cases h) (auto simp: outcome_bind_Success split: if_splits)
qed simp

lemma document_reachable:
  assumes "world_ok w" "jar_reachable tools j" "document_set_cookie w d str source j = Success j'"
  shows "jar_reachable tools j'"
  using document_set_cookie_cases [OF assms(3)] parsed_times [OF assms(1)] jar_reachable.set [OF assms(2,1)] assms(2) by blast

subsection \<open>Properties\<close>

text \<open>
  C7. What a request is sent: the cookie string is made of exactly the stored cookies that are not expired,
  whose domain applies to the host, whose path matches, which are not secure unless the scheme is https, and
  not HttpOnly for a script; each once, ordered by decreasing path length and then by creation time, whatever
  the order of the hash table.  Their access times are updated and nothing else changes but expiry.
\<close>

theorem get_cookie_sends_exactly:
  assumes w: "world_ok w" and j: "jar_reachable False j"
    and d: "canonicalize_domain w u = Some d" and r: "serialize_path u = Some r"
  shows "\<exists>cs j'. get_cookie w u source j =
      (let str = join_with ''; '' (map cookie_text cs) in if validate_utf8 w str then Success (str, j') else Crash) \<and>
    set cs = (\<lambda>c. c\<lparr>last_access_time := clock w\<rparr>) `
      {c. stored j (storage_key c) = Some c \<and> \<not> is_expired (clock w) c \<and>
          (if host_only c then d = cookie_domain c else domain_matches d (cookie_domain c)) \<and>
          (r = cookie_path c \<or> prefix (cookie_path c) r \<and> (suffix ''/'' (cookie_path c) \<or> prefix (cookie_path c @ ''/'') r)) \<and>
          (secure c \<longrightarrow> url_scheme u = ''https'') \<and> (http_only c \<longrightarrow> source = Http)} \<and>
    distinct (map storage_key cs) \<and> sorted_wrt cookie_le cs \<and> jar_ok j' \<and>
    (\<forall>k. map_option (\<lambda>c. c\<lparr>last_access_time := clock w\<rparr>) (stored j' k) =
         map_option (\<lambda>c. c\<lparr>last_access_time := clock w\<rparr>) (live_cookies (clock w) (stored j) k))"
proof -
  let ?now = "clock w"
  define sent where "sent = {c. \<exists>k. live_cookies ?now (stored j) k = Some c \<and> cookie_matches u r d source c}"
  have ok: "jar_ok j" "\<forall>k c. stored j k = Some c \<longrightarrow> cookie_rules_ok c"
    using reachable_jar [OF j] by (auto simp: stored_rules_ok_def)
  obtain cs j' where g: "get_cookie w u source j =
      (let str = join_with ''; '' (map cookie_text cs) in if validate_utf8 w str then Success (str, j') else Crash)"
      "set cs = (\<lambda>c. c\<lparr>last_access_time := ?now\<rparr>) ` sent" "distinct (map storage_key cs)" "sorted_wrt cookie_le cs" "jar_ok j'"
      "stored j' = (\<lambda>k. map_option (\<lambda>c. if c \<in> sent then c\<lparr>last_access_time := ?now\<rparr> else c) (live_cookies ?now (stored j) k))"
    using get_cookie_value [OF w ok d r, of source] unfolding sent_def by blast
  have "k = storage_key c" if "stored j k = Some c" for k c
    using that ok(1) by (auto simp: jar_ok_def cookies_ok_def)
  then have "sent = {c. stored j (storage_key c) = Some c \<and> \<not> is_expired ?now c \<and>
          (if host_only c then d = cookie_domain c else domain_matches d (cookie_domain c)) \<and>
          (r = cookie_path c \<or> prefix (cookie_path c) r \<and> (suffix ''/'' (cookie_path c) \<or> prefix (cookie_path c @ ''/'') r)) \<and>
          (secure c \<longrightarrow> url_scheme u = ''https'') \<and> (http_only c \<longrightarrow> source = Http)}"
    by (auto simp: sent_def live_cookies_Some cookie_matches_def domain_applies_def path_matches_iff)
  moreover have "map_option (\<lambda>c. c\<lparr>last_access_time := ?now\<rparr>) (stored j' k) =
      map_option (\<lambda>c. c\<lparr>last_access_time := ?now\<rparr>) (live_cookies ?now (stored j) k)" for k
    unfolding g(6) by (cases "live_cookies ?now (stored j) k") simp_all
  ultimately show ?thesis
    using g(1-5) by blast
qed



subsection \<open>Concrete runs\<close>

abbreviation now_world :: world where
  "now_world \<equiv> plain_world (Duration 1000 0)"

abbreviation page_document :: "bytes list \<Rightarrow> document" where
  "page_document segments \<equiv> \<lparr>document_url = page_url segments,
     document_origin = \<lparr>m_scheme = Some ''https'', m_host = Host_String ''example.com'', m_port = None\<rparr>,
     has_browsing_context = True, m_enable_cookies_on_file_domains = False\<rparr>"

lemma now_world_ok: "world_ok now_world"
  by (simp add: plain_world_ok is_within_range_def)


theorem get_cookie_sends_exactly_witness:
  "\<exists>j cs j'. jar_reachable False j \<and>
     get_cookie now_world (page_url [''a'', ''b'']) NonHttp j = Success (''y=2'', j') \<and>
     ''y=2'' = join_with ''; '' (map cookie_text cs) \<and> sorted_wrt cookie_le cs"
proof -
  let ?u = "page_url [''a'', ''b'']" and ?h = "[(''set-cookie'', ''x=1; HttpOnly''), (''Set-Cookie'', ''y=2; Path=/'')]"
  have run: "outcome_bind (store_header_cookies now_world ?u ?h empty_jar) (\<lambda>j.
     outcome_bind (get_cookie now_world ?u NonHttp j) (\<lambda>(str, _). Success str)) = Success ''y=2''"
    by code_simp
  then obtain j str j' where s: "store_header_cookies now_world ?u ?h empty_jar = Success j"
      "get_cookie now_world ?u NonHttp j = Success (''y=2'', j')"
    by (auto simp: outcome_bind_Success)
  have j: "jar_reachable False j"
    using headers_reachable [OF now_world_ok jar_reachable.start s(1)] .
  have d: "canonicalize_domain now_world ?u = Some ''example.com''" "serialize_path ?u = Some ''/a/b''"
    by code_simp+
  have "validate_utf8 now_world str" for str
    by (simp add: plain_world_def)
  then show ?thesis
    using get_cookie_sends_exactly [OF now_world_ok j d, of NonHttp] j s(2) unfolding Let_def by auto
qed



end
