(* ===== verification/CookieDatabase.thy ===== *)
theory CookieDatabase
  imports CookieJar
begin

text \<open>
  The persistent side of the cookie jar, \<^verbatim>\<open>LibWebView/CookieJar.cpp\<close> with the conversions of
  \<^verbatim>\<open>LibWebView/Database.cpp\<close>: the rows of the table \<^verbatim>\<open>Cookies\<close>, the synchronization that a timer and the
  destructor run, and loading.  SQLite is a parameter, a \<open>database\<close> with the three statements the jar
  prepares; what they do is the hypothesis \<open>database_ok\<close>.
\<close>

subsection \<open>Rows and statements\<close>

record cookie_row =
  row_name :: bytes
  row_value :: bytes
  row_same_site :: int
  row_creation_time :: int
  row_last_access_time :: int
  row_expiry_time :: int
  row_domain :: bytes
  row_path :: bytes
  row_secure :: int
  row_http_only :: int
  row_host_only :: int
  row_persistent :: int

record 'db database =
  insert_or_replace_row :: "cookie_row \<Rightarrow> 'db \<Rightarrow> 'db"
  delete_rows_before :: "int \<Rightarrow> 'db \<Rightarrow> 'db"
  select_rows :: "'db \<Rightarrow> cookie_row list"

fun same_site_to_underlying :: "same_site \<Rightarrow> int" where
  "same_site_to_underlying SameSite_Default = 0"
| "same_site_to_underlying SameSite_None = 1"
| "same_site_to_underlying SameSite_Strict = 2"
| "same_site_to_underlying SameSite_Lax = 3"

text \<open>The constraint of the column excludes the numbers without an enumerator.\<close>

definition same_site_from_underlying :: "int \<Rightarrow> same_site option" where
  "same_site_from_underlying n =
     (if n = 0 then Some SameSite_Default else if n = 1 then Some SameSite_None
      else if n = 2 then Some SameSite_Strict else if n = 3 then Some SameSite_Lax else None)"

text \<open>Binding and reading: a text is read up to its first NUL byte.\<close>

definition placeholder_time :: "unix_date_time \<Rightarrow> int option" where
  "placeholder_time t = to_milliseconds t"

definition placeholder_bool :: "bool \<Rightarrow> int" where
  "placeholder_bool b = (if b then 1 else 0)"

definition column_text :: "(bytes \<Rightarrow> bool) \<Rightarrow> bytes \<Rightarrow> bytes outcome" where
  "column_text validate str = asserted (from_utf8 validate (takeWhile (\<lambda>b. b \<noteq> CHR 0x00) str))"

definition column_time :: "int \<Rightarrow> unix_date_time outcome" where
  "column_time milliseconds = asserted (from_milliseconds milliseconds)"

definition column_bool :: "int \<Rightarrow> bool" where
  "column_bool n \<longleftrightarrow> n \<noteq> 0"

definition insert_cookie :: "'db database \<Rightarrow> cookie \<Rightarrow> 'db \<Rightarrow> 'db option" where
  "insert_cookie S c db =
     do {
       creation \<leftarrow> placeholder_time (creation_time c);
       last_access \<leftarrow> placeholder_time (last_access_time c);
       expiry \<leftarrow> placeholder_time (expiry_time c);
       Some (insert_or_replace_row S
         \<lparr>row_name = cookie_name c, row_value = cookie_value c, row_same_site = same_site_to_underlying (same_site_of c),
          row_creation_time = creation, row_last_access_time = last_access, row_expiry_time = expiry,
          row_domain = cookie_domain c, row_path = cookie_path c,
          row_secure = placeholder_bool (secure c), row_http_only = placeholder_bool (http_only c),
          row_host_only = placeholder_bool (host_only c), row_persistent = placeholder_bool (persistent c)\<rparr> db)
     }"

definition parse_cookie_row :: "(bytes \<Rightarrow> bool) \<Rightarrow> cookie_row \<Rightarrow> cookie outcome" where
  "parse_cookie_row validate r =
     outcome_bind (column_text validate (row_name r)) (\<lambda>name.
     outcome_bind (column_text validate (row_value r)) (\<lambda>val.
     outcome_bind (asserted (same_site_from_underlying (row_same_site r))) (\<lambda>same_site.
     outcome_bind (column_time (row_creation_time r)) (\<lambda>creation.
     outcome_bind (column_time (row_last_access_time r)) (\<lambda>last_access.
     outcome_bind (column_time (row_expiry_time r)) (\<lambda>expiry.
     outcome_bind (column_text validate (row_domain r)) (\<lambda>domain.
     outcome_bind (column_text validate (row_path r)) (\<lambda>path.
       Success
         \<lparr>cookie_name = name, cookie_value = val, same_site_of = same_site, creation_time = creation,
          last_access_time = last_access, expiry_time = expiry, cookie_domain = domain, cookie_path = path,
          secure = column_bool (row_secure r), http_only = column_bool (row_http_only r),
          host_only = column_bool (row_host_only r), persistent = column_bool (row_persistent r)\<rparr>))))))))"

fun read_rows :: "world \<Rightarrow> cookie_row list \<Rightarrow> cookies \<Rightarrow> cookies outcome" where
  "read_rows w [] cookies = Success cookies"
| "read_rows w (r # rows) cookies =
     outcome_bind (parse_cookie_row (validate_utf8 w) r) (\<lambda>c.
       read_rows w rows (table_set (hash_order w) (storage_key c) c cookies))"

definition select_all_cookies :: "'db database \<Rightarrow> world \<Rightarrow> 'db \<Rightarrow> cookies outcome" where
  "select_all_cookies S w db = read_rows w (select_rows S db) []"

subsection \<open>The jar and its database\<close>

definition open_jar :: "'db database \<Rightarrow> world \<Rightarrow> 'db \<Rightarrow> cookie_jar outcome" where
  "open_jar S w db = outcome_bind (select_all_cookies S w db) (\<lambda>cookies. Success (set_cookies w cookies empty_jar))"

fun insert_cookies :: "'db database \<Rightarrow> cookies \<Rightarrow> 'db \<Rightarrow> 'db option" where
  "insert_cookies S [] db = Some db"
| "insert_cookies S ((_, c) # cookies) db = do { db \<leftarrow> insert_cookie S c db; insert_cookies S cookies db }"

definition take_dirty_cookies :: "cookie_jar \<Rightarrow> cookies \<times> cookie_jar" where
  "take_dirty_cookies j = (m_dirty_cookies j, j\<lparr>m_dirty_cookies := []\<rparr>)"

text \<open>The callback of the timer, which the destructor calls as well.\<close>

definition synchronize :: "'db database \<Rightarrow> world \<Rightarrow> cookie_jar \<Rightarrow> 'db \<Rightarrow> (cookie_jar \<times> 'db) option" where
  "synchronize S w j db =
     (let (dirty, j) = take_dirty_cookies j in
      do {
        db \<leftarrow> insert_cookies S dirty db;
        (now, j) \<leftarrow> purge_expired_cookies w None j;
        now \<leftarrow> placeholder_time now;
        Some (j, delete_rows_before S now db)
      })"

subsection \<open>What SQLite promises\<close>

text \<open>
  \<^verbatim>\<open>INSERT OR REPLACE\<close> with the primary key of name, domain and path, \<^verbatim>\<open>DELETE\<close> with a comparison of the
  expiry time, and \<^verbatim>\<open>SELECT *\<close>, which returns every row once in some order.
\<close>

definition row_key :: "cookie_row \<Rightarrow> cookie_storage_key" where
  "row_key r = \<lparr>key_name = row_name r, key_domain = row_domain r, key_path = row_path r\<rparr>"

definition database_ok :: "'db database \<Rightarrow> bool" where
  "database_ok S \<longleftrightarrow>
     (\<forall>r db. set (select_rows S (insert_or_replace_row S r db)) = insert r {x \<in> set (select_rows S db). row_key x \<noteq> row_key r}) \<and>
     (\<forall>n db. set (select_rows S (delete_rows_before S n db)) = {x \<in> set (select_rows S db). \<not> row_expiry_time x < n})"

subsection \<open>Times in milliseconds\<close>

definition ms_of :: "unix_date_time \<Rightarrow> int" where
  "ms_of t = clamp i64 (round_away (nanoseconds_of t) 1000000)"

definition at_ms :: "int \<Rightarrow> unix_date_time" where
  "at_ms n = Duration (n div 1000) (n mod 1000 * 1000000)"

lemma placeholder_time_value: "duration_ok t \<Longrightarrow> placeholder_time t = Some (ms_of t)"
  by (simp add: placeholder_time_def to_milliseconds_def rounded_units_value ms_of_def)

lemma ms_of_range: "is_within_range i64 (ms_of t)"
  by (simp add: ms_of_def clamp_def is_within_range_def)

lemma column_time_value: "column_time n = Success (at_ms n)"
  by (simp add: column_time_def from_milliseconds_def sane_mod_value at_ms_def)

lemma nanoseconds_at_ms [simp]: "nanoseconds_of (at_ms n) = n * 1000000"
proof -
  have "n div 1000 * 1000 + n mod 1000 = n"
    by simp
  then have "n div 1000 * 1000000000 + n mod 1000 * 1000000 = n * 1000000"
    by linarith
  then show ?thesis
    by (simp add: at_ms_def nanoseconds_of_def)
qed

lemma at_ms_ok:
  assumes "is_within_range i64 n"
  shows "duration_ok (at_ms n)"
proof -
  define q r where "q = n div 1000" and "r = n mod 1000"
  have "n = q * 1000 + r" "0 \<le> r" "r < 1000"
    by (simp_all add: q_def r_def)
  then show ?thesis
    using assms unfolding at_ms_def duration_ok_def is_within_range_def q_def [symmetric] r_def [symmetric] by auto
qed

lemma round_away_bounds:
  fixes n :: int
  defines "q \<equiv> round_away n 1000000"
  shows "0 \<le> n \<Longrightarrow> n \<le> q * 1000000" "q * 1000000 < n + 1000000" "n < 0 \<Longrightarrow> q * 1000000 \<le> n" "n - 1000000 < q * 1000000"
proof -
  define p r where "p = (- n) div 1000000" and "r = (- n) mod 1000000"
  have p: "- n = p * 1000000 + r" "0 \<le> r" "r < 1000000"
    by (simp_all add: p_def r_def)
  define p' r' where "p' = n div 1000000" and "r' = n mod 1000000"
  have p': "n = p' * 1000000 + r'" "0 \<le> r'" "r' < 1000000"
    by (simp_all add: p'_def r'_def)
  have "q = (if 0 \<le> n then - p else p')"
    by (simp add: q_def round_away_def p_def p'_def)
  then show "0 \<le> n \<Longrightarrow> n \<le> q * 1000000" "q * 1000000 < n + 1000000" "n < 0 \<Longrightarrow> q * 1000000 \<le> n" "n - 1000000 < q * 1000000"
    using p p' by (auto split: if_splits)
qed

lemma round_away_mono:
  assumes "a \<le> b"
  shows "round_away a 1000000 \<le> round_away b 1000000"
  using round_away_bounds [of a] round_away_bounds [of b] assms by linarith

lemma ms_of_mono: "nanoseconds_of a \<le> nanoseconds_of b \<Longrightarrow> ms_of a \<le> ms_of b"
  using round_away_mono [of "nanoseconds_of a" "nanoseconds_of b"] by (auto simp: ms_of_def clamp_def)

lemma ms_of_at_ms [simp]: "is_within_range i64 n \<Longrightarrow> ms_of (at_ms n) = n"
  by (simp add: ms_of_def round_away_def clamp_def is_within_range_def flip: mult_minus_left)

lemma expiry_rounds_up:
  assumes "0 \<le> nanoseconds_of now" "nanoseconds_of now \<le> type_max i64 * 1000000" "nanoseconds_of now \<le> nanoseconds_of e"
  shows "nanoseconds_of now \<le> ms_of e * 1000000"
proof -
  have "nanoseconds_of e \<le> round_away (nanoseconds_of e) 1000000 * 1000000"
    using round_away_bounds(1) assms by simp
  then show ?thesis
    using assms by (auto simp: ms_of_def clamp_def)
qed

lemma expired_a_millisecond_later:
  assumes "n < ms_of t" "type_min i64 \<le> n"
  shows "n * 1000000 < nanoseconds_of t"
proof -
  have "ms_of t \<le> round_away (nanoseconds_of t) 1000000 \<or> ms_of t = type_min i64"
    by (auto simp: ms_of_def clamp_def)
  then show ?thesis
    using assms round_away_bounds [of "nanoseconds_of t"] by linarith
qed

lemma is_expired_iff:
  "cookie_times_ok c \<Longrightarrow> duration_ok now \<Longrightarrow> is_expired now c \<longleftrightarrow> nanoseconds_of (expiry_time c) < nanoseconds_of now"
  by (auto simp: is_expired_def cookie_times_ok_def duration_compare_sgn)

subsection \<open>Rows of cookies and cookies of rows\<close>

definition row_of :: "cookie \<Rightarrow> cookie_row" where
  "row_of c =
     \<lparr>row_name = cookie_name c, row_value = cookie_value c, row_same_site = same_site_to_underlying (same_site_of c),
      row_creation_time = ms_of (creation_time c), row_last_access_time = ms_of (last_access_time c),
      row_expiry_time = ms_of (expiry_time c), row_domain = cookie_domain c, row_path = cookie_path c,
      row_secure = placeholder_bool (secure c), row_http_only = placeholder_bool (http_only c),
      row_host_only = placeholder_bool (host_only c), row_persistent = placeholder_bool (persistent c)\<rparr>"

definition cookie_of :: "cookie_row \<Rightarrow> cookie" where
  "cookie_of r =
     \<lparr>cookie_name = row_name r, cookie_value = row_value r, same_site_of = the (same_site_from_underlying (row_same_site r)),
      creation_time = at_ms (row_creation_time r), last_access_time = at_ms (row_last_access_time r),
      expiry_time = at_ms (row_expiry_time r), cookie_domain = row_domain r, cookie_path = row_path r,
      secure = column_bool (row_secure r), http_only = column_bool (row_http_only r),
      host_only = column_bool (row_host_only r), persistent = column_bool (row_persistent r)\<rparr>"

definition text_ok :: "(bytes \<Rightarrow> bool) \<Rightarrow> bytes \<Rightarrow> bool" where
  "text_ok validate str \<longleftrightarrow> validate str \<and> CHR 0x00 \<notin> set str"

definition storable :: "(bytes \<Rightarrow> bool) \<Rightarrow> cookie \<Rightarrow> bool" where
  "storable validate c \<longleftrightarrow> list_all (text_ok validate) [cookie_name c, cookie_value c, cookie_domain c, cookie_path c]"

definition row_ok :: "(bytes \<Rightarrow> bool) \<Rightarrow> cookie_row \<Rightarrow> bool" where
  "row_ok validate r \<longleftrightarrow> list_all (text_ok validate) [row_name r, row_value r, row_domain r, row_path r] \<and>
     0 \<le> row_same_site r \<and> row_same_site r \<le> 3 \<and>
     list_all (is_within_range i64) [row_creation_time r, row_last_access_time r, row_expiry_time r] \<and>
     list_all (\<lambda>n. n = 0 \<or> n = 1) [row_secure r, row_http_only r, row_host_only r, row_persistent r]"

text \<open>What is left of a cookie after a restart: its times are rounded, and the last access may be older.\<close>

definition same_cookie :: "cookie \<Rightarrow> cookie \<Rightarrow> bool" where
  "same_cookie c c' \<longleftrightarrow>
     c' = c\<lparr>creation_time := at_ms (ms_of (creation_time c)), last_access_time := last_access_time c',
            expiry_time := at_ms (ms_of (expiry_time c))\<rparr>"

lemma insert_cookie_value:
  "cookie_times_ok c \<Longrightarrow> insert_cookie S c db = Some (insert_or_replace_row S (row_of c) db)"
  by (simp add: insert_cookie_def cookie_times_ok_def placeholder_time_value row_of_def)

lemma same_site_underlying [simp]:
  "same_site_from_underlying (same_site_to_underlying s) = Some s" "0 \<le> same_site_to_underlying s" "same_site_to_underlying s \<le> 3"
  by (cases s; simp add: same_site_from_underlying_def)+

lemma column_text_value: "text_ok validate str \<Longrightarrow> column_text validate str = Success str"
proof -
  assume t: "text_ok validate str"
  then have "takeWhile (\<lambda>b. b \<noteq> CHR 0x00) str = str"
    by (auto simp: text_ok_def takeWhile_eq_all_conv)
  then show ?thesis
    using t by (simp only: column_text_def from_utf8_def text_ok_def if_True asserted.simps)
qed

lemma parse_cookie_row_value:
  assumes "row_ok validate r"
  shows "parse_cookie_row validate r = Success (cookie_of r)"
proof -
  have "row_same_site r \<in> {0, 1, 2, 3}"
    using assms by (auto simp: row_ok_def)
  then show ?thesis
    using assms by (auto simp: parse_cookie_row_def row_ok_def column_text_value column_time_value cookie_of_def same_site_from_underlying_def)
qed

lemma cookie_of_times: "row_ok validate r \<Longrightarrow> cookie_times_ok (cookie_of r)"
  by (simp add: row_ok_def cookie_times_ok_def cookie_of_def at_ms_ok)

lemma cookie_of_key [simp]: "storage_key (cookie_of r) = row_key r"
  by (simp add: cookie_of_def storage_key_def row_key_def)

lemma row_of_key [simp]: "row_key (row_of c) = storage_key c"
  by (simp add: row_of_def storage_key_def row_key_def)

lemma row_of_ok: "storable validate c \<Longrightarrow> row_ok validate (row_of c)"
  by (simp add: storable_def row_ok_def row_of_def ms_of_range placeholder_bool_def)

text \<open>A row of a cookie up to the last access, and the cookie that is read from it.\<close>

definition row_for :: "cookie \<Rightarrow> cookie_row \<Rightarrow> bool" where
  "row_for c r \<longleftrightarrow> r = (row_of c)\<lparr>row_last_access_time := row_last_access_time r\<rparr>"

lemma row_for_row_of [simp]: "row_for c (row_of c)"
  by (simp add: row_for_def)

lemma row_for_touched [simp]: "row_for (c\<lparr>last_access_time := t\<rparr>) r = row_for c r"
  by (simp add: row_for_def row_of_def)

lemma row_for_expiry: "row_for c r \<Longrightarrow> row_expiry_time r = ms_of (expiry_time c)"
  unfolding row_for_def by (metis cookie_row.select_convs(6) cookie_row.surjective cookie_row.update_convs(5) row_of_def)

lemma same_cookie_row:
  assumes "row_for c r"
  shows "same_cookie c (cookie_of r)"
proof -
  define t where "t = row_last_access_time r"
  have r: "r = (row_of c)\<lparr>row_last_access_time := t\<rparr>"
    using assms by (simp add: row_for_def t_def)
  show ?thesis
    unfolding same_cookie_def r by (simp add: cookie_of_def row_of_def column_bool_def placeholder_bool_def)
qed

lemma row_for_cookie_of:
  assumes "row_ok validate r" 
  shows "row_for (cookie_of r) r"
proof -
  have "same_site_to_underlying (the (same_site_from_underlying n)) = n" if "0 \<le> n" "n \<le> 3" for n
  proof -
    have "n \<in> {0, 1, 2, 3}"
      using that by auto
    then show ?thesis
      by (auto simp: same_site_from_underlying_def)
  qed
  moreover have "placeholder_bool (column_bool n) = n" if "n = 0 \<or> n = 1" for n
    using that by (auto simp: placeholder_bool_def column_bool_def)
  ultimately have "row_of (cookie_of r) = r"
    using assms by (simp add: row_ok_def row_of_def cookie_of_def)
  then show ?thesis
    by (metis row_for_row_of)
qed

subsection \<open>The database as a map\<close>

definition disk :: "'db database \<Rightarrow> 'db \<Rightarrow> cookie_storage_key \<Rightarrow> cookie_row option" where
  "disk S db k = find (\<lambda>r. row_key r = k) (select_rows S db)"

definition rows_ok :: "'db database \<Rightarrow> (bytes \<Rightarrow> bool) \<Rightarrow> 'db \<Rightarrow> bool" where
  "rows_ok S validate db \<longleftrightarrow> inj_on row_key (set (select_rows S db)) \<and> (\<forall>r\<in>set (select_rows S db). row_ok validate r)"

lemma find_key:
  assumes "inj_on row_key (set rows)"
  shows "find (\<lambda>r. row_key r = k) rows = Some r \<longleftrightarrow> r \<in> set rows \<and> row_key r = k"
  using assms by (induction rows) (auto simp: inj_on_def)

lemma disk_Some: "rows_ok S validate db \<Longrightarrow> disk S db k = Some r \<longleftrightarrow> r \<in> set (select_rows S db) \<and> row_key r = k"
  by (simp add: disk_def rows_ok_def find_key)

lemma insert_row_ok:
  assumes "database_ok S" "rows_ok S validate db" "row_ok validate r"
  shows "rows_ok S validate (insert_or_replace_row S r db)"
    and "disk S (insert_or_replace_row S r db) = (disk S db)(row_key r \<mapsto> r)"
proof -
  have set: "set (select_rows S (insert_or_replace_row S r db)) = insert r {x \<in> set (select_rows S db). row_key x \<noteq> row_key r}"
    using assms(1) by (simp add: database_ok_def)
  show ok: "rows_ok S validate (insert_or_replace_row S r db)"
    using assms(2,3) unfolding rows_ok_def set by (auto simp: inj_on_def)
  show "disk S (insert_or_replace_row S r db) = (disk S db)(row_key r \<mapsto> r)"
  proof
    fix k
    have "disk S (insert_or_replace_row S r db) k = Some x \<longleftrightarrow> ((disk S db)(row_key r \<mapsto> r)) k = Some x" for x
      using disk_Some [OF ok, of k x] disk_Some [OF assms(2), of k x] unfolding set by auto
    then show "disk S (insert_or_replace_row S r db) k = ((disk S db)(row_key r \<mapsto> r)) k"
      by (metis option.exhaust)
  qed
qed

lemma delete_rows_ok:
  assumes "database_ok S" "rows_ok S validate db"
  shows "rows_ok S validate (delete_rows_before S n db)"
    and "disk S (delete_rows_before S n db) k = Some r \<longleftrightarrow> disk S db k = Some r \<and> \<not> row_expiry_time r < n"
proof -
  have set: "set (select_rows S (delete_rows_before S n db)) = {x \<in> set (select_rows S db). \<not> row_expiry_time x < n}"
    using assms(1) by (simp add: database_ok_def)
  show ok: "rows_ok S validate (delete_rows_before S n db)"
    using assms(2) unfolding rows_ok_def set by (auto simp: inj_on_def)
  show "disk S (delete_rows_before S n db) k = Some r \<longleftrightarrow> disk S db k = Some r \<and> \<not> row_expiry_time r < n"
    using disk_Some [OF ok, of k r] disk_Some [OF assms(2), of k r] unfolding set by auto
qed

text \<open>Reading all rows.\<close>

lemma read_rows_value:
  assumes w: "world_ok w"
  shows "inj_on row_key (set rows) \<Longrightarrow> \<forall>r\<in>set rows. row_ok (validate_utf8 w) r \<Longrightarrow> cookies_ok t \<Longrightarrow>
    \<exists>t'. read_rows w rows t = Success t' \<and> cookies_ok t' \<and>
      (\<forall>k. table_get t' k = (case find (\<lambda>r. row_key r = k) rows of Some r \<Rightarrow> Some (cookie_of r) | None \<Rightarrow> table_get t k))"
proof (induction rows arbitrary: t)
  case (Cons r rows)
  let ?t = "table_set (hash_order w) (row_key r) (cookie_of r) t"
  have o: "order_ok (hash_order w)"
    using w by (simp add: world_ok_def)
  have ok: "cookies_ok ?t"
    by (rule cookies_ok_put [OF o Cons.prems(3)]) (use Cons.prems(2) cookie_of_times in auto)
  have g: "table_get ?t = (table_get t)(row_key r \<mapsto> cookie_of r)"
    using Cons.prems(3) o by (simp add: cookies_ok_def cookie_table.entry_put)
  have inj: "inj_on row_key (set rows)"
    using Cons.prems(1) by (simp add: inj_on_def)
  obtain t' where t': "read_rows w rows ?t = Success t'" "cookies_ok t'"
      "\<forall>k. table_get t' k = (case find (\<lambda>r. row_key r = k) rows of Some r \<Rightarrow> Some (cookie_of r) | None \<Rightarrow> table_get ?t k)"
    using Cons.IH [OF inj _ ok] Cons.prems(2) by auto
  have "find (\<lambda>x. row_key x = row_key r) rows = Some x \<Longrightarrow> x = r" for x
    using Cons.prems(1) find_key [OF inj, of "row_key r" x] by (auto simp: inj_on_def)
  then have "\<forall>k. table_get t' k = (case find (\<lambda>r. row_key r = k) (r # rows) of Some r \<Rightarrow> Some (cookie_of r) | None \<Rightarrow> table_get t k)"
    using t'(3) g by (auto split: option.splits)
  moreover have "read_rows w (r # rows) t = Success t'"
    using Cons.prems(2) t'(1) by (simp add: parse_cookie_row_value)
  ultimately show ?case
    using t'(2) by blast
qed simp

subsection \<open>The jar and the database in step\<close>

text \<open>What the database holds once the dirty cookies have been written.\<close>

definition pending :: "'db database \<Rightarrow> cookie_jar \<Rightarrow> 'db \<Rightarrow> cookie_storage_key \<Rightarrow> cookie_row option" where
  "pending S j db k = (case table_get (m_dirty_cookies j) k of Some c \<Rightarrow> Some (row_of c) | None \<Rightarrow> disk S db k)"

text \<open>
  Every stored cookie has its row, dirty or on disk; a row without a stored cookie expires no later than
  the present millisecond.
\<close>

definition matched :: "unix_date_time \<Rightarrow> cookie option \<Rightarrow> cookie_row option \<Rightarrow> bool" where
  "matched now c r =
     (case c of Some c \<Rightarrow> (case r of Some r \<Rightarrow> row_for c r | None \<Rightarrow> False)
      | None \<Rightarrow> (case r of Some r \<Rightarrow> row_expiry_time r \<le> ms_of now | None \<Rightarrow> True))"

definition in_step :: "'db database \<Rightarrow> (bytes \<Rightarrow> bool) \<Rightarrow> unix_date_time \<Rightarrow> cookie_jar \<Rightarrow> 'db \<Rightarrow> bool" where
  "in_step S validate now j db \<longleftrightarrow>
     jar_ok j \<and> rows_ok S validate db \<and> (\<forall>k c. table_get (m_dirty_cookies j) k = Some c \<longrightarrow> storable validate c) \<and>
     (\<forall>k. matched now (stored j k) (pending S j db k))"

definition untouched :: "cookie \<Rightarrow> cookie" where
  "untouched c = c\<lparr>last_access_time := Duration 0 0\<rparr>"

lemma untouched_touch [simp]: "untouched (c\<lparr>last_access_time := t\<rparr>) = untouched c"
  by (simp add: untouched_def)

lemma row_for_untouch [simp]: "row_for (untouched c) r = row_for c r"
  by (simp add: untouched_def)

lemma row_for_untouched:
  assumes "untouched c = untouched c'"
  shows "row_for c r \<longleftrightarrow> row_for c' r"
  using assms by (metis row_for_untouch)

lemma matched_untouched:
  assumes "map_option untouched a = map_option untouched b"
  shows "matched now a r = matched now b r"
proof (cases a)
  case None
  then show ?thesis
    using assms by simp
next
  case (Some c)
  then obtain c' where b: "b = Some c'" "untouched c = untouched c'"
    using assms by (cases b) auto
  show ?thesis
    using row_for_untouched [OF b(2)] by (simp add: Some b(1) matched_def split: option.split)
qed

lemma in_step_touched:
  assumes "in_step S validate now j db" "jar_ok j'" "m_dirty_cookies j' = m_dirty_cookies j"
    "\<And>k. map_option untouched (stored j' k) = map_option untouched (stored j k)"
  shows "in_step S validate now j' db"
  using assms(1-3) matched_untouched [OF assms(4)] by (simp add: in_step_def pending_def)

lemma in_step_later:
  assumes "in_step S validate now j db" "nanoseconds_of now \<le> nanoseconds_of later"
  shows "in_step S validate later j db"
proof -
  have "matched now c r \<Longrightarrow> matched later c r" for c r
    using ms_of_mono [OF assms(2)] by (auto simp: matched_def split: option.splits)
  then show ?thesis
    using assms(1) by (simp add: in_step_def)
qed

lemma in_step_purge:
  assumes "in_step S validate now j db" "world_ok w" "nanoseconds_of now \<le> nanoseconds_of (clock w)"
  shows "in_step S validate (clock w) (purge w j) db"
proof -
  have ok: "jar_ok j" and now: "duration_ok (clock w)"
    using assms by (simp_all add: in_step_def world_ok_def)
  have "matched (clock w) (live_cookies (clock w) (stored j) k) r" if m: "matched now (stored j k) r" for k r
  proof (cases "stored j k")
    case None
    then show ?thesis
      using m ms_of_mono [OF assms(3)] by (auto simp: matched_def live_cookies_def split: option.splits)
  next
    case (Some c)
    have "is_expired (clock w) c \<Longrightarrow> ms_of (expiry_time c) \<le> ms_of (clock w)"
      using ok Some now by (intro ms_of_mono) (auto simp: jar_ok_def cookies_ok_def is_expired_iff)
    then show ?thesis
      using m Some row_for_expiry by (auto simp: matched_def live_cookies_def split: option.splits)
  qed
  then show ?thesis
    using assms(1) remove_expired_ok [OF assms(2) ok] by (simp add: in_step_def stored_remove_expired [OF assms(2) ok] pending_def)
qed

lemma in_step_set:
  assumes "in_step S validate now j db" "world_ok w" "cookie_times_ok c" "storable validate c"
  shows "in_step S validate now (transient_set_cookie w (storage_key c) c j) db"
  using assms transient_set_ok [of w j c] by (auto simp: in_step_def pending_def matched_def)

lemma insert_stored_cookie_cases:
  assumes "jar_ok j" "cookie_times_ok c"
  shows "insert_stored_cookie w source c j = j \<or>
    (\<exists>c'. cookie_times_ok c' \<and> insert_stored_cookie w source c j = purge w (transient_set_cookie w (storage_key c') c' j))"
proof (cases "stored j (storage_key c)")
  case None
  then show ?thesis
    using assms(2) by (auto simp: insert_stored_cookie_def transient_get_cookie_def)
next
  case (Some old)
  let ?c = "c\<lparr>creation_time := creation_time old\<rparr>"
  have "cookie_times_ok ?c"
    using Some assms by (auto simp: jar_ok_def cookies_ok_def cookie_times_ok_def)
  moreover have "insert_stored_cookie w source c j \<in>
      {j, purge w (transient_set_cookie w (storage_key c) c j), purge w (transient_set_cookie w (storage_key ?c) ?c j)}"
    using Some by (simp add: insert_stored_cookie_def transient_get_cookie_def)
  ultimately show ?thesis
    using assms(2) by blast
qed

lemma in_step_set_cookie:
  assumes i: "in_step S validate now j db" and w: "world_ok w" and t: "nanoseconds_of now \<le> nanoseconds_of (clock w)"
    and p: "parsed_times_ok p" and s: "set_cookie w u p source j = Success j'"
    and st: "\<And>k c. table_get (m_dirty_cookies j') k = Some c \<Longrightarrow> storable validate c"
  shows "in_step S validate (clock w) j' db"
proof -
  have ok: "jar_ok j"
    using i by (simp add: in_step_def)
  consider "j' = j" | c where "cookie_times_ok c" "j' = purge w (transient_set_cookie w (storage_key c) c j)"
  proof (rule set_cookie_cases [OF w p ok s])
    fix d c
    assume "cookie_times_ok c" "j' = insert_stored_cookie w source c j"
    then show thesis
      using that insert_stored_cookie_cases [OF ok, of c w source] by blast
  qed (use that in blast)
  then show ?thesis
  proof cases
    case 1
    then show ?thesis
      using in_step_later [OF i t] by simp
  next
    case (2 c)
    have "storable validate c"
      using st [of "storage_key c" c] transient_set_ok(3) [OF w ok 2(1)] unfolding 2(2) by simp
    then show ?thesis
      using in_step_purge [OF in_step_set [OF i w 2(1)] w t] 2(2) by simp
  qed
qed

lemma in_step_get_cookie:
  assumes i: "in_step S validate now j db" and w: "world_ok w" and t: "nanoseconds_of now \<le> nanoseconds_of (clock w)"
    and g: "get_cookie w u source j = Success (str, j')"
  shows "in_step S validate (clock w) j' db"
proof -
  let ?j = "purge w j"
  have p: "in_step S validate (clock w) ?j db"
    by (rule in_step_purge [OF i w t])
  then have ok: "jar_ok ?j" and live: "live_cookies (clock w) (stored ?j) = stored ?j"
    using stored_remove_expired [OF w] i by (simp_all add: in_step_def)
  consider "j' = ?j" | (matched) d cs where "get_matching_cookies w u d source RFC6265 ?j = Success (cs, j')"
    using g by (auto simp: get_cookie_def Let_def outcome_bind_Success split: option.splits)
  then show ?thesis
  proof cases
    case 1
    then show ?thesis
      using p by simp
  next
    case matched
    show ?thesis
    proof (cases "serialize_path u")
      case None
      then have "j' = purge w ?j"
        using matched by (simp add: get_matching_cookies_def split: if_splits)
      then show ?thesis
        using in_step_purge [OF p w] by simp
    next
      case (Some r)
      let ?f = "\<lambda>c. if cookie_matches u r d source c then c\<lparr>last_access_time := clock w\<rparr> else c"
      have j': "jar_ok j'" "m_dirty_cookies j' = m_dirty_cookies ?j"
          "stored j' = live_cookies (clock w) (\<lambda>k. map_option ?f (stored ?j k))"
        using get_matching_cookies_value [OF w ok Some, of d source] matched by auto
      have "map_option untouched (stored j' k) = map_option untouched (live_cookies (clock w) (stored ?j) k)" for k
        unfolding j'(3) live_cookies_def by (cases "stored ?j k") simp_all
      then show ?thesis
        using in_step_touched [OF p j'(1,2)] live by simp
    qed
  qed
qed

lemma insert_cookies_ok:
  assumes S: "database_ok S"
  shows "rows_ok S validate db \<Longrightarrow> table_ok t \<Longrightarrow> (\<forall>k c. table_get t k = Some c \<longrightarrow> k = storage_key c \<and> cookie_times_ok c \<and> storable validate c) \<Longrightarrow>
    \<exists>db'. insert_cookies S t db = Some db' \<and> rows_ok S validate db' \<and>
      (\<forall>k. disk S db' k = (case table_get t k of Some c \<Rightarrow> Some (row_of c) | None \<Rightarrow> disk S db k))"
proof (induction t arbitrary: db)
  case (Cons x t)
  obtain k c where x: "x = (k, c)"
    by (cases x)
  have c: "k = storage_key c" "cookie_times_ok c" "storable validate c"
    using spec [OF spec [OF Cons.prems(3), of k], of c] by (simp_all add: x table_get_def)
  have k: "table_get t k = None" and t: "table_ok t"
    using Cons.prems(2) by (auto simp: x table_ok_def table_get_def map_of_eq_None_iff)
  have "table_get t k' = Some c' \<Longrightarrow> table_get (x # t) k' = Some c'" for k' c'
    using k by (auto simp: table_get_def x)
  then have rest: "\<forall>k c. table_get t k = Some c \<longrightarrow> k = storage_key c \<and> cookie_times_ok c \<and> storable validate c"
    using Cons.prems(3) by blast
  note ins = insert_row_ok [OF S Cons.prems(1) row_of_ok [OF c(3)]]
  obtain db' where db': "insert_cookies S t (insert_or_replace_row S (row_of c) db) = Some db'" "rows_ok S validate db'"
      "\<forall>k. disk S db' k = (case table_get t k of Some c \<Rightarrow> Some (row_of c) | None \<Rightarrow> disk S (insert_or_replace_row S (row_of c) db) k)"
    using Cons.IH [OF ins(1) t rest] by blast
  have "\<forall>k'. disk S db' k' = (case table_get (x # t) k' of Some c \<Rightarrow> Some (row_of c) | None \<Rightarrow> disk S db k')"
    using db'(3) k c(1) unfolding ins(2) by (auto simp: x table_get_def split: option.splits)
  then show ?case
    using db'(1,2) by (simp add: x insert_cookie_value [OF c(2)])
qed (simp add: table_get_def)

lemma synchronize_in_step:
  assumes S: "database_ok S" and i: "in_step S validate now j db" and w: "world_ok w"
    and t: "nanoseconds_of now \<le> nanoseconds_of (clock w)"
  shows "\<exists>j' db'. synchronize S w j db = Some (j', db') \<and> in_step S validate (clock w) j' db' \<and>
    m_dirty_cookies j' = [] \<and> stored j' = live_cookies (clock w) (stored j)"
proof -
  let ?t = "m_dirty_cookies j" and ?j = "j\<lparr>m_dirty_cookies := []\<rparr>"
  have ok: "jar_ok j" and r: "rows_ok S validate db" and now: "duration_ok (clock w)"
    and dirty: "table_ok ?t" "\<forall>k c. table_get ?t k = Some c \<longrightarrow> k = storage_key c \<and> cookie_times_ok c \<and> storable validate c"
    using i w by (auto simp: in_step_def jar_ok_def cookies_ok_def world_ok_def)
  obtain db1 where db1: "insert_cookies S ?t db = Some db1" "rows_ok S validate db1"
      "\<And>k. disk S db1 k = pending S j db k"
    using insert_cookies_ok [OF S r dirty] unfolding pending_def by blast
  have ok': "jar_ok ?j"
    using ok by (simp add: jar_ok_def cookies_ok_def table_ok_def table_get_def)
  have "in_step S validate now ?j db1"
    using i ok' db1 by (simp add: in_step_def pending_def [of S ?j] table_get_def)
  note p = in_step_purge [OF this w t]
  let ?db2 = "delete_rows_before S (ms_of (clock w)) db1"
  have s: "synchronize S w j db = Some (purge w ?j, ?db2)"
    using db1(1) now by (simp add: synchronize_def take_dirty_cookies_def purge_expired_cookies_def placeholder_time_value)
  note del = delete_rows_ok [OF S db1(2), of "ms_of (clock w)"]
  have m: "matched (clock w) (stored (purge w ?j) k) (disk S db1 k)" for k
    using p by (simp add: in_step_def pending_def table_get_def [of "[]"])
  have "matched (clock w) (stored (purge w ?j) k) (disk S ?db2 k)" for k
  proof (cases "stored (purge w ?j) k")
    case None
    then show ?thesis
      using m [of k] del(2) [of k] by (auto simp: matched_def split: option.splits)
  next
    case (Some c)
    then have "\<not> is_expired (clock w) c" "cookie_times_ok c"
      using stored_remove_expired [OF w ok'] ok by (auto simp: live_cookies_Some jar_ok_def cookies_ok_def)
    then have "ms_of (clock w) \<le> ms_of (expiry_time c)"
      using now by (intro ms_of_mono) (simp add: is_expired_iff)
    moreover obtain r where "disk S db1 k = Some r" "row_for c r"
      using m [of k] Some by (auto simp: matched_def split: option.splits)
    ultimately show ?thesis
      using Some del(2) [of k r] row_for_expiry by (simp add: matched_def)
  qed
  then have "in_step S validate (clock w) (purge w ?j) ?db2"
    using p del(1) by (simp add: in_step_def pending_def table_get_def [of "[]"])
  then show ?thesis
    using s stored_remove_expired [OF w ok'] by simp
qed

lemma open_jar_in_step:
  assumes S: "database_ok S" and r: "rows_ok S (validate_utf8 w) db" and w: "world_ok w"
  shows "\<exists>j. open_jar S w db = Success j \<and> in_step S (validate_utf8 w) (clock w) j db \<and>
    stored j = live_cookies (clock w) (\<lambda>k. map_option cookie_of (disk S db k))"
proof -
  obtain t where t: "read_rows w (select_rows S db) [] = Success t" "cookies_ok t"
      "\<And>k. table_get t k = map_option cookie_of (disk S db k)"
    using read_rows_value [OF w, of "select_rows S db" "[]"] r
    by (auto simp: rows_ok_def cookies_ok_def table_ok_def table_get_def disk_def option.case_eq_if map_option_case)
  let ?j = "empty_jar\<lparr>m_cookies := t\<rparr>"
  have ok: "jar_ok ?j"
    using t(2) by (simp add: jar_ok_def empty_jar_def cookies_ok_def table_ok_def table_get_def)
  have o: "open_jar S w db = Success (purge w ?j)"
    using t(1) by (simp add: open_jar_def select_all_cookies_def set_cookies_def)
  have "matched (clock w) (stored ?j k) (disk S db k)" for k
  proof (cases "disk S db k")
    case None
    then show ?thesis
      using t(3) [of k] by (simp add: matched_def)
  next
    case (Some x)
    then have "row_ok (validate_utf8 w) x"
      using r disk_Some [OF r, of k x] by (simp add: rows_ok_def)
    then show ?thesis
      using t(3) [of k] Some row_for_cookie_of by (simp add: matched_def)
  qed
  then have "in_step S (validate_utf8 w) (clock w) ?j db"
    using ok r by (simp add: in_step_def pending_def empty_jar_def table_get_def [of "[]"])
  then have "in_step S (validate_utf8 w) (clock w) (purge w ?j) db"
    by (rule in_step_purge [OF _ w]) simp
  moreover have "stored (purge w ?j) = live_cookies (clock w) (\<lambda>k. map_option cookie_of (disk S db k))"
    using stored_remove_expired [OF w ok] t(3) by (simp add: fun_eq_iff live_cookies_def)
  ultimately show ?thesis
    using o by blast
qed

subsection \<open>Sessions\<close>

text \<open>
  A session with a jar: it is opened on a database that earlier sessions wrote, cookies are set and read, and
  the timer synchronizes, in any order while the clock does not go back.  The texts of the cookies that are
  set have to survive the database: valid UTF-8 without NUL bytes.
\<close>

inductive session :: "'db database \<Rightarrow> (bytes \<Rightarrow> bool) \<Rightarrow> unix_date_time \<Rightarrow> cookie_jar \<Rightarrow> 'db \<Rightarrow> bool"
  for S :: "'db database" and validate :: "bytes \<Rightarrow> bool" where
  opened: "rows_ok S validate db \<Longrightarrow> world_ok w \<Longrightarrow> validate_utf8 w = validate \<Longrightarrow> open_jar S w db = Success j \<Longrightarrow>
    session S validate (clock w) j db"
| set: "session S validate now j db \<Longrightarrow> world_ok w \<Longrightarrow> nanoseconds_of now \<le> nanoseconds_of (clock w) \<Longrightarrow>
    parsed_times_ok p \<Longrightarrow> set_cookie w u p source j = Success j' \<Longrightarrow>
    (\<And>k c. table_get (m_dirty_cookies j') k = Some c \<Longrightarrow> storable validate c) \<Longrightarrow> session S validate (clock w) j' db"
| get: "session S validate now j db \<Longrightarrow> world_ok w \<Longrightarrow> nanoseconds_of now \<le> nanoseconds_of (clock w) \<Longrightarrow>
    get_cookie w u source j = Success (str, j') \<Longrightarrow> session S validate (clock w) j' db"
| timer: "session S validate now j db \<Longrightarrow> world_ok w \<Longrightarrow> nanoseconds_of now \<le> nanoseconds_of (clock w) \<Longrightarrow>
    synchronize S w j db = Some (j', db') \<Longrightarrow> session S validate (clock w) j' db'"

lemma session_in_step:
  assumes S: "database_ok S"
  shows "session S validate now j db \<Longrightarrow> in_step S validate now j db"
proof (induction rule: session.induct)
  case (opened db w j)
  then show ?case
    using open_jar_in_step [OF S, of w db] by auto
next
  case (set now j db w p u source j')
  show ?case
    by (rule in_step_set_cookie [OF set.IH set.hyps(2-5)]) (rule set.hyps(6))
next
  case (get now j db w u source str j')
  show ?case
    by (rule in_step_get_cookie [OF get.IH get.hyps(2-4)])
next
  case (timer now j db w j' db')
  then show ?case
    using synchronize_in_step [OF S, of validate now j db w] by auto
qed

subsection \<open>Properties\<close>


text \<open>A database that is a list of rows.\<close>

definition list_database :: "cookie_row list database" where
  "list_database =
     \<lparr>insert_or_replace_row = (\<lambda>r rows. r # filter (\<lambda>x. row_key x \<noteq> row_key r) rows),
      delete_rows_before = (\<lambda>n. filter (\<lambda>x. \<not> row_expiry_time x < n)), select_rows = (\<lambda>rows. rows)\<rparr>"

lemma list_database_ok: "database_ok list_database"
  by (auto simp: database_ok_def list_database_def)


end
