(* ===== verification/Spec2Isabelle.thy ===== *)
theory Spec2Isabelle
  imports CharacterTypes MemMem StringUtils Format Utf8 Percent Ipv4 Ipv6 Host Origin Url UrlParser UrlInvariant UrlCanonical UrlStates UrlRoundTrip Checked DateTime CookieDates ParsedCookies Tables CookieJar CookieRequests CookieDatabase
begin

text \<open>
  Verification of the text and URL layer of the Ladybird browser.

  \<^bold>\<open>The program.\<close>  Ladybird is a browser.  The part verified here turns text that comes from the
  network and from pages into structured values on which its security decisions rest: byte
  searches and number conversions (AK), iteration over UTF-8 (AK), percent-encoding, IP addresses,
  hosts, URLs and origins (LibURL), with the IDNA wrapper of LibUnicode between the host parser
  and the ICU library.  The URL parser calls the host parser, which calls percent-decoding, ToASCII and the two
  address parsers; all of them iterate with \<^verbatim>\<open>Utf8View\<close> and search and convert with
  \<^verbatim>\<open>StringUtils\<close>.  Origins are compared and serialized from the parts of a URL.

  \<^bold>\<open>The representation.\<close>  A byte is a \<open>char\<close>, a string a list of them, a code point a \<open>nat\<close>; machine
  integers are words where the code relies on their width.  A failing \<^verbatim>\<open>VERIFY\<close> is \<open>None\<close>,
  \<open>Crash\<close> or \<open>Assertion_failed\<close>; an error result is \<open>Failure\<close>.  Loops are structural recursions or
  functions with a termination proof; the searches that follow a table use
  \<open>partial_function (option)\<close> and are proved to return.  No definition uses fuel.

  \<^bold>\<open>The theories.\<close>
  \<^item> \<open>Prelude\<close>: types and lemmas shared by all, and two interfaces: \<open>printer\<close> (a parser that reads a
    printer's output back) and \<open>loop\<close> (a step function iterated along a well-founded relation).
  \<^item> \<open>CharacterTypes\<close>: \<^verbatim>\<open>AK/CharacterTypes.h\<close>.
  \<^item> \<open>MemMem\<close>: \<^verbatim>\<open>AK/MemMem.h\<close>, both search algorithms, proved equal to the first occurrence.
  \<^item> \<open>StringUtils\<close>: \<^verbatim>\<open>AK/StringUtils.cpp\<close>, \<^verbatim>\<open>AK/StringView.cpp\<close>: comparison, conversion to integers,
    trimming, searching, splitting, replacing, counting.
  \<^item> \<open>Format\<close>: the number formatting of \<^verbatim>\<open>AK/Format.cpp\<close> that the URL code uses.
  \<^item> \<open>Utf8\<close>: \<^verbatim>\<open>AK/Utf8View.h\<close>, \<^verbatim>\<open>AK/Utf8View.cpp\<close> and the UTF-8 output of \<^verbatim>\<open>AK/StringBuilder.cpp\<close>.
  \<^item> \<open>Percent\<close>: percent-encoding and decoding of \<^verbatim>\<open>LibURL/URL.cpp\<close>.
  \<^item> \<open>Ipv4\<close>, \<open>Ipv6\<close>: the address parsers and serializers of \<^verbatim>\<open>LibURL/Parser.cpp\<close> and \<^verbatim>\<open>LibURL/Host.cpp\<close>.
  \<^item> \<open>Host\<close>: the host parser of \<^verbatim>\<open>LibURL/Parser.cpp\<close>, \<^verbatim>\<open>LibURL/Host.cpp\<close>, \<^verbatim>\<open>LibUnicode/IDNA.cpp\<close>.
  \<^item> \<open>Origin\<close>: \<^verbatim>\<open>LibURL/Origin.h\<close> and \<^verbatim>\<open>LibURL/Origin.cpp\<close>.
  \<^item> \<open>Url\<close>: the record, setters and serializers of \<^verbatim>\<open>LibURL/URL.h\<close> and \<^verbatim>\<open>LibURL/URL.cpp\<close>.
  \<^item> \<open>UrlParser\<close>: \<^verbatim>\<open>Parser::basic_parse\<close>, one definition per state, the loop and its entry points.
  \<^item> \<open>UrlInvariant\<close>: the parser runs into no failing assertion and establishes the invariant of URLs.
  \<^item> \<open>UrlCanonical\<close>: what it guarantees besides on well-formed UTF-8.

  \<^bold>\<open>Parameters.\<close>  ICU's ToASCII is a function argument (\<open>idna\<close>); \<open>idna_ok\<close> says that its result is
  lowercase ASCII and a fixed point, as UTS 46 documents.  The text encoder of the
  query is an argument as well (\<open>encoder\<close>).

  \<^bold>\<open>Not modelled.\<close>  The rest of the browser: layout, scripting, graphics, networking and the
  processes.  Most of it works on graphs of mutable, garbage-collected objects or
  calls the operating system and libraries whose code is not part of the repository.
\<close>

end
